(* ===== verification/Prelude.thy ===== *)
theory Prelude
  imports Main "HOL-Library.Word" "HOL-Library.Sublist" "HOL-Library.Multiset"
begin

section \<open>Shared types, errors and generic lemmas\<close>

text \<open>
  The vocabulary of the development: the machine integers of the Rust source at their
  widths, the outcome of a fallible operation as a sum type, the two monads in which the
  source's code is translated (a \<open>Result\<close> and a \<open>Result\<close> over a mutable receiver), and the
  lemmas on lists, options and words that every component uses.

  Rust's \<open>u8\<close>, \<open>u16\<close> and \<open>u64\<close> are words of that width; \<open>usize\<close> is the 64-bit width of the
  platforms Firewood targets and, where it only counts elements of a list in memory, a
  natural number.
\<close>

unbundle bit_operations_syntax

type_synonym u4 = "4 word"
type_synonym u8 = "8 word"
type_synonym u16 = "16 word"
type_synonym u64 = "64 word"

named_theorems monad_simps \<open>unfolding of binds that are known to succeed or fail\<close>
named_theorems po_simps \<open>the prefix overlap of two paths with a known common part\<close>

subsection \<open>Errors as values\<close>

text \<open>
  The kinds of \<open>std::io::Error\<close> the storage code raises. The human-readable message of an
  error is not modelled. A Rust panic (a failed \<open>expect\<close>, \<open>unwrap\<close> or \<open>unreachable!\<close>) is the
  outcome \<open>Panic\<close>, so that a theorem which concludes a successful result also states
  that no panic happens. \<open>OutOfFuel\<close> is the outcome of a recursion over persisted data that was
  cut short by the model's recursion bound; the Rust code has no such outcome.
\<close>

datatype io_error =
    UnexpectedEof
  | InvalidData
  | OutOfMemory
  | Unsupported
  | OtherError
  | Panic
  | OutOfFuel

type_synonym 'a io_result = "io_error + 'a"

definition rbind :: "'e + 'a \<Rightarrow> ('a \<Rightarrow> 'e + 'b) \<Rightarrow> 'e + 'b" where
  "rbind m f = (case m of Inl e \<Rightarrow> Inl e | Inr x \<Rightarrow> f x)"

lemma rbind_Inl [simp, monad_simps]: "rbind (Inl e) f = Inl e"
  by (simp add: rbind_def)

lemma rbind_Inr [simp, monad_simps]: "rbind (Inr x) f = f x"
  by (simp add: rbind_def)

lemma rbind_eq_Inr: "rbind m f = Inr y \<longleftrightarrow> (\<exists>x. m = Inr x \<and> f x = Inr y)"
  by (cases m) auto

lemma rbind_cong [fundef_cong]:
  "m = m' \<Longrightarrow> (\<And>x. m' = Inr x \<Longrightarrow> f x = f' x) \<Longrightarrow> rbind m f = rbind m' f'"
  by (cases m') auto

definition ok_or :: "'e \<Rightarrow> 'a option \<Rightarrow> 'e + 'a" where
  "ok_or e m = (case m of None \<Rightarrow> Inl e | Some x \<Rightarrow> Inr x)"

lemma ok_or_None [simp]: "ok_or e None = Inl e"
  by (simp add: ok_or_def)

lemma ok_or_Some [simp]: "ok_or e (Some x) = Inr x"
  by (simp add: ok_or_def)

lemma ok_or_eq_Inr [simp]: "ok_or e m = Inr x \<longleftrightarrow> m = Some x"
  by (cases m) auto

text \<open>
  A method on \<open>&mut self\<close> that returns a \<open>Result\<close>: the receiver's state is returned
  beside the outcome, also when the outcome is an error, because the changes made before the
  error stay.
\<close>

type_synonym ('s, 'a) sresult = "'s \<Rightarrow> 'a io_result \<times> 's"

definition sreturn :: "'a \<Rightarrow> ('s, 'a) sresult" where
  "sreturn x s = (Inr x, s)"

definition sfail :: "io_error \<Rightarrow> ('s, 'a) sresult" where
  "sfail e s = (Inl e, s)"

definition sbind :: "('s, 'a) sresult \<Rightarrow> ('a \<Rightarrow> ('s, 'b) sresult) \<Rightarrow> ('s, 'b) sresult" where
  "sbind m f s = (case m s of (Inl e, s') \<Rightarrow> (Inl e, s') | (Inr x, s') \<Rightarrow> f x s')"

lemma sreturn_apply [simp]: "sreturn x s = (Inr x, s)"
  by (simp add: sreturn_def)

lemma sfail_apply [simp]: "sfail e s = (Inl e, s)"
  by (simp add: sfail_def)

lemma sbind_Inl [monad_simps]: "m s = (Inl e, s') \<Longrightarrow> sbind m f s = (Inl e, s')"
  by (simp add: sbind_def)

lemma sbind_Inr [monad_simps]: "m s = (Inr x, s') \<Longrightarrow> sbind m f s = f x s'"
  by (simp add: sbind_def)

lemma sbind_eq_Inr:
  "sbind m f s = (Inr y, t) \<longleftrightarrow> (\<exists>x s'. m s = (Inr x, s') \<and> f x s' = (Inr y, t))"
  by (auto simp: sbind_def split: prod.splits sum.splits)

lemma sbind_cong [fundef_cong]:
  "m s = m' s' \<Longrightarrow> (\<And>x t. m' s' = (Inr x, t) \<Longrightarrow> f x t = f' x t) \<Longrightarrow>
   sbind m f s = sbind m' f' s'"
  by (auto simp: sbind_def split: prod.splits sum.splits)

text \<open>A \<open>for\<close> loop whose body may return early with an error.\<close>

fun sfor :: "('a \<Rightarrow> ('s, unit) sresult) \<Rightarrow> 'a list \<Rightarrow> ('s, unit) sresult" where
  "sfor f [] = sreturn ()"
| "sfor f (x # xs) = sbind (f x) (\<lambda>_. sfor f xs)"

subsection \<open>Slices\<close>

text \<open>\<open>slice::split_first\<close> and \<open>Iterator::position\<close>.\<close>

definition split_first :: "'a list \<Rightarrow> ('a \<times> 'a list) option" where
  "split_first xs = (case xs of [] \<Rightarrow> None | x # ys \<Rightarrow> Some (x, ys))"

lemma split_first_Nil [simp]: "split_first [] = None"
  by (simp add: split_first_def)

lemma split_first_Cons [simp]: "split_first (x # xs) = Some (x, xs)"
  by (simp add: split_first_def)

lemma split_first_eq_None [simp]: "split_first xs = None \<longleftrightarrow> xs = []"
  by (cases xs) auto

lemma split_first_eq_Some [simp]: "split_first xs = Some (y, ys) \<longleftrightarrow> xs = y # ys"
  by (cases xs) auto

text \<open>Indexing a slice panics out of range.\<close>

definition index_slice :: "'a list \<Rightarrow> nat \<Rightarrow> 'a io_result" where
  "index_slice xs i = (if i < length xs then Inr (xs ! i) else Inl Panic)"

lemma index_slice_less [simp]: "i < length xs \<Longrightarrow> index_slice xs i = Inr (xs ! i)"
  by (simp add: index_slice_def)

fun list_position :: "('a \<Rightarrow> bool) \<Rightarrow> 'a list \<Rightarrow> nat option" where
  "list_position P [] = None"
| "list_position P (x # xs) = (if P x then Some 0 else map_option Suc (list_position P xs))"

lemma list_position_None: "list_position P xs = None \<longleftrightarrow> (\<forall>x \<in> set xs. \<not> P x)"
  by (induction xs) auto

lemma list_position_Some:
  "list_position P xs = Some i \<Longrightarrow> i < length xs \<and> P (xs ! i) \<and> (\<forall>j < i. \<not> P (xs ! j))"
proof (induction xs arbitrary: i)
  case (Cons x xs)
  then show ?case
    by (auto split: if_splits simp: less_Suc_eq_0_disj)
qed simp

subsection \<open>Words\<close>

lemma unat_word_of_nat_eq:
  "n < 2 ^ LENGTH('a::len) \<Longrightarrow> unat (word_of_nat n :: 'a word) = n"
  by (simp add: unat_of_nat take_bit_nat_eq_self)

lemma u8_less_256: "unat (b :: u8) < 256"
  using unsigned_less [of b] by simp

lemma u4_less_16: "unat (c :: u4) < 16"
  using unsigned_less [of c] by simp

text \<open>\<open>u64::to_ne_bytes\<close> and its inverse on a little-endian target.\<close>

fun nat_to_le_bytes :: "nat \<Rightarrow> nat \<Rightarrow> u8 list" where
  "nat_to_le_bytes 0 n = []"
| "nat_to_le_bytes (Suc k) n = word_of_nat (n mod 256) # nat_to_le_bytes k (n div 256)"

fun nat_from_le_bytes :: "u8 list \<Rightarrow> nat" where
  "nat_from_le_bytes [] = 0"
| "nat_from_le_bytes (b # bs) = unat b + 256 * nat_from_le_bytes bs"

lemma length_nat_to_le_bytes [simp]: "length (nat_to_le_bytes k n) = k"
  by (induction k arbitrary: n) auto

lemma nat_from_to_le_bytes: "n < 256 ^ k \<Longrightarrow> nat_from_le_bytes (nat_to_le_bytes k n) = n"
proof (induction k arbitrary: n)
  case (Suc k)
  have "n div 256 < 256 ^ k"
    using Suc.prems by (simp add: less_mult_imp_div_less mult.commute)
  then show ?case
    using Suc.IH [of "n div 256"] by (simp add: unat_word_of_nat_eq)
qed simp

definition u64_to_ne_bytes :: "u64 \<Rightarrow> u8 list" where
  "u64_to_ne_bytes w = nat_to_le_bytes 8 (unat w)"

definition u64_from_ne_bytes :: "u8 list \<Rightarrow> u64" where
  "u64_from_ne_bytes bs = word_of_nat (nat_from_le_bytes bs)"

lemma length_u64_to_ne_bytes [simp]: "length (u64_to_ne_bytes w) = 8"
  by (simp add: u64_to_ne_bytes_def)

lemma u64_from_to_ne_bytes [simp]: "u64_from_ne_bytes (u64_to_ne_bytes w) = w"
proof -
  have "unat w < 256 ^ 8"
    using unsigned_less [of w] by simp
  then show ?thesis
    by (simp add: u64_from_ne_bytes_def u64_to_ne_bytes_def nat_from_to_le_bytes)
qed

end
