(* ===== verification/Paths.thy ===== *)
theory Paths
  imports Prelude
begin

section \<open>Nibbles, paths and the iterators over them\<close>

text \<open>
  The path vocabulary of the trie: path components (nibbles), the \<open>Path\<close> stored in a node,
  the iterators that expand a byte key to nibbles and pack nibbles back to bytes
  (\<open>storage/src/node/path.rs\<close>, \<open>storage/src/path/component.rs\<close>, \<open>storage/src/path/packed.rs\<close>) and the
  split of two paths at their longest common prefix (\<open>PrefixOverlap\<close> in
  \<open>firewood/src/merkle/mod.rs\<close>).

  The 4-bit integer \<open>U4\<close> comes from the crate \<open>arity-index\<close>; it is the word of width 4.
\<close>

subsection \<open>Path components\<close>

type_synonym pc = u4

definition as_u8 :: "pc \<Rightarrow> u8" where
  "as_u8 c = ucast c"

definition try_new :: "u8 \<Rightarrow> pc option" where
  "try_new v = (if v < 16 then Some (ucast v) else None)"

definition new_pair :: "u8 \<Rightarrow> pc \<times> pc" where
  "new_pair v = (ucast (drop_bit 4 v), ucast v)"

definition join :: "pc \<Rightarrow> pc \<Rightarrow> u8" where
  "join hi lo = push_bit 4 (as_u8 hi) OR as_u8 lo"

definition checked_next :: "pc \<Rightarrow> pc option" where
  "checked_next c = try_new (as_u8 c + 1)"

definition pc_ALL :: "pc list" where
  "pc_ALL = [0, 1, 2, 3, 4, 5, 6, 7, 8, 9, 10, 11, 12, 13, 14, 15]"

lemma unat_as_u8 [simp]: "unat (as_u8 c) = unat c"
  using u4_less_16 [of c] by (simp add: as_u8_def unsigned_ucast_eq take_bit_nat_eq_self)

lemma as_u8_less [simp]: "as_u8 c < 16"
  using u4_less_16 [of c] by (simp add: word_less_nat_alt)

lemma ucast_as_u8 [simp]: "ucast (as_u8 c) = c"
  using u4_less_16 [of c]
  by (simp add: word_unat_eq_iff unsigned_ucast_eq take_bit_nat_eq_self)

lemma try_new_as_u8 [simp]: "try_new (as_u8 c) = Some c"
  by (simp add: try_new_def)

lemma as_u8_ucast: "v < 16 \<Longrightarrow> as_u8 (ucast v) = v"
  by (simp add: word_unat_eq_iff unsigned_ucast_eq take_bit_nat_eq_self word_less_nat_alt)

lemma try_new_eq_Some [simp]: "try_new v = Some c \<longleftrightarrow> v = as_u8 c"
  by (auto simp: try_new_def as_u8_ucast)

lemma try_new_eq_None [simp]: "try_new v = None \<longleftrightarrow> \<not> v < 16"
  by (simp add: try_new_def)

lemma try_new_not_less [simp]: "\<not> v < 16 \<Longrightarrow> try_new v = None"
  by simp

lemma as_u8_inject [simp]: "as_u8 a = as_u8 b \<longleftrightarrow> a = b"
  by (metis option.inject try_new_as_u8)

lemma less_16_cases:
  assumes "v < (16 :: u8)"
  obtains c where "v = as_u8 c"
  using assms as_u8_ucast by metis

lemma not_bit_u4 [simp]: "\<not> bit (c :: u4) (4 + n)"
  using bit_imp_le_length [of c "4 + n"] by auto

lemma new_pair_join [simp]: "new_pair (join hi lo) = (hi, lo)"
  unfolding new_pair_def join_def as_u8_def
  by (auto intro!: bit_word_eqI simp: bit_simps)

lemma join_new_pair [simp]: "new_pair v = (hi, lo) \<Longrightarrow> join hi lo = v"
  unfolding new_pair_def join_def as_u8_def
  by (auto intro!: bit_word_eqI simp: bit_simps)

lemma set_pc_ALL [simp]: "set pc_ALL = UNIV"
proof -
  have "c \<in> set pc_ALL" for c :: pc
  proof -
    have "unat c \<in> {0..<16}" using u4_less_16 [of c] by simp
    then have "c \<in> (word_of_nat ` {0..<16} :: pc set)"
      by (metis image_eqI of_nat_unat ucast_id)
    also have "{0..<16} = set [0..<16]" by simp
    also have "word_of_nat ` set [0..<16] = set pc_ALL"
      by (simp add: pc_ALL_def upt_rec)
    finally show ?thesis .
  qed
  then show ?thesis by blast
qed

lemma length_pc_ALL [simp]: "length pc_ALL = 16"
  by (simp add: pc_ALL_def)

lemma distinct_pc_ALL [simp]: "distinct pc_ALL"
  by (simp add: pc_ALL_def)

subsection \<open>Paths of nodes\<close>

text \<open>
  A \<open>Path\<close> is a vector of bytes each of which should be a nibble. \<open>valid_path\<close> is that
  invariant; \<open>as_components\<close> panics where it fails.
\<close>

type_synonym path = "u8 list"

definition valid_path :: "path \<Rightarrow> bool" where
  "valid_path p = list_all (\<lambda>b. b < 16) p"

lemma valid_path_Nil [simp]: "valid_path []"
  by (simp add: valid_path_def)

lemma valid_path_Cons [simp]: "valid_path (b # p) \<longleftrightarrow> b < 16 \<and> valid_path p"
  by (simp add: valid_path_def)

lemma valid_path_append [simp]: "valid_path (p @ q) \<longleftrightarrow> valid_path p \<and> valid_path q"
  by (simp add: valid_path_def)

definition path_from_nibbles_iterator :: "u8 list \<Rightarrow> path" where
  "path_from_nibbles_iterator nibbles = nibbles"

fun as_components :: "path \<Rightarrow> pc list io_result" where
  "as_components [] = Inr []"
| "as_components (b # p) =
     (case try_new b of
        None \<Rightarrow> Inl Panic
      | Some c \<Rightarrow> rbind (as_components p) (\<lambda>cs. Inr (c # cs)))"

lemma as_components_map_as_u8 [simp]: "as_components (map as_u8 cs) = Inr cs"
  by (induction cs) auto

lemma valid_path_iff_map: "valid_path p \<longleftrightarrow> (\<exists>cs. p = map as_u8 cs)"
proof
  show "valid_path p \<Longrightarrow> \<exists>cs. p = map as_u8 cs"
  proof (induction p)
    case (Cons b p)
    then obtain c cs where "b = as_u8 c" "p = map as_u8 cs"
      by (auto elim: less_16_cases)
    then show ?case by (intro exI [of _ "c # cs"]) simp
  qed simp
qed (auto simp: valid_path_def list_all_iff)

lemma as_components_valid: "(\<exists>cs. as_components p = Inr cs) \<longleftrightarrow> valid_path p"
  by (induction p) (auto split: option.splits simp: rbind_eq_Inr elim: less_16_cases)

text \<open>
  \<open>Path::iter_encoded\<close> puts a flag byte, and for an even length a padding byte, before the
  nibbles; \<open>from_encoded_iter\<close> reads that form back.
\<close>

definition FLAG_ODD_LEN :: u8 where
  "FLAG_ODD_LEN = 1"

definition iter_encoded :: "path \<Rightarrow> u8 list" where
  "iter_encoded p =
     (let has_odd_len = odd (length p);
          flags = (if has_odd_len then 0 OR FLAG_ODD_LEN else 0);
          extra_byte = (if has_odd_len then [] else [0])
      in flags # extra_byte @ p)"

definition from_encoded_iter :: "u8 list \<Rightarrow> path" where
  "from_encoded_iter it =
     (let flags = (case it of [] \<Rightarrow> 0 | b # _ \<Rightarrow> b);
          rest = (case it of [] \<Rightarrow> [] | _ # bs \<Rightarrow> bs)
      in if flags AND FLAG_ODD_LEN = 0 then drop 1 rest else rest)"

lemma from_encoded_iter_encoded: "from_encoded_iter (iter_encoded p) = p"
  by (simp add: from_encoded_iter_def iter_encoded_def FLAG_ODD_LEN_def Let_def)

lemma length_iter_encoded: "even (length (iter_encoded p))"
  by (simp add: iter_encoded_def Let_def)

subsection \<open>Bytes of a nibble path\<close>

text \<open>
  \<open>BytesIterator\<close> reads two nibbles per byte and drops an odd nibble at the end. The product
  and the sum are those of \<open>u8\<close>.
\<close>

fun bytes_iter_next :: "path \<Rightarrow> u8 option \<times> path" where
  "bytes_iter_next (hi # lo # rest) = (Some (hi * 16 + lo), rest)"
| "bytes_iter_next [hi] = (None, [])"
| "bytes_iter_next [] = (None, [])"

fun bytes_iter :: "path \<Rightarrow> u8 list" where
  "bytes_iter (hi # lo # rest) = (hi * 16 + lo) # bytes_iter rest"
| "bytes_iter _ = []"

lemma bytes_iter_unfold:
  "bytes_iter p = (case bytes_iter_next p of (None, _) \<Rightarrow> [] | (Some b, q) \<Rightarrow> b # bytes_iter q)"
  by (cases p rule: bytes_iter_next.cases) auto

lemma length_bytes_iter: "length (bytes_iter p) = length p div 2"
  by (induction p rule: bytes_iter.induct) auto

subsection \<open>The nibbles of a key\<close>

text \<open>
  The nibble sequence of a byte key, high nibble first. It is what the iterator
  \<open>NibblesIterator::new(key)\<close> yields and what \<open>Path::from_nibbles_iterator\<close> collects.
\<close>

fun nibbles :: "u8 list \<Rightarrow> path" where
  "nibbles [] = []"
| "nibbles (b # bs) = drop_bit 4 b # (b AND 0xf) # nibbles bs"

lemma length_nibbles [simp]: "length (nibbles k) = 2 * length k"
  by (induction k) auto

lemma unat_low_nibble: "unat (b AND 0xf :: u8) = unat b mod 16"
proof -
  have "b AND 0xf = take_bit 4 b" by (simp add: take_bit_eq_mask mask_eq_exp_minus_1)
  then show ?thesis by (simp add: take_bit_eq_mod unat_mod)
qed

lemma unat_high_nibble: "unat (drop_bit 4 b :: u8) = unat b div 16"
  by (simp add: drop_bit_eq_div unat_div)

lemma low_nibble_less [simp]: "(b AND 0xf :: u8) < 16"
  by (simp add: word_less_nat_alt unat_low_nibble)

lemma high_nibble_less [simp]: "(drop_bit 4 b :: u8) < 16"
  using u8_less_256 [of b] by (simp add: word_less_nat_alt unat_high_nibble)

lemma valid_path_nibbles [simp]: "valid_path (nibbles k)"
  by (induction k) auto

lemma byte_of_nibbles: "drop_bit 4 b * 16 + (b AND 0xf) = (b :: u8)"
proof -
  have "unat (drop_bit 4 b * 16 + (b AND 0xf)) = unat b"
    using u8_less_256 [of b]
    by (simp add: unat_word_ariths unat_high_nibble unat_low_nibble)
  then show ?thesis by (simp add: word_unat_eq_iff)
qed

lemma bytes_iter_nibbles [simp]: "bytes_iter (nibbles k) = k"
  by (induction k) (auto simp: byte_of_nibbles)

lemma nibbles_inject [simp]: "nibbles k = nibbles l \<longleftrightarrow> k = l"
  by (metis bytes_iter_nibbles)

lemma nibbles_nth:
  "i < 2 * length k \<Longrightarrow>
   nibbles k ! i = (if even i then drop_bit 4 (k ! (i div 2)) else k ! (i div 2) AND 0xf)"
proof (induction k arbitrary: i)
  case (Cons b k)
  show ?case
  proof (cases i)
    case (Suc j)
    then show ?thesis
    proof (cases j)
      case (Suc l)
      with \<open>i = Suc j\<close> Cons show ?thesis by simp
    qed simp
  qed simp
qed simp

lemma nibbles_of_bytes_iter:
  "valid_path p \<Longrightarrow> even (length p) \<Longrightarrow> nibbles (bytes_iter p) = p"
proof (induction p rule: bytes_iter.induct)
  case (1 hi lo rest)
  have "unat (hi * 16 + lo) = unat hi * 16 + unat lo" "unat hi < 16" "unat lo < 16"
    using 1 by (auto simp: word_less_nat_alt unat_word_ariths)
  then have "drop_bit 4 (hi * 16 + lo) = hi" "(hi * 16 + lo) AND 0xf = lo"
    by (auto simp: word_unat_eq_iff unat_high_nibble unat_low_nibble)
  with 1 show ?case by simp
qed auto

subsection \<open>The overlap of two paths\<close>

record 'a PrefixOverlap =
  shared :: "'a list"
  unique_a :: "'a list"
  unique_b :: "'a list"

definition po_from :: "'a list \<Rightarrow> 'a list \<Rightarrow> 'a PrefixOverlap" where
  "po_from a b =
     (let split_index = (case list_position (\<lambda>(x, y). x \<noteq> y) (zip a b) of
                           None \<Rightarrow> min (length a) (length b)
                         | Some i \<Rightarrow> i)
      in \<lparr>shared = take split_index a, unique_a = drop split_index a, unique_b = drop split_index b\<rparr>)"

lemma po_from_Nil [po_simps]:
  "po_from [] b = \<lparr>shared = [], unique_a = [], unique_b = b\<rparr>"
  "po_from a [] = \<lparr>shared = [], unique_a = a, unique_b = []\<rparr>"
  by (simp_all add: po_from_def)

lemma po_from_Cons [po_simps]:
  "po_from (x # a) (y # b) =
     (if x = y then let p = po_from a b in p\<lparr>shared := x # shared p\<rparr>
      else \<lparr>shared = [], unique_a = x # a, unique_b = y # b\<rparr>)"
  by (simp add: po_from_def Let_def split: option.splits)

lemma po_from_append [po_simps]:
  "po_from (s @ a) (s @ b) = (let p = po_from a b in p\<lparr>shared := s @ shared p\<rparr>)"
  by (induction s) (auto simp: po_from_Cons Let_def)

lemma po_from_append_Nil [po_simps]:
  "po_from s (s @ b) = \<lparr>shared = s, unique_a = [], unique_b = b\<rparr>"
  "po_from (s @ a) s = \<lparr>shared = s, unique_a = a, unique_b = []\<rparr>"
  "po_from s s = \<lparr>shared = s, unique_a = [], unique_b = []\<rparr>"
  using po_from_append [of s "[]" b] po_from_append [of s a "[]"] po_from_append [of s "[]" "[]"]
  by (simp_all add: po_from_Nil Let_def)

lemma common_prefix_split:
  "\<exists>s a' b'. a = s @ a' \<and> b = s @ b' \<and> (a' = [] \<or> b' = [] \<or> hd a' \<noteq> hd b')"
proof (induction a b rule: list_induct2')
  case (4 x xs y ys)
  then obtain s a' b' where "xs = s @ a'" "ys = s @ b'" "a' = [] \<or> b' = [] \<or> hd a' \<noteq> hd b'"
    by blast
  then show ?case
    by (cases "x = y") (auto intro: exI [of _ "x # s"] exI [of _ "[]"])
qed auto

text \<open>The four positions of a key relative to a node, as the comments of the source list them.\<close>

lemma po_cases [case_names at above below apart]:
  obtains
    "a = b" "po_from a b = \<lparr>shared = b, unique_a = [], unique_b = []\<rparr>"
  | y b' where "b = a @ y # b'" "po_from a b = \<lparr>shared = a, unique_a = [], unique_b = y # b'\<rparr>"
  | x a' where "a = b @ x # a'" "po_from a b = \<lparr>shared = b, unique_a = x # a', unique_b = []\<rparr>"
  | s x a' y b' where "a = s @ x # a'" "b = s @ y # b'" "x \<noteq> y"
      "po_from a b = \<lparr>shared = s, unique_a = x # a', unique_b = y # b'\<rparr>"
proof -
  obtain s a' b' where ab: "a = s @ a'" "b = s @ b'" "a' = [] \<or> b' = [] \<or> hd a' \<noteq> hd b'"
    using common_prefix_split by blast
  show thesis
  proof (cases a')
    case Nil
    then show ?thesis using ab that(1,2) by (cases b') (auto simp: po_simps)
  next
    case (Cons x a'')
    show ?thesis
    proof (cases b')
      case Nil
      with Cons ab that(3) show ?thesis by (auto simp: po_simps)
    next
      case (Cons y b'')
      with \<open>a' = x # a''\<close> ab that(4) [of s x a'' y b''] show ?thesis by (auto simp: po_simps)
    qed
  qed
qed

lemma po_from_unique_shorter:
  "length (unique_a (po_from a b)) \<le> length a"
  by (cases a b rule: po_cases) auto

lemma po_from_parts:
  "shared (po_from a b) @ unique_a (po_from a b) = a"
  "shared (po_from a b) @ unique_b (po_from a b) = b"
  by (cases a b rule: po_cases; simp)+

end
