(* ===== verification/Iterators.thy ===== *)
theory Iterators
  imports Paths
begin

section \<open>Iterators over nibbles and packed bytes\<close>

text \<open>
  The iterators of \<open>storage/src/node/path.rs\<close> (\<open>NibblesIterator\<close>) and of
  \<open>storage/src/path/packed.rs\<close> (\<open>PackedPathComponents\<close> over a \<open>PackedPathRef\<close>, \<open>PackedBytes\<close>). The
  contract of a double-ended iterator (the elements still to come form one sequence, which is
  consumed at either end) is the locale \<open>double_ended_iterator\<close>; each iterator of the source is
  an interpretation of it.
\<close>

subsection \<open>The contract of a double-ended iterator\<close>

text \<open>
  \<open>iter_collect n\<close> is at most \<open>n\<close> calls of \<open>next\<close>, stopping at the first \<open>None\<close>. A panic of a call is the
  outcome of the whole.
\<close>

type_synonym ('s, 'a) next_fn = "'s \<Rightarrow> ('a option \<times> 's) io_result"

fun iter_collect :: "('s, 'a) next_fn \<Rightarrow> nat \<Rightarrow> 's \<Rightarrow> ('a list \<times> 's) io_result" where
  "iter_collect nxt 0 it = Inr ([], it)"
| "iter_collect nxt (Suc n) it =
     rbind (nxt it) (\<lambda>(x, it').
       case x of
         None \<Rightarrow> Inr ([], it')
       | Some v \<Rightarrow> rbind (iter_collect nxt n it') (\<lambda>(vs, it''). Inr (v # vs, it'')))"

locale double_ended_iterator =
  fixes nxt :: "('s, 'a) next_fn"
    and nxt_back :: "('s, 'a) next_fn"
    and remaining :: "'s \<Rightarrow> 'a list"
    and wf_iter :: "'s \<Rightarrow> bool"
  assumes nxt_spec: "wf_iter it \<Longrightarrow> \<exists>it'. wf_iter it' \<and>
      (case remaining it of
         [] \<Rightarrow> nxt it = Inr (None, it') \<and> remaining it' = []
       | v # vs \<Rightarrow> nxt it = Inr (Some v, it') \<and> remaining it' = vs)"
    and nxt_back_spec: "wf_iter it \<Longrightarrow> \<exists>it'. wf_iter it' \<and>
      (case rev (remaining it) of
         [] \<Rightarrow> nxt_back it = Inr (None, it') \<and> remaining it' = []
       | v # vs \<Rightarrow> nxt_back it = Inr (Some v, it') \<and> remaining it' = rev vs)"
begin

lemma collect_take:
  assumes "wf_iter it"
  shows "\<exists>it'. iter_collect nxt n it = Inr (take n (remaining it), it') \<and> wf_iter it' \<and>
           remaining it' = drop n (remaining it)"
  using assms
proof (induction n arbitrary: it)
  case (Suc n)
  from nxt_spec [OF Suc.prems] obtain it' where it': "wf_iter it'"
    "case remaining it of
         [] \<Rightarrow> nxt it = Inr (None, it') \<and> remaining it' = []
       | v # vs \<Rightarrow> nxt it = Inr (Some v, it') \<and> remaining it' = vs" by blast
  with Suc.IH [OF it'(1)] show ?case by (auto split: list.splits)
qed simp

lemma collect_back_take:
  assumes "wf_iter it"
  shows "\<exists>it'. iter_collect nxt_back n it = Inr (take n (rev (remaining it)), it') \<and> wf_iter it' \<and>
           remaining it' = rev (drop n (rev (remaining it)))"
  using assms
proof (induction n arbitrary: it)
  case (Suc n)
  from nxt_back_spec [OF Suc.prems] obtain it' where it': "wf_iter it'"
    "case rev (remaining it) of
         [] \<Rightarrow> nxt_back it = Inr (None, it') \<and> remaining it' = []
       | v # vs \<Rightarrow> nxt_back it = Inr (Some v, it') \<and> remaining it' = rev vs" by blast
  with Suc.IH [OF it'(1)] show ?case by (auto split: list.splits)
qed simp

lemma collect_all:
  assumes "wf_iter it" and "length (remaining it) \<le> n"
  shows "\<exists>it'. iter_collect nxt n it = Inr (remaining it, it') \<and> remaining it' = []"
  using collect_take [OF assms(1), of n] assms(2) by auto

lemma collect_back_all:
  assumes "wf_iter it" and "length (remaining it) \<le> n"
  shows "\<exists>it'. iter_collect nxt_back n it = Inr (rev (remaining it), it') \<and> remaining it' = []"
  using collect_back_take [OF assms(1), of n] assms(2) by auto

lemma collect_ends_meet:
  assumes "wf_iter it" and "n + m = length (remaining it)"
  shows "\<exists>it' it''. iter_collect nxt n it = Inr (take n (remaining it), it') \<and>
           iter_collect nxt_back m it' = Inr (rev (drop n (remaining it)), it'') \<and>
           remaining it'' = []"
proof -
  obtain it' where it': "iter_collect nxt n it = Inr (take n (remaining it), it')" "wf_iter it'"
    "remaining it' = drop n (remaining it)"
    using collect_take [OF assms(1)] by blast
  with assms(2) collect_back_all [of it' m] show ?thesis by auto
qed

end

subsection \<open>Nibbles of a byte slice\<close>

record NibblesIterator =
  ni_data :: "u8 list"
  ni_head :: nat
  ni_tail :: nat

definition NIBBLES :: "u8 list" where
  "NIBBLES = [0, 1, 2, 3, 4, 5, 6, 7, 8, 9, 10, 11, 12, 13, 14, 15]"

definition ni_new :: "u8 list \<Rightarrow> NibblesIterator" where
  "ni_new data = \<lparr>ni_data = data, ni_head = 0, ni_tail = 2 * length data\<rparr>"

definition ni_is_empty :: "NibblesIterator \<Rightarrow> bool" where
  "ni_is_empty it = (ni_head it = ni_tail it)"

definition ni_next :: "(NibblesIterator, u8) next_fn" where
  "ni_next it =
     (if ni_is_empty it then Inr (None, it)
      else rbind (index_slice (ni_data it) (ni_head it div 2)) (\<lambda>byte.
           rbind (if even (ni_head it)
                  then index_slice NIBBLES (unat (drop_bit 4 byte))
                  else index_slice NIBBLES (unat (byte AND 0xf))) (\<lambda>result.
           Inr (Some result, it\<lparr>ni_head := ni_head it + 1\<rparr>))))"

definition ni_next_back :: "(NibblesIterator, u8) next_fn" where
  "ni_next_back it =
     (if ni_is_empty it then Inr (None, it)
      else rbind (if even (ni_tail it)
                  then if ni_tail it = 0 then Inl Panic
                       else rbind (index_slice (ni_data it) (ni_tail it div 2 - 1)) (\<lambda>byte.
                            index_slice NIBBLES (unat (byte AND 0xf)))
                  else rbind (index_slice (ni_data it) (ni_tail it div 2)) (\<lambda>byte.
                       index_slice NIBBLES (unat (drop_bit 4 byte)))) (\<lambda>result.
           Inr (Some result, it\<lparr>ni_tail := ni_tail it - 1\<rparr>)))"

definition ni_nth :: "NibblesIterator \<Rightarrow> nat \<Rightarrow> (u8 option \<times> NibblesIterator) io_result" where
  "ni_nth it n = ni_next (it\<lparr>ni_head := ni_head it + min n (ni_tail it - ni_head it)\<rparr>)"

definition ni_nth_back :: "NibblesIterator \<Rightarrow> nat \<Rightarrow> (u8 option \<times> NibblesIterator) io_result" where
  "ni_nth_back it n = ni_next_back (it\<lparr>ni_tail := ni_tail it - min n (ni_tail it - ni_head it)\<rparr>)"

definition ni_size_hint :: "NibblesIterator \<Rightarrow> nat \<times> nat option" where
  "ni_size_hint it = (let remaining = ni_tail it - ni_head it in (remaining, Some remaining))"

text \<open>The nibbles still to come, and the bounds every method keeps.\<close>

definition ni_remaining :: "NibblesIterator \<Rightarrow> u8 list" where
  "ni_remaining it = take (ni_tail it - ni_head it) (drop (ni_head it) (nibbles (ni_data it)))"

definition ni_wf :: "NibblesIterator \<Rightarrow> bool" where
  "ni_wf it = (ni_head it \<le> ni_tail it \<and> ni_tail it \<le> 2 * length (ni_data it))"

lemma NIBBLES_nth: "i < 16 \<Longrightarrow> index_slice NIBBLES i = Inr (word_of_nat i)"
  by (auto simp: NIBBLES_def index_slice_def less_Suc_eq numeral_eq_Suc)

lemma NIBBLES_unat: "b < 16 \<Longrightarrow> index_slice NIBBLES (unat b) = Inr b"
  by (subst NIBBLES_nth) (simp_all add: word_less_nat_alt)

lemmas NIBBLES_halves [simp] =
  NIBBLES_unat [OF low_nibble_less] NIBBLES_unat [OF high_nibble_less]

lemma ni_wf_new [simp]: "ni_wf (ni_new data)"
  by (simp add: ni_wf_def ni_new_def)

lemma ni_remaining_new [simp]: "ni_remaining (ni_new data) = nibbles data"
  by (simp add: ni_remaining_def ni_new_def)

lemma ni_remaining_Nil: "ni_wf it \<Longrightarrow> ni_remaining it = [] \<longleftrightarrow> ni_is_empty it"
  by (auto simp: ni_wf_def ni_remaining_def ni_is_empty_def)

lemma ni_remaining_first:
  assumes "ni_wf it" "\<not> ni_is_empty it"
  shows "ni_remaining it =
    nibbles (ni_data it) ! ni_head it # ni_remaining (it\<lparr>ni_head := ni_head it + 1\<rparr>)"
  using assms
  by (auto simp: ni_wf_def ni_remaining_def ni_is_empty_def take_Cons' simp flip: Cons_nth_drop_Suc)

lemma ni_remaining_last:
  assumes "ni_wf it" "\<not> ni_is_empty it"
  shows "ni_remaining it =
    ni_remaining (it\<lparr>ni_tail := ni_tail it - 1\<rparr>) @ [nibbles (ni_data it) ! (ni_tail it - 1)]"
proof -
  define n where "n = ni_tail it - 1 - ni_head it"
  have n: "ni_tail it - ni_head it = Suc n" "ni_head it + n = ni_tail it - 1"
    "n < length (drop (ni_head it) (nibbles (ni_data it)))"
    using assms by (auto simp: ni_wf_def ni_is_empty_def n_def)
  then show ?thesis
    by (simp add: ni_remaining_def take_Suc_conv_app_nth) (simp add: n_def)
qed

interpretation nibbles_iter: double_ended_iterator ni_next ni_next_back ni_remaining ni_wf
proof
  fix it :: NibblesIterator assume wf: "ni_wf it"
  show "\<exists>it'. ni_wf it' \<and>
      (case ni_remaining it of
         [] \<Rightarrow> ni_next it = Inr (None, it') \<and> ni_remaining it' = []
       | v # vs \<Rightarrow> ni_next it = Inr (Some v, it') \<and> ni_remaining it' = vs)"
  proof (cases "ni_is_empty it")
    case True
    with wf have "ni_remaining it = []" by (simp add: ni_remaining_Nil)
    with wf True show ?thesis by (intro exI [of _ it]) (simp add: ni_next_def)
  next
    case False
    with wf have "ni_next it = Inr (Some (nibbles (ni_data it) ! ni_head it), it\<lparr>ni_head := ni_head it + 1\<rparr>)"
      by (auto simp: ni_next_def ni_wf_def ni_is_empty_def nibbles_nth)
    with wf False show ?thesis
      by (intro exI [of _ "it\<lparr>ni_head := ni_head it + 1\<rparr>"])
        (auto simp: ni_remaining_first, auto simp: ni_wf_def ni_is_empty_def)
  qed
  show "\<exists>it'. ni_wf it' \<and>
      (case rev (ni_remaining it) of
         [] \<Rightarrow> ni_next_back it = Inr (None, it') \<and> ni_remaining it' = []
       | v # vs \<Rightarrow> ni_next_back it = Inr (Some v, it') \<and> ni_remaining it' = rev vs)"
  proof (cases "ni_is_empty it")
    case True
    with wf have "ni_remaining it = []" by (simp add: ni_remaining_Nil)
    with wf True show ?thesis by (intro exI [of _ it]) (simp add: ni_next_back_def)
  next
    case False
    have "ni_tail it > 0" using wf False by (auto simp: ni_wf_def ni_is_empty_def)
    moreover from this have "(ni_tail it - 1) div 2 = (if even (ni_tail it) then ni_tail it div 2 - 1 else ni_tail it div 2)"
      by presburger
    ultimately have "ni_next_back it = Inr (Some (nibbles (ni_data it) ! (ni_tail it - 1)), it\<lparr>ni_tail := ni_tail it - 1\<rparr>)"
      using wf False by (auto simp: ni_next_back_def ni_wf_def ni_is_empty_def nibbles_nth)
    with wf False show ?thesis
      by (intro exI [of _ "it\<lparr>ni_tail := ni_tail it - 1\<rparr>"])
        (auto simp: ni_remaining_last, auto simp: ni_wf_def ni_is_empty_def)
  qed
qed

lemma ni_size_hint_remaining:
  "ni_wf it \<Longrightarrow> ni_size_hint it = (length (ni_remaining it), Some (length (ni_remaining it)))"
  by (auto simp: ni_size_hint_def ni_remaining_def ni_wf_def Let_def)

subsection \<open>Packed paths\<close>

text \<open>
  \<open>PackedPathRef\<close>: bytes holding two components each, with an optional odd component at either
  end, so that a packed path can be split anywhere without copying.
\<close>

record PackedPathRef =
  pp_prefix :: "pc option"
  pp_middle :: "u8 list"
  pp_suffix :: "pc option"

definition pp_default :: PackedPathRef where
  "pp_default = \<lparr>pp_prefix = None, pp_middle = [], pp_suffix = None\<rparr>"

definition path_from_packed_bytes :: "u8 list \<Rightarrow> PackedPathRef" where
  "path_from_packed_bytes bytes = \<lparr>pp_prefix = None, pp_middle = bytes, pp_suffix = None\<rparr>"

definition pp_len :: "PackedPathRef \<Rightarrow> nat" where
  "pp_len p = length (pp_middle p) * 2 + of_bool (pp_prefix p \<noteq> None) + of_bool (pp_suffix p \<noteq> None)"

fun push_pairs :: "u8 list \<Rightarrow> pc list" where
  "push_pairs [] = []"
| "push_pairs (byte # bytes) = (let (upper, lower) = new_pair byte in upper # lower # push_pairs bytes)"

definition as_component_slice :: "PackedPathRef \<Rightarrow> pc list" where
  "as_component_slice p =
     (if pp_len p = 0 then []
      else (case pp_prefix p of None \<Rightarrow> [] | Some c \<Rightarrow> [c]) @ push_pairs (pp_middle p) @
           (case pp_suffix p of None \<Rightarrow> [] | Some c \<Rightarrow> [c]))"

definition pp_split_at :: "PackedPathRef \<Rightarrow> nat \<Rightarrow> (PackedPathRef \<times> PackedPathRef) io_result" where
  "pp_split_at p mid =
     (if \<not> mid \<le> pp_len p then Inl Panic
      else if of_bool (pp_prefix p \<noteq> None) \<le> mid then
        let mid' = mid - of_bool (pp_prefix p \<noteq> None);
            a_middle = take (mid' div 2) (pp_middle p);
            b_middle = drop (mid' div 2) (pp_middle p)
        in if \<not> mid' div 2 \<le> length (pp_middle p) then Inl Panic
           else if even mid' then
             Inr (\<lparr>pp_prefix = pp_prefix p, pp_middle = a_middle, pp_suffix = None\<rparr>,
                  \<lparr>pp_prefix = None, pp_middle = b_middle, pp_suffix = pp_suffix p\<rparr>)
           else (case Prelude.split_first b_middle of
                   None \<Rightarrow> Inr (p, pp_default)
                 | Some (middle_byte, b_rest) \<Rightarrow>
                     let (upper, lower) = new_pair middle_byte
                     in Inr (\<lparr>pp_prefix = pp_prefix p, pp_middle = a_middle, pp_suffix = Some upper\<rparr>,
                             \<lparr>pp_prefix = Some lower, pp_middle = b_rest, pp_suffix = pp_suffix p\<rparr>))
      else Inr (pp_default, p))"

definition pp_next :: "(PackedPathRef, pc) next_fn" where
  "pp_next p =
     (case pp_prefix p of
        Some c \<Rightarrow> Inr (Some c, p\<lparr>pp_prefix := None\<rparr>)
      | None \<Rightarrow>
          (case Prelude.split_first (pp_middle p) of
             Some (byte, rest) \<Rightarrow>
               let (upper, lower) = new_pair byte
               in Inr (Some upper, p\<lparr>pp_prefix := Some lower, pp_middle := rest\<rparr>)
           | None \<Rightarrow> Inr (pp_suffix p, p\<lparr>pp_suffix := None\<rparr>)))"

definition pp_next_back :: "(PackedPathRef, pc) next_fn" where
  "pp_next_back p =
     (case pp_suffix p of
        Some c \<Rightarrow> Inr (Some c, p\<lparr>pp_suffix := None\<rparr>)
      | None \<Rightarrow>
          (if pp_middle p \<noteq> [] then
             let (upper, lower) = new_pair (last (pp_middle p))
             in Inr (Some lower, p\<lparr>pp_suffix := Some upper, pp_middle := butlast (pp_middle p)\<rparr>)
           else Inr (pp_prefix p, p\<lparr>pp_prefix := None\<rparr>)))"

definition pp_split_first :: "PackedPathRef \<Rightarrow> (pc \<times> PackedPathRef) option io_result" where
  "pp_split_first p =
     rbind (pp_next p) (\<lambda>(first, it). Inr (map_option (\<lambda>c. (c, it)) first))"

lemma length_push_pairs [simp]: "length (push_pairs bs) = 2 * length bs"
  by (induction bs) (auto split: prod.splits)

lemma push_pairs_append [simp]: "push_pairs (as @ bs) = push_pairs as @ push_pairs bs"
  by (induction as) (auto split: prod.splits)

lemma push_pairs_take: "push_pairs (take n bs) = take (2 * n) (push_pairs bs)"
  by (induction bs arbitrary: n) (auto split: prod.splits simp: take_Cons' diff_mult_distrib2 numeral_2_eq_2)

lemma push_pairs_drop: "push_pairs (drop n bs) = drop (2 * n) (push_pairs bs)"
  by (induction bs arbitrary: n) (auto split: prod.splits simp: drop_Cons' diff_mult_distrib2 numeral_2_eq_2)

lemma as_component_slice_unfold:
  "as_component_slice p = (case pp_prefix p of None \<Rightarrow> [] | Some c \<Rightarrow> [c]) @ push_pairs (pp_middle p) @
     (case pp_suffix p of None \<Rightarrow> [] | Some c \<Rightarrow> [c])"
  by (auto simp: as_component_slice_def pp_len_def split: option.splits)

lemma length_as_component_slice [simp]: "length (as_component_slice p) = pp_len p"
  by (auto simp: as_component_slice_unfold pp_len_def split: option.splits)

lemma as_component_slice_default [simp]: "as_component_slice pp_default = []"
  by (simp add: as_component_slice_unfold pp_default_def)

interpretation packed_iter:
  double_ended_iterator pp_next pp_next_back as_component_slice "\<lambda>_. True"
proof
  fix p :: PackedPathRef
  show "\<exists>p'. True \<and>
      (case as_component_slice p of
         [] \<Rightarrow> pp_next p = Inr (None, p') \<and> as_component_slice p' = []
       | v # vs \<Rightarrow> pp_next p = Inr (Some v, p') \<and> as_component_slice p' = vs)"
    by (cases "pp_prefix p"; cases "pp_middle p"; cases "pp_suffix p")
      (auto simp: pp_next_def as_component_slice_unfold split: prod.splits)
  show "\<exists>p'. True \<and>
      (case rev (as_component_slice p) of
         [] \<Rightarrow> pp_next_back p = Inr (None, p') \<and> as_component_slice p' = []
       | v # vs \<Rightarrow> pp_next_back p = Inr (Some v, p') \<and> as_component_slice p' = rev vs)"
    by (cases "pp_prefix p"; cases "pp_middle p" rule: rev_cases; cases "pp_suffix p")
      (auto simp: pp_next_back_def as_component_slice_unfold split: prod.splits)
qed

lemma pp_split_at_prefix:
  assumes "of_bool (pp_prefix p \<noteq> None) \<le> mid" "mid \<le> pp_len p"
  shows "\<exists>a b. pp_split_at p mid = Inr (a, b) \<and>
           as_component_slice a = take mid (as_component_slice p) \<and>
           as_component_slice b = drop mid (as_component_slice p)"
proof -
  define m where "m = mid - of_bool (pp_prefix p \<noteq> None)"
  have mid: "mid = of_bool (pp_prefix p \<noteq> None) + m" using assms(1) by (simp add: m_def)
  have le: "m \<le> 2 * length (pp_middle p) + of_bool (pp_suffix p \<noteq> None)"
    using assms(2) mid by (simp add: pp_len_def)
  have half: "m div 2 \<le> length (pp_middle p)" using le by (cases "pp_suffix p") auto
  show ?thesis
  proof (cases "even m")
    case True
    then have "2 * (m div 2) = m" by simp
    moreover from True le have "m \<le> 2 * length (pp_middle p)" by (cases "pp_suffix p") auto
    ultimately show ?thesis using assms half True mid
      by (auto simp: pp_split_at_def m_def [symmetric] Let_def as_component_slice_unfold
          push_pairs_take push_pairs_drop split: option.splits)
  next
    case False
    then obtain h where two: "m = Suc (2 * h)" by (auto elim: oddE)
    then have half: "m div 2 = h" "h \<le> length (pp_middle p)" using half by auto
    show ?thesis
    proof (cases "drop h (pp_middle p)")
      case Nil
      then have "mid = pp_len p" using le mid half two
        by (cases "pp_suffix p") (auto simp: pp_len_def mult.commute)
      with assms half False Nil mid show ?thesis
        by (auto simp: pp_split_at_def m_def [symmetric] Let_def)
    next
      case (Cons byte rest)
      obtain upper lower where pair: "new_pair byte = (upper, lower)" by fastforce
      have middle: "pp_middle p = take h (pp_middle p) @ byte # rest"
        using Cons by (metis append_take_drop_id)
      have "push_pairs (pp_middle p) = push_pairs (take h (pp_middle p)) @ upper # lower # push_pairs rest"
        by (subst middle) (simp add: pair)
      with assms half False Cons mid pair show ?thesis
        by (auto simp: pp_split_at_def m_def [symmetric] Let_def two as_component_slice_unfold
            split: option.splits)
    qed
  qed
qed

lemma pp_split_at_spec:
  assumes "mid \<le> pp_len p"
  shows "\<exists>a b. pp_split_at p mid = Inr (a, b) \<and>
           as_component_slice a = take mid (as_component_slice p) \<and>
           as_component_slice b = drop mid (as_component_slice p)"
proof (cases "of_bool (pp_prefix p \<noteq> None) \<le> mid")
  case True
  then show ?thesis using assms pp_split_at_prefix by blast
next
  case False
  then have "mid = 0" by (auto simp: of_bool_def split: if_splits)
  with False show ?thesis by (simp add: pp_split_at_def)
qed

subsection \<open>Packing components to bytes\<close>

text \<open>
  \<open>PackedBytes\<close> takes two components of an inner iterator per byte; a component without a
  partner is joined with zero.
\<close>

definition pb_next :: "('s, pc) next_fn \<Rightarrow> ('s, u8) next_fn" where
  "pb_next nxt it =
     rbind (nxt it) (\<lambda>(hi, it').
       case hi of
         None \<Rightarrow> Inr (None, it')
       | Some hi \<Rightarrow> rbind (nxt it') (\<lambda>(lo, it'').
           Inr (Some (join hi (case lo of None \<Rightarrow> pc_ALL ! 0 | Some lo \<Rightarrow> lo)), it'')))"

definition pb_next_back :: "('s, pc) next_fn \<Rightarrow> ('s, u8) next_fn" where
  "pb_next_back nxt_back it =
     rbind (nxt_back it) (\<lambda>(lo, it').
       case lo of
         None \<Rightarrow> Inr (None, it')
       | Some lo \<Rightarrow> rbind (nxt_back it') (\<lambda>(hi, it'').
           Inr (Some (join (case hi of None \<Rightarrow> pc_ALL ! 0 | Some hi \<Rightarrow> hi) lo), it'')))"

definition pb_size_hint :: "nat \<times> nat option \<Rightarrow> nat \<times> nat option" where
  "pb_size_hint hint = ((fst hint + 1) div 2, map_option (\<lambda>u. (u + 1) div 2) (snd hint))"

fun pack :: "pc list \<Rightarrow> u8 list" where
  "pack (hi # lo # cs) = join hi lo # pack cs"
| "pack [hi] = [join hi 0]"
| "pack [] = []"

lemma length_pack: "length (pack cs) = (length cs + 1) div 2"
  by (induction cs rule: pack.induct) auto

lemma pack_eq_Nil [simp]: "pack cs = [] \<longleftrightarrow> cs = []"
  by (cases cs rule: pack.cases) auto

lemma pack_push_pairs [simp]: "pack (push_pairs bs) = bs"
  by (induction bs) (auto split: prod.splits)

lemma pc_ALL_0 [simp]: "pc_ALL ! 0 = 0"
  by (simp add: pc_ALL_def)

locale pc_iterator = double_ended_iterator nxt nxt_back remaining wf_iter
  for nxt :: "('s, pc) next_fn" and nxt_back remaining wf_iter
begin

lemma pb_next_spec:
  assumes "wf_iter it"
  shows "\<exists>it'. wf_iter it' \<and> remaining it' = drop 2 (remaining it) \<and>
           pb_next nxt it = Inr (case pack (remaining it) of [] \<Rightarrow> None | b # _ \<Rightarrow> Some b, it')"
proof -
  from nxt_spec [OF assms] obtain it1 where it1: "wf_iter it1"
    "case remaining it of
         [] \<Rightarrow> nxt it = Inr (None, it1) \<and> remaining it1 = []
       | v # vs \<Rightarrow> nxt it = Inr (Some v, it1) \<and> remaining it1 = vs" by blast
  from nxt_spec [OF it1(1)] obtain it2 where it2: "wf_iter it2"
    "case remaining it1 of
         [] \<Rightarrow> nxt it1 = Inr (None, it2) \<and> remaining it2 = []
       | v # vs \<Rightarrow> nxt it1 = Inr (Some v, it2) \<and> remaining it2 = vs" by blast
  show ?thesis
    by (cases "remaining it" rule: pack.cases) (use it1 it2 in \<open>auto simp: pb_next_def\<close>)
qed

lemma pack_drop: "drop (Suc 0) (pack cs) = pack (drop 2 cs)"
  by (cases cs rule: pack.cases) auto

lemma pb_collect_all:
  assumes "wf_iter it" and "length (pack (remaining it)) \<le> n"
  shows "\<exists>it'. iter_collect (pb_next nxt) n it = Inr (pack (remaining it), it') \<and> remaining it' = []"
  using assms
proof (induction n arbitrary: it)
  case (Suc n)
  obtain it' where it': "wf_iter it'" "remaining it' = drop 2 (remaining it)"
    "pb_next nxt it = Inr (case pack (remaining it) of [] \<Rightarrow> None | b # _ \<Rightarrow> Some b, it')"
    using pb_next_spec [OF Suc.prems(1)] by blast
  have "pack (remaining it') = drop 1 (pack (remaining it))" using it'(2) by (simp add: pack_drop)
  with Suc.IH [OF it'(1)] Suc.prems(2) it'(2,3) show ?case
    by (cases "remaining it" rule: pack.cases) auto
qed auto

lemma pb_next_back_spec:
  assumes "wf_iter it"
  shows "\<exists>it'. wf_iter it' \<and> remaining it' = rev (drop 2 (rev (remaining it))) \<and>
           pb_next_back nxt_back it =
             Inr (case rev (remaining it) of
                    [] \<Rightarrow> None
                  | [lo] \<Rightarrow> Some (join 0 lo)
                  | lo # hi # _ \<Rightarrow> Some (join hi lo), it')"
proof -
  from nxt_back_spec [OF assms] obtain it1 where it1: "wf_iter it1"
    "case rev (remaining it) of
         [] \<Rightarrow> nxt_back it = Inr (None, it1) \<and> remaining it1 = []
       | v # vs \<Rightarrow> nxt_back it = Inr (Some v, it1) \<and> remaining it1 = rev vs" by blast
  from nxt_back_spec [OF it1(1)] obtain it2 where it2: "wf_iter it2"
    "case rev (remaining it1) of
         [] \<Rightarrow> nxt_back it1 = Inr (None, it2) \<and> remaining it2 = []
       | v # vs \<Rightarrow> nxt_back it1 = Inr (Some v, it2) \<and> remaining it2 = rev vs" by blast
  show ?thesis
    by (cases "rev (remaining it)" rule: pack.cases) (use it1 it2 in \<open>auto simp: pb_next_back_def\<close>)
qed

end

interpretation packed_pcs: pc_iterator pp_next pp_next_back as_component_slice "\<lambda>_. True"
  by unfold_locales

lemma pack_snoc2: "even (length cs) \<Longrightarrow> pack (cs @ [hi, lo]) = pack cs @ [join hi lo]"
  by (induction cs rule: pack.induct) auto

lemma even_rev_cases:
  assumes "even (length cs)"
  obtains "cs = []" | ds hi lo where "cs = ds @ [hi, lo]" "even (length ds)"
proof (cases cs rule: rev_cases)
  case (snoc es lo)
  with assms that show ?thesis by (cases es rule: rev_cases) auto
qed (use that in blast)

text \<open>
  On a path with an even number of components both directions of \<open>PackedBytes\<close> walk the same
  byte sequence.
\<close>

interpretation packed_bytes: double_ended_iterator
  "pb_next pp_next" "pb_next_back pp_next_back" "\<lambda>p. pack (as_component_slice p)" "\<lambda>p. even (pp_len p)"
proof
  fix p :: PackedPathRef assume "even (pp_len p)"
  then have ev: "even (length (as_component_slice p))" by simp
  obtain q where q: "as_component_slice q = drop 2 (as_component_slice p)"
    "pb_next pp_next p = Inr (case pack (as_component_slice p) of [] \<Rightarrow> None | b # _ \<Rightarrow> Some b, q)"
    using packed_pcs.pb_next_spec [of p] by blast
  from arg_cong [OF q(1), of length] ev have "even (pp_len q)" by simp
  with q ev show "\<exists>q. even (pp_len q) \<and>
      (case pack (as_component_slice p) of
         [] \<Rightarrow> pb_next pp_next p = Inr (None, q) \<and> pack (as_component_slice q) = []
       | v # vs \<Rightarrow> pb_next pp_next p = Inr (Some v, q) \<and> pack (as_component_slice q) = vs)"
    by (cases "as_component_slice p" rule: pack.cases) auto
  obtain r where r: "as_component_slice r = rev (drop 2 (rev (as_component_slice p)))"
    "pb_next_back pp_next_back p = Inr (case rev (as_component_slice p) of
        [] \<Rightarrow> None | [lo] \<Rightarrow> Some (join 0 lo) | lo # hi # _ \<Rightarrow> Some (join hi lo), r)"
    using packed_pcs.pb_next_back_spec [of p] by blast
  from arg_cong [OF r(1), of length] ev have "even (pp_len r)" by simp
  moreover from ev r have "case rev (pack (as_component_slice p)) of
         [] \<Rightarrow> pb_next_back pp_next_back p = Inr (None, r) \<and> pack (as_component_slice r) = []
       | v # vs \<Rightarrow> pb_next_back pp_next_back p = Inr (Some v, r) \<and> pack (as_component_slice r) = rev vs"
    by (cases rule: even_rev_cases) (auto simp: pack_snoc2)
  ultimately show "\<exists>q. even (pp_len q) \<and>
      (case rev (pack (as_component_slice p)) of
         [] \<Rightarrow> pb_next_back pp_next_back p = Inr (None, q) \<and> pack (as_component_slice q) = []
       | v # vs \<Rightarrow> pb_next_back pp_next_back p = Inr (Some v, q) \<and> pack (as_component_slice q) = rev vs)"
    by blast
qed

end
