(* ===== verification/Nodes.thy ===== *)
theory Nodes
  imports Paths
begin

section \<open>Nodes, children and persistence states\<close>

text \<open>
  The data of the trie: \<open>Node\<close>, \<open>BranchNode\<close>, \<open>LeafNode\<close> and \<open>Child\<close> (\<open>storage/src/node/mod.rs\<close>,
  \<open>branch.rs\<close>, \<open>leaf.rs\<close>), the sixteen child slots \<open>Children\<close> (\<open>children.rs\<close>) and the
  \<open>MaybePersistedNode\<close> that tells whether a hashed node is only in memory, has an address
  assigned, or is on disk (\<open>persist.rs\<close>).

  A \<open>MaybePersistedNode\<close> is a shared cell in the source; here it is the value the cell holds, so the
  model is that of one thread between two changes of the cell. A \<open>Children\<close> array, which the crate
  \<open>arity-arrays\<close> provides, is a function from path components; \<open>pc_ALL\<close> gives its iteration
  order.
\<close>

subsection \<open>Child slots\<close>

type_synonym 'a children = "pc \<Rightarrow> 'a"

definition children_new :: "'a option children" where
  "children_new = (\<lambda>_. None)"

definition children_take :: "'a option children \<Rightarrow> pc \<Rightarrow> 'a option \<times> 'a option children" where
  "children_take cs i = (cs i, cs(i := None))"

definition children_replace :: "'a children \<Rightarrow> pc \<Rightarrow> 'a \<Rightarrow> 'a \<times> 'a children" where
  "children_replace cs i v = (cs i, cs(i := v))"

definition children_map :: "(pc \<Rightarrow> 'a \<Rightarrow> 'b) \<Rightarrow> 'a children \<Rightarrow> 'b children" where
  "children_map f cs = (\<lambda>i. f i (cs i))"

definition children_iter :: "'a children \<Rightarrow> (pc \<times> 'a) list" where
  "children_iter cs = map (\<lambda>i. (i, cs i)) pc_ALL"

definition iter_present :: "'a option children \<Rightarrow> (pc \<times> 'a) list" where
  "iter_present cs = List.map_filter (\<lambda>(i, opt). map_option (\<lambda>v. (i, v)) opt) (children_iter cs)"

definition children_count :: "'a option children \<Rightarrow> nat" where
  "children_count cs = length (filter (\<lambda>(_, c). c \<noteq> None) (children_iter cs))"

definition take_only_child :: "'a option children \<Rightarrow> (pc \<times> 'a) option \<times> 'a option children" where
  "take_only_child cs =
     (case iter_present cs of
        [] \<Rightarrow> (None, cs)
      | (idx, _) # rest \<Rightarrow>
          (if rest \<noteq> [] then (None, cs)
           else let (child, cs') = children_take cs idx
                in (map_option (\<lambda>child. (idx, child)) child, cs')))"

fun children_merge_from ::
  "pc list \<Rightarrow> 'a children \<Rightarrow> 'b children \<Rightarrow> (pc \<Rightarrow> 'a \<Rightarrow> 'b \<Rightarrow> 'e + 'v option) \<Rightarrow>
   'v option children \<Rightarrow> 'e + 'v option children" where
  "children_merge_from [] a b merge out = Inr out"
| "children_merge_from (i # ps) a b merge out =
     rbind (merge i (a i) (b i)) (\<lambda>v. children_merge_from ps a b merge (out(i := v)))"

definition children_merge ::
  "'a children \<Rightarrow> 'b children \<Rightarrow> (pc \<Rightarrow> 'a \<Rightarrow> 'b \<Rightarrow> 'e + 'v option) \<Rightarrow> 'e + 'v option children" where
  "children_merge a b merge = children_merge_from pc_ALL a b merge children_new"

lemma children_new_apply [simp]: "children_new i = None"
  by (simp add: children_new_def)

lemma set_iter_present [simp]: "(i, v) \<in> set (iter_present cs) \<longleftrightarrow> cs i = Some v"
  by (auto simp: iter_present_def children_iter_def map_filter_def image_iff)

lemma map_fst_iter_present: "map fst (iter_present cs) = filter (\<lambda>i. cs i \<noteq> None) pc_ALL"
proof -
  have "map fst (List.map_filter (\<lambda>(i, opt). map_option (\<lambda>v. (i, v)) opt) (map (\<lambda>i. (i, cs i)) ps)) =
    filter (\<lambda>i. cs i \<noteq> None) ps" for "ps"
    by (induction "ps") (auto simp: map_filter_def)
  then show ?thesis by (simp add: iter_present_def children_iter_def)
qed

lemma distinct_iter_present: "distinct (map fst (iter_present cs))"
  by (simp add: map_fst_iter_present)

lemma children_count_card: "children_count cs = card {i. cs i \<noteq> None}"
proof -
  have "children_count cs = length (filter (\<lambda>i. cs i \<noteq> None) pc_ALL)"
    by (simp add: children_count_def children_iter_def filter_map o_def)
  also have "\<dots> = card (set (filter (\<lambda>i. cs i \<noteq> None) pc_ALL))"
    by (rule distinct_card [symmetric]) simp
  finally show ?thesis by simp
qed

lemma length_iter_present: "length (iter_present cs) = children_count cs"
proof -
  have "length (iter_present cs) = length (map fst (iter_present cs))" by simp
  also have "\<dots> = children_count cs"
    by (simp add: map_fst_iter_present children_count_def children_iter_def filter_map o_def)
  finally show ?thesis .
qed

lemma children_merge_from_ok:
  assumes "\<And>i. i \<in> set ps \<Longrightarrow> merge i (a i) (b i) = Inr (f i)"
  shows "children_merge_from ps a b merge out = Inr (\<lambda>i. if i \<in> set ps then f i else out i)"
  using assms
proof (induction "ps" arbitrary: out)
  case (Cons i "ps")
  then show ?case by (auto simp: fun_eq_iff)
qed simp

lemma children_merge_ok:
  "(\<And>i. merge i (a i) (b i) = Inr (f i)) \<Longrightarrow> children_merge a b merge = Inr f"
  by (simp add: children_merge_def children_merge_from_ok)

subsection \<open>Hashes and addresses\<close>

type_synonym trie_hash = "u8 list"
type_synonym laddr = u64
type_synonym val = "u8 list"

datatype hash_type = Hash trie_hash | Rlp "u8 list"

datatype node_hash_algorithm = MerkleDB | Ethereum

fun is_ethereum :: "node_hash_algorithm \<Rightarrow> bool" where
  "is_ethereum Ethereum = True"
| "is_ethereum MerkleDB = False"

definition LinearAddress_new :: "u64 \<Rightarrow> laddr option" where
  "LinearAddress_new addr = (if addr = 0 then None else Some addr)"

subsection \<open>Nodes\<close>

datatype node =
    Branch path "val option" "pc \<Rightarrow> child option"
  | Leaf path val
and child =
    ChildNode node
  | AddressWithHash laddr hash_type
  | ChildMaybePersisted maybe_persisted hash_type
and maybe_persisted =
    Unpersisted node
  | Allocated laddr node
  | Persisted laddr

type_synonym reader = "laddr \<Rightarrow> node io_result"

fun partial_path :: "node \<Rightarrow> path" where
  "partial_path (Branch p v cs) = p"
| "partial_path (Leaf p v) = p"

fun update_partial_path :: "node \<Rightarrow> path \<Rightarrow> node" where
  "update_partial_path (Branch p v cs) q = Branch q v cs"
| "update_partial_path (Leaf p v) q = Leaf q v"

fun update_value :: "node \<Rightarrow> val \<Rightarrow> node" where
  "update_value (Branch p v cs) w = Branch p (Some w) cs"
| "update_value (Leaf p v) w = Leaf p w"

fun node_value :: "node \<Rightarrow> val option" where
  "node_value (Branch p v cs) = v"
| "node_value (Leaf p v) = Some v"

fun branch_from_leaf :: "path \<Rightarrow> val \<Rightarrow> node" where
  "branch_from_leaf p v = Branch p (Some v) children_new"

subsection \<open>Persistence states\<close>

text \<open>The reader argument stands for the \<open>NodeReader\<close> the methods receive.\<close>

fun as_shared_node :: "maybe_persisted \<Rightarrow> reader \<Rightarrow> node io_result" where
  "as_shared_node (Unpersisted n) rd = Inr n"
| "as_shared_node (Allocated a n) rd = Inr n"
| "as_shared_node (Persisted a) rd = rd a"

fun as_linear_address :: "maybe_persisted \<Rightarrow> laddr option" where
  "as_linear_address (Unpersisted n) = None"
| "as_linear_address (Allocated a n) = Some a"
| "as_linear_address (Persisted a) = Some a"

fun persisted_address :: "maybe_persisted \<Rightarrow> laddr option" where
  "persisted_address (Persisted a) = Some a"
| "persisted_address (Unpersisted n) = None"
| "persisted_address (Allocated a n) = None"

fun unpersisted :: "maybe_persisted \<Rightarrow> maybe_persisted option" where
  "unpersisted (Persisted a) = None"
| "unpersisted m = Some m"

definition persist_at :: "maybe_persisted \<Rightarrow> laddr \<Rightarrow> maybe_persisted" where
  "persist_at m a = Persisted a"

fun allocate_at :: "maybe_persisted \<Rightarrow> laddr \<Rightarrow> maybe_persisted io_result" where
  "allocate_at (Unpersisted n) a = Inr (Allocated a n)"
| "allocate_at (Allocated b n) a = Inr (Allocated a n)"
| "allocate_at (Persisted b) a = Inl Panic"

fun allocated_info :: "maybe_persisted \<Rightarrow> (laddr \<times> node) option" where
  "allocated_info (Allocated a n) = Some (a, n)"
| "allocated_info m = None"

subsection \<open>Children of a branch\<close>

fun child_persisted_address :: "child \<Rightarrow> laddr option" where
  "child_persisted_address (AddressWithHash a h) = Some a"
| "child_persisted_address (ChildMaybePersisted m h) = as_linear_address m"
| "child_persisted_address (ChildNode n) = None"

fun child_unpersisted :: "child \<Rightarrow> maybe_persisted option" where
  "child_unpersisted (ChildMaybePersisted m h) = unpersisted m"
| "child_unpersisted c = None"

fun child_hash :: "child \<Rightarrow> hash_type option" where
  "child_hash (AddressWithHash a h) = Some h"
| "child_hash (ChildMaybePersisted m h) = Some h"
| "child_hash (ChildNode n) = None"

fun child_persist_info :: "child \<Rightarrow> (laddr \<times> hash_type) option" where
  "child_persist_info (AddressWithHash a h) = Some (a, h)"
| "child_persist_info (ChildMaybePersisted m h) = map_option (\<lambda>a. (a, h)) (as_linear_address m)"
| "child_persist_info (ChildNode n) = None"

fun as_maybe_persisted_node :: "child \<Rightarrow> maybe_persisted" where
  "as_maybe_persisted_node (ChildNode n) = Unpersisted n"
| "as_maybe_persisted_node (AddressWithHash a h) = Persisted a"
| "as_maybe_persisted_node (ChildMaybePersisted m h) = m"

fun child_as_shared_node :: "child \<Rightarrow> reader \<Rightarrow> node io_result" where
  "child_as_shared_node (ChildNode n) rd = Inr n"
| "child_as_shared_node (AddressWithHash a h) rd = rd a"
| "child_as_shared_node (ChildMaybePersisted m h) rd = as_shared_node m rd"

definition branch_persist_info :: "child option children \<Rightarrow> (laddr \<times> hash_type) option children" where
  "branch_persist_info cs = children_map (\<lambda>_ c. Option.bind c child_persist_info) cs"

definition children_hashes :: "child option children \<Rightarrow> hash_type option children" where
  "children_hashes cs = children_map (\<lambda>_ c. Option.bind c child_hash) cs"

definition children_addresses :: "child option children \<Rightarrow> laddr option children" where
  "children_addresses cs = children_map (\<lambda>_ c. Option.bind c child_persisted_address) cs"

lemma partial_path_update [simp]: "partial_path (update_partial_path n p) = p"
  by (cases n) auto

lemma update_partial_path_idem [simp]:
  "update_partial_path (update_partial_path n p) q = update_partial_path n q"
  by (cases n) auto

lemma update_partial_path_same [simp]: "update_partial_path n (partial_path n) = n"
  by (cases n) auto

lemma node_value_update [simp]: "node_value (update_value n v) = Some v"
  by (cases n) auto

lemma child_persist_info_split:
  "child_persist_info c = Some (a, h) \<longleftrightarrow> child_persisted_address c = Some a \<and> child_hash c = Some h"
  by (cases c) auto

lemma as_maybe_persisted_node_read [simp]:
  "as_shared_node (as_maybe_persisted_node c) rd = child_as_shared_node c rd"
  by (cases c) auto

end
