(* ===== verification/Trie_Spec.thy ===== *)
theory Trie_Spec
  imports Nodes
begin

section \<open>The abstract trie\<close>

text \<open>
  What the code's node graph means. A \<open>trie\<close> is a node with its whole subtree in memory; the
  relation \<open>repr rd n t A\<close> says that loading every child of the node \<open>n\<close> through the reader \<open>rd\<close>
  succeeds, gives the trie \<open>t\<close>, and meets exactly the hashed nodes \<open>A\<close> (a multiset: each node that
  has an identity on disk or in the hashed part of memory, with how often it is met).
  \<open>lookup_t\<close> is the map a trie stands for and \<open>canon\<close> the invariant of a well-formed
  Merkle-Patricia trie: no branch could be merged with its only child or turned into a leaf.
\<close>

subsection \<open>Stripping a prefix\<close>

fun strip :: "path \<Rightarrow> path \<Rightarrow> path option" where
  "strip [] k = Some k"
| "strip (x # p) [] = None"
| "strip (x # p) (y # k) = (if x = y then strip p k else None)"

lemma strip_append [simp]: "strip p (p @ k) = Some k"
  by (induction p) auto

lemma strip_self [simp]: "strip p p = Some []"
  using strip_append [of p "[]"] by simp

lemma strip_eq_Some: "strip p k = Some r \<longleftrightarrow> k = p @ r"
  by (induction p k rule: strip.induct) auto

lemma strip_eq_None: "strip p k = None \<longleftrightarrow> \<not> prefix p k"
  by (induction p k rule: strip.induct) auto

lemma strip_strip: "strip (p @ q) k = Option.bind (strip p k) (strip q)"
  by (induction p k rule: strip.induct) auto

lemma strip_Nil_right [simp]: "strip p [] = (if p = [] then Some [] else None)"
  by (cases p) auto

subsection \<open>Tries\<close>

datatype trie =
    TBranch path "val option" "pc \<Rightarrow> trie option"
  | TLeaf path val

fun tpath :: "trie \<Rightarrow> path" where
  "tpath (TBranch p v ts) = p"
| "tpath (TLeaf p v) = p"

fun set_tpath :: "trie \<Rightarrow> path \<Rightarrow> trie" where
  "set_tpath (TBranch p v ts) q = TBranch q v ts"
| "set_tpath (TLeaf p v) q = TLeaf q v"

primrec below :: "trie \<Rightarrow> path \<Rightarrow> val option" where
  "below (TLeaf p v) = (\<lambda>r. if r = [] then Some v else None)"
| "below (TBranch p v ts) =
     (\<lambda>r. case r of
        [] \<Rightarrow> v
      | b # r' \<Rightarrow>
          Option.bind (try_new b) (\<lambda>c.
          Option.bind ((map_option (\<lambda>t. (tpath t, below t)) \<circ> ts) c) (\<lambda>(q, f).
          Option.bind (strip q r') f)))"

definition lookup_t :: "trie \<Rightarrow> path \<Rightarrow> val option" where
  "lookup_t t k = Option.bind (strip (tpath t) k) (below t)"

primrec canon :: "trie \<Rightarrow> bool" where
  "canon (TLeaf p v) = True"
| "canon (TBranch p v ts) =
     ((v \<noteq> None \<and> (\<exists>c. ts c \<noteq> None) \<or> (\<exists>c d. c \<noteq> d \<and> ts c \<noteq> None \<and> ts d \<noteq> None)) \<and>
      (\<forall>c. (map_option canon \<circ> ts) c \<noteq> Some False))"

primrec valid_t :: "trie \<Rightarrow> bool" where
  "valid_t (TLeaf p v) = valid_path p"
| "valid_t (TBranch p v ts) = (valid_path p \<and> (\<forall>c. (map_option valid_t \<circ> ts) c \<noteq> Some False))"

declare below.simps(2) [simp del] canon.simps(2) [simp del] valid_t.simps(2) [simp del]

lemma below_TBranch [simp]:
  "below (TBranch p v ts) [] = v"
  "below (TBranch p v ts) (b # r) =
     Option.bind (try_new b) (\<lambda>c. Option.bind (ts c) (\<lambda>t. lookup_t t r))"
  by (auto simp: below.simps lookup_t_def split: bind_splits)

lemma canon_TBranch [simp]:
  "canon (TBranch p v ts) \<longleftrightarrow>
     (v \<noteq> None \<and> (\<exists>c. ts c \<noteq> None) \<or> (\<exists>c d. c \<noteq> d \<and> ts c \<noteq> None \<and> ts d \<noteq> None)) \<and>
     (\<forall>c t. ts c = Some t \<longrightarrow> canon t)"
  by (auto simp: canon.simps)

lemma canon_TBranch_upd:
  assumes "canon (TBranch p w ts)" "canon u"
  shows "canon (TBranch p w (ts(i := Some u)))"
proof -
  define ts' where "ts' = ts(i := Some u)"
  have "\<forall>c. ts c \<noteq> None \<longrightarrow> ts' c \<noteq> None" by (simp add: ts'_def)
  moreover have "\<forall>c t. ts' c = Some t \<longrightarrow> canon t" using assms by (simp add: ts'_def)
  ultimately show ?thesis
    using assms(1) unfolding canon_TBranch ts'_def [symmetric] by (elim conjE disjE exE) metis+
qed

lemma valid_t_TBranch [simp]:
  "valid_t (TBranch p v ts) \<longleftrightarrow> valid_path p \<and> (\<forall>c t. ts c = Some t \<longrightarrow> valid_t t)"
  by (auto simp: valid_t.simps)

lemma valid_t_tpath: "valid_t t \<Longrightarrow> valid_path (tpath t)"
  by (cases t) auto

lemma tpath_set_tpath [simp]: "tpath (set_tpath t p) = p"
  by (cases t) auto

lemma set_tpath_set_tpath [simp]: "set_tpath (set_tpath t p) q = set_tpath t q"
  by (cases t) auto

lemma set_tpath_same [simp]: "set_tpath t (tpath t) = t"
  by (cases t) auto

lemma below_set_tpath [simp]: "below (set_tpath t p) = below t"
  by (cases t) (auto simp: below.simps)

lemma canon_set_tpath [simp]: "canon (set_tpath t p) = canon t"
  by (cases t) auto

lemma valid_t_set_tpath: "valid_t t \<Longrightarrow> valid_path p \<Longrightarrow> valid_t (set_tpath t p)"
  by (cases t) auto

lemma lookup_t_append: "lookup_t t (tpath t @ r) = below t r"
  by (simp add: lookup_t_def)

lemma lookup_t_set_tpath: "lookup_t (set_tpath t p) k = Option.bind (strip p k) (below t)"
  by (simp add: lookup_t_def)

lemma lookup_t_TLeaf [simp]: "lookup_t (TLeaf p v) k = (if k = p then Some v else None)"
  by (auto simp: lookup_t_def strip_eq_Some split: bind_splits)

subsection \<open>The canonical form is unique\<close>

lemma trie_induct [case_names TBranch TLeaf]:
  assumes "\<And>p v ts. (\<And>c t. ts c = Some t \<Longrightarrow> P t) \<Longrightarrow> P (TBranch p v ts)"
    and "\<And>p v. P (TLeaf p v)"
  shows "P t"
proof (rule trie.induct)
  fix p v and ts :: "pc \<Rightarrow> trie option"
  assume IH: "\<And>x t. x \<in> range ts \<Longrightarrow> t \<in> set_option x \<Longrightarrow> P t"
  show "P (TBranch p v ts)" by (rule assms(1)) (rule IH [OF rangeI], simp)
qed (rule assms(2))

lemma lookup_t_prefix: "lookup_t t k \<noteq> None \<Longrightarrow> prefix (tpath t) k"
  using strip_eq_None [of "tpath t" k] by (auto simp: lookup_t_def)

lemma below_eqI:
  assumes "lookup_t t = lookup_t t'" "tpath t = tpath t'"
  shows "below t = below t'"
proof
  fix r
  have "lookup_t t (tpath t @ r) = lookup_t t' (tpath t' @ r)" using assms by simp
  then show "below t r = below t' r" by (simp only: lookup_t_append)
qed

lemma canon_nonempty: "canon t \<Longrightarrow> \<exists>r. below t r \<noteq> None"
proof (induction t rule: trie_induct)
  case (TBranch p v ts)
  from TBranch.prems consider "v \<noteq> None" | c t where "ts c = Some t" by auto
  then show ?case
  proof cases
    case 1
    then show ?thesis by (intro exI [of _ "[]"]) simp
  next
    case (2 c t)
    then have "canon t" using TBranch.prems by simp
    then obtain r where "below t r \<noteq> None" using TBranch.IH [OF 2] by blast
    then show ?thesis
      using 2 by (intro exI [of _ "as_u8 c # tpath t @ r"]) (simp add: lookup_t_append)
  qed
qed (auto intro: exI [of _ "[]"])

lemma canon_lookup_nonempty: "canon t \<Longrightarrow> \<exists>r. lookup_t t r \<noteq> None"
  using canon_nonempty [of t] by (metis lookup_t_append)

lemma canon_child_nonempty:
  assumes "canon (TBranch p v ts)" "ts c = Some t"
  shows "\<exists>r. below (TBranch p v ts) (as_u8 c # r) \<noteq> None"
proof -
  have "canon t" using assms by simp
  then obtain r where "below t r \<noteq> None" using canon_nonempty by blast
  then show ?thesis using assms(2) by (intro exI [of _ "tpath t @ r"]) (simp add: lookup_t_append)
qed

lemma canon_key_leaves:
  assumes "canon t"
  shows "\<exists>r. below t r \<noteq> None \<and> (\<forall>r'. r \<noteq> b # r')"
proof (cases t)
  case (TBranch p v ts)
  show ?thesis
  proof (cases v)
    case None
    then obtain c d where cd: "c \<noteq> d" "ts c \<noteq> None" "ts d \<noteq> None"
      using assms TBranch by auto
    define e where "e = (if as_u8 c = b then d else c)"
    have "ts e \<noteq> None" "as_u8 e \<noteq> b" using cd by (auto simp: e_def)
    then obtain t' where "ts e = Some t'" "as_u8 e \<noteq> b" by blast
    with assms TBranch canon_child_nonempty [of p v ts e t'] show ?thesis by blast
  qed (auto simp: TBranch intro: exI [of _ "[]"])
qed (auto intro: exI [of _ "[]"])

lemma canon_tpath_shorter:
  assumes "canon t" "lookup_t t = lookup_t t'" "tpath t' = tpath t @ b # q"
  shows False
proof -
  obtain r where r: "below t r \<noteq> None" "\<And>r'. r \<noteq> b # r'"
    using canon_key_leaves [OF assms(1)] by blast
  have "lookup_t t (tpath t @ r) \<noteq> None" using r(1) by (simp only: lookup_t_append) simp
  then have "prefix (tpath t') (tpath t @ r)" using assms(2) lookup_t_prefix by metis
  with assms(3) r(2) show False by (cases r) auto
qed

lemma canon_tpath_eq:
  assumes "canon t" "canon t'" "lookup_t t = lookup_t t'"
  shows "tpath t = tpath t'"
proof -
  obtain r where "lookup_t t (tpath t @ r) \<noteq> None"
    using canon_nonempty [OF assms(1)] by (auto simp: lookup_t_append)
  then have "prefix (tpath t') (tpath t @ r)" using assms(3) lookup_t_prefix by metis
  then have "prefix (tpath t') (tpath t) \<or> prefix (tpath t) (tpath t')"
    by (auto simp: prefix_append)
  then show ?thesis
  proof (elim disjE prefixE)
    fix q assume "tpath t = tpath t' @ q"
    then show ?thesis using canon_tpath_shorter [OF assms(2) assms(3) [symmetric]] by (cases q) auto
  next
    fix q assume "tpath t' = tpath t @ q"
    then show ?thesis using canon_tpath_shorter [OF assms(1,3)] by (cases q) auto
  qed
qed

lemma canon_leaf_branch:
  assumes "canon (TBranch p v ts)" "below (TBranch p v ts) = below (TLeaf q w)"
  shows False
proof -
  obtain c t where "ts c = Some t" using assms(1) by fastforce
  with canon_child_nonempty [OF assms(1)] assms(2) show False by force
qed

text \<open>Two canonical tries with the same contents are the same trie.\<close>

lemma canon_unique:
  "canon t \<Longrightarrow> canon t' \<Longrightarrow> lookup_t t = lookup_t t' \<Longrightarrow> t = t'"
proof (induction t arbitrary: t' rule: trie_induct)
  case (TLeaf p v)
  have path: "p = tpath t'" using canon_tpath_eq [OF TLeaf.prems] by simp
  then have bel: "below (TLeaf p v) = below t'" using below_eqI [OF TLeaf.prems(3)] by simp
  show ?case
  proof (cases t')
    case (TBranch q w ts)
    then show ?thesis using canon_leaf_branch [of q w ts p v] TLeaf.prems(2) bel by simp
  next
    case (TLeaf q w)
    then show ?thesis using path fun_cong [OF bel, of "[]"] by simp
  qed
next
  case (TBranch p v ts)
  have path: "p = tpath t'" using canon_tpath_eq [OF TBranch.prems] by simp
  then have bel: "below (TBranch p v ts) = below t'" using below_eqI [OF TBranch.prems(3)] by simp
  then obtain v' ts' where t': "t' = TBranch p v' ts'"
    using path canon_leaf_branch [OF TBranch.prems(1)] by (cases t') auto
  have "v = v'" using fun_cong [OF bel, of "[]"] t' by simp
  moreover have "ts c = ts' c" for c
  proof -
    have key: "Option.bind (ts c) (\<lambda>t. lookup_t t r) = Option.bind (ts' c) (\<lambda>t. lookup_t t r)" for r
      using fun_cong [OF bel, of "as_u8 c # r"] t' by simp
    have canon: "ts c = Some u \<Longrightarrow> canon u" "ts' c = Some u \<Longrightarrow> canon u" for u
      using TBranch.prems(1,2) t' by simp_all
    have none: "ts c = None \<longleftrightarrow> ts' c = None"
      using key canon canon_lookup_nonempty by (metis bind.simps(1) bind.simps(2) not_None_eq)
    show ?thesis
    proof (cases "ts c")
      case (Some u)
      then obtain u' where u': "ts' c = Some u'" using none by auto
      then have "lookup_t u = lookup_t u'" using key Some by (auto simp: fun_eq_iff)
      with TBranch.IH [OF Some, of u'] TBranch.prems t' Some u' show ?thesis by simp
    qed (use none in simp)
  qed
  ultimately show ?case using t' by (simp add: fun_eq_iff)
qed

subsection \<open>Counting\<close>

text \<open>The number of values of a trie, and its depth in nodes.\<close>

primrec value_count :: "trie \<Rightarrow> nat" where
  "value_count (TLeaf p v) = 1"
| "value_count (TBranch p v ts) =
     of_bool (v \<noteq> None) +
     (\<Sum>c \<in> UNIV. case (map_option value_count \<circ> ts) c of None \<Rightarrow> 0 | Some n \<Rightarrow> n)"

primrec tdepth :: "trie \<Rightarrow> nat" where
  "tdepth (TLeaf p v) = 1"
| "tdepth (TBranch p v ts) =
     Suc (Max (range (\<lambda>c. case (map_option tdepth \<circ> ts) c of None \<Rightarrow> 0 | Some n \<Rightarrow> n)))"

lemma value_count_TBranch [simp]:
  "value_count (TBranch p v ts) =
     of_bool (v \<noteq> None) + (\<Sum>c \<in> UNIV. case ts c of None \<Rightarrow> 0 | Some t \<Rightarrow> value_count t)"
  by (auto intro!: sum.cong split: option.splits)

lemma tdepth_TBranch:
  "tdepth (TBranch p v ts) = Suc (Max (range (\<lambda>c. case ts c of None \<Rightarrow> 0 | Some t \<Rightarrow> tdepth t)))"
  by (auto intro!: arg_cong [of _ _ Max] image_cong split: option.splits)

declare value_count.simps(2) [simp del] tdepth.simps(2) [simp del]

lemma tdepth_child: "ts c = Some t \<Longrightarrow> tdepth t < tdepth (TBranch p v ts)"
proof -
  assume "ts c = Some t"
  then have "tdepth t \<in> range (\<lambda>c. case ts c of None \<Rightarrow> 0 | Some t \<Rightarrow> tdepth t)"
    by (intro range_eqI [of _ _ c]) simp
  then show ?thesis by (simp add: tdepth_TBranch less_Suc_eq_le)
qed

lemma tdepth_pos [simp]: "0 < tdepth t"
  by (cases t) (simp_all add: tdepth_TBranch)

text \<open>Every level of a canonical trie takes at least one nibble of a key.\<close>

lemma tdepth_le:
  "canon t \<Longrightarrow> (\<And>k. lookup_t t k \<noteq> None \<Longrightarrow> length k \<le> L) \<Longrightarrow> tdepth t \<le> Suc L"
proof (induction t arbitrary: L rule: trie_induct)
  case (TBranch p v ts)
  have "tdepth u \<le> L" if u: "ts c = Some u" for c u
  proof -
    have len: "length k < L" if "lookup_t u k \<noteq> None" for k
      using TBranch.prems(2) [of "p @ as_u8 c # k"] lookup_t_append [of "TBranch p v ts" "as_u8 c # k"] u that
      by simp
    obtain k where "lookup_t u k \<noteq> None"
      using canon_lookup_nonempty [of u] TBranch.prems(1) u by auto
    then obtain L' where L: "L = Suc L'" using len by (cases L) auto
    show ?thesis using TBranch.IH [OF u, of L'] TBranch.prems(1) u len L by (auto simp: less_Suc_eq_le)
  qed
  then have "Max (range (\<lambda>c. case ts c of None \<Rightarrow> 0 | Some t \<Rightarrow> tdepth t)) \<le> L"
    by (subst Max_le_iff) (auto split: option.splits)
  then show ?case by (simp add: tdepth_TBranch)
qed simp

subsection \<open>Nodes that represent a trie\<close>

fun child_hashed :: "child \<Rightarrow> maybe_persisted multiset" where
  "child_hashed (ChildNode n) = {#}"
| "child_hashed (AddressWithHash a h) = {# Persisted a #}"
| "child_hashed (ChildMaybePersisted m h) = {# m #}"

inductive repr :: "reader \<Rightarrow> node \<Rightarrow> trie \<Rightarrow> maybe_persisted multiset \<Rightarrow> bool" for rd where
  repr_Leaf: "repr rd (Leaf p v) (TLeaf p v) {#}"
| repr_Branch: "\<lbrakk>\<forall>c. cs c = None \<longrightarrow> ts c = None \<and> As c = {#};
     \<forall>c ch. cs c = Some ch \<longrightarrow>
       (\<exists>n t A. child_as_shared_node ch rd = Inr n \<and> repr rd n t A \<and>
          ts c = Some t \<and> As c = child_hashed ch + A)\<rbrakk> \<Longrightarrow>
     repr rd (Branch p v cs) (TBranch p v ts) (\<Sum>c \<in> UNIV. As c)"

inductive_cases repr_LeafE [elim!]: "repr rd (Leaf p v) t A"
inductive_cases repr_BranchE: "repr rd (Branch p v cs) t A"
inductive_cases repr_TLeafE [elim!]: "repr rd n (TLeaf p v) A"
inductive_cases repr_TBranchE: "repr rd n (TBranch p v ts) A"

lemma repr_tpath: "repr rd n t A \<Longrightarrow> tpath t = partial_path n"
  by (auto elim: repr.cases)

lemma repr_update_partial_path:
  assumes "repr rd n t A"
  shows "repr rd (update_partial_path n p) (set_tpath t p) A"
  using assms
proof cases
  case (repr_Branch cs ts As q v)
  show ?thesis unfolding repr_Branch(1-3) update_partial_path.simps set_tpath.simps
    by (rule repr.repr_Branch [OF repr_Branch(4,5)])
qed (auto intro: repr_Leaf)

lemma sum_upd_pc: "(\<Sum>c \<in> UNIV. (As(i := X)) c) = (\<Sum>c \<in> UNIV - {i}. As c) + (X :: 'a multiset)"
  for As :: "pc \<Rightarrow> 'a multiset"
proof -
  have "(\<Sum>c \<in> UNIV. (As(i := X)) c) = (As(i := X)) i + (\<Sum>c \<in> UNIV - {i}. (As(i := X)) c)"
    by (rule sum.remove) auto
  also have "(\<Sum>c \<in> UNIV - {i}. (As(i := X)) c) = (\<Sum>c \<in> UNIV - {i}. As c)"
    by (rule sum.cong) auto
  finally show ?thesis by simp
qed

text \<open>
  Taking one slot out of a represented branch and putting a child back: the multiset of the rest is
  \<open>R\<close>.
\<close>

lemma repr_Branch_slot:
  assumes "repr rd (Branch p v cs) (TBranch p v ts) A"
  obtains R where
    "cs i = None \<Longrightarrow> ts i = None \<and> A = R"
    "\<And>ch. cs i = Some ch \<Longrightarrow> \<exists>n u B. child_as_shared_node ch rd = Inr n \<and> repr rd n u B \<and>
        ts i = Some u \<and> A = R + child_hashed ch + B"
    "\<And>w. repr rd (Branch p w (cs(i := None))) (TBranch p w (ts(i := None))) R"
    "\<And>w n u B. repr rd n u B \<Longrightarrow>
        repr rd (Branch p w (cs(i := Some (ChildNode n)))) (TBranch p w (ts(i := Some u))) (R + B)"
proof -
  from assms obtain As where br: "A = (\<Sum>c \<in> UNIV. As c)"
    "\<forall>c. cs c = None \<longrightarrow> ts c = None \<and> As c = {#}"
    "\<forall>c ch. cs c = Some ch \<longrightarrow> (\<exists>n t A. child_as_shared_node ch rd = Inr n \<and> repr rd n t A \<and>
       ts c = Some t \<and> As c = child_hashed ch + A)"
    by (auto elim!: repr_BranchE)
  define R where "R = (\<Sum>c \<in> UNIV - {i}. As c)"
  have A: "A = R + As i"
    using br(1) by (simp add: R_def sum.remove [of _ i] add.commute)
  have upd: "(\<Sum>c \<in> UNIV. (As(i := X)) c) = R + X" for X
    using sum_upd_pc [of As i X] by (simp add: R_def)
  show thesis
  proof (rule that [of R])
    show "cs i = None \<Longrightarrow> ts i = None \<and> A = R" using br(2) A by simp
    show "\<exists>n u B. child_as_shared_node ch rd = Inr n \<and> repr rd n u B \<and>
        ts i = Some u \<and> A = R + child_hashed ch + B" if "cs i = Some ch" for ch
    proof -
      from br(3) that obtain n u B where "child_as_shared_node ch rd = Inr n" "repr rd n u B"
        "ts i = Some u" "As i = child_hashed ch + B" by blast
      then show ?thesis using A by (auto simp: add.assoc)
    qed
    show "repr rd (Branch p w (cs(i := None))) (TBranch p w (ts(i := None))) R" for w
    proof -
      have "repr rd (Branch p w (cs(i := None))) (TBranch p w (ts(i := None)))
          (\<Sum>c \<in> UNIV. (As(i := {#})) c)"
        by (rule repr_Branch) (use br(2,3) in auto)
      then show ?thesis by (simp only: upd) simp
    qed
    show "repr rd (Branch p w (cs(i := Some (ChildNode n)))) (TBranch p w (ts(i := Some u))) (R + B)"
      if "repr rd n u B" for w n u B
    proof -
      have "repr rd (Branch p w (cs(i := Some (ChildNode n)))) (TBranch p w (ts(i := Some u)))
          (\<Sum>c \<in> UNIV. (As(i := B)) c)"
        by (rule repr_Branch) (use br(2,3) that in auto)
      then show ?thesis by (simp only: upd)
    qed
  qed
qed

lemma repr_slot_None:
  assumes "repr rd (Branch p v cs) (TBranch p v ts) A"
  shows "ts c = None \<longleftrightarrow> cs c = None"
proof (rule repr_Branch_slot [OF assms, of c], goal_cases)
  case (1 R)
  then show ?case by (cases "cs c") auto
qed

lemma repr_Branch_empty: "repr rd (Branch p v children_new) (TBranch p v (\<lambda>_. None)) {#}"
proof -
  have "repr rd (Branch p v children_new) (TBranch p v (\<lambda>_. None)) (\<Sum>c \<in> UNIV. (\<lambda>_. {#}) (c :: pc))"
    by (rule repr_Branch) (auto simp: children_new_def)
  then show ?thesis by simp
qed

lemma repr_Branch_add:
  assumes "repr rd (Branch p v cs) (TBranch p v ts) A" "cs i = None" "repr rd n u B"
  shows "repr rd (Branch p w (cs(i := Some (ChildNode n)))) (TBranch p w (ts(i := Some u))) (A + B)"
proof (rule repr_Branch_slot [OF assms(1), of i])
  fix R
  assume "cs i = None \<Longrightarrow> ts i = None \<and> A = R"
    "\<And>w n u B. repr rd n u B \<Longrightarrow>
        repr rd (Branch p w (cs(i := Some (ChildNode n)))) (TBranch p w (ts(i := Some u))) (R + B)"
  with assms(2,3) show ?thesis by simp
qed

lemma repr_Branch_value:
  assumes "repr rd (Branch p v cs) (TBranch p v ts) A"
  shows "repr rd (Branch p w cs) (TBranch p w ts) A"
  using assms by (auto elim!: repr_BranchE intro!: repr_Branch)

lemma repr_wrap:
  assumes "repr rd n t A"
  shows "repr rd (Branch p w (children_new(i := Some (ChildNode (update_partial_path n q)))))
           (TBranch p w ((\<lambda>_. None)(i := Some (set_tpath t q)))) A"
  using repr_Branch_add [OF repr_Branch_empty _ repr_update_partial_path [OF assms], where i = i and w = w]
  by simp

subsection \<open>Changes of a trie and the map it stands for\<close>

lemma lookup_t_TBranch_value:
  "lookup_t (TBranch p (Some v) ts) = (lookup_t (TBranch p w ts))(p \<mapsto> v)"
proof
  fix k
  show "lookup_t (TBranch p (Some v) ts) k = ((lookup_t (TBranch p w ts))(p \<mapsto> v)) k"
  proof (cases "strip p k")
    case None
    then show ?thesis by (auto simp: lookup_t_def)
  next
    case (Some r)
    then show ?thesis by (cases r) (auto simp: lookup_t_def strip_eq_Some)
  qed
qed

lemma lookup_t_TBranch_value_None:
  "lookup_t (TBranch p None ts) = (lookup_t (TBranch p w ts))(p := None)"
proof
  fix k
  show "lookup_t (TBranch p None ts) k = ((lookup_t (TBranch p w ts))(p := None)) k"
  proof (cases "strip p k")
    case None
    then show ?thesis by (auto simp: lookup_t_def)
  next
    case (Some r)
    then show ?thesis by (cases r) (auto simp: lookup_t_def strip_eq_Some)
  qed
qed

text \<open>A change of one child that changes its map at one key changes the branch's map at that key.\<close>

lemma lookup_t_TBranch_slot:
  assumes "\<And>r. Option.bind x (\<lambda>t. lookup_t t r) =
             ((\<lambda>r. Option.bind (ts c) (\<lambda>t. lookup_t t r))(k := y)) r"
  shows "lookup_t (TBranch p w (ts(c := x))) = (lookup_t (TBranch p w ts))(p @ as_u8 c # k := y)"
proof
  fix l
  show "lookup_t (TBranch p w (ts(c := x))) l = ((lookup_t (TBranch p w ts))(p @ as_u8 c # k := y)) l"
  proof (cases "strip p l")
    case None
    then show ?thesis by (auto simp: lookup_t_def)
  next
    case (Some r)
    then have l: "l = p @ r" by (simp add: strip_eq_Some)
    show ?thesis
    proof (cases r)
      case (Cons b r')
      show ?thesis
      proof (cases "try_new b")
        case None
        then have "b \<noteq> as_u8 c" by auto
        with l Cons None show ?thesis by (simp add: lookup_t_def)
      next
        case (Some d)
        with l Cons assms show ?thesis by (auto simp: lookup_t_def)
      qed
    qed (simp add: l lookup_t_def)
  qed
qed

lemma lookup_t_empty_branch: "lookup_t (TBranch p w (\<lambda>_. None)) k = (if k = p then w else None)"
proof (cases "strip p k")
  case (Some r)
  then show ?thesis by (cases r) (auto simp: lookup_t_def strip_eq_Some split: bind_splits)
qed (auto simp: lookup_t_def)

lemma lookup_t_leaf_branch: "lookup_t (TBranch p (Some w) (\<lambda>_. None)) = lookup_t (TLeaf p w)"
  by (auto simp: lookup_t_empty_branch)

text \<open>Splitting a path into a branch above and a shorter path below does not change the map.\<close>

lemma lookup_t_wrap:
  assumes "tpath t = s @ as_u8 i # q"
  shows "lookup_t (TBranch s None ((\<lambda>_. None)(i := Some (set_tpath t q)))) = lookup_t t"
proof
  fix k
  have t: "lookup_t t k = Option.bind (Option.bind (strip s k) (strip (as_u8 i # q))) (below t)"
    by (simp add: lookup_t_def assms strip_strip)
  show "lookup_t (TBranch s None ((\<lambda>_. None)(i := Some (set_tpath t q)))) k = lookup_t t k"
  proof (cases "strip s k")
    case None
    then show ?thesis by (simp add: t) (simp add: lookup_t_def)
  next
    case (Some r)
    then have k: "k = s @ r" by (simp add: strip_eq_Some)
    show ?thesis
    proof (cases r)
      case Nil
      then show ?thesis using Some by (simp add: t) (simp add: lookup_t_def)
    next
      case (Cons b r')
      have "lookup_t (TBranch s None ((\<lambda>_. None)(i := Some (set_tpath t q)))) k =
        (if b = as_u8 i then Option.bind (strip q r') (below t) else None)"
        by (cases "try_new b") (auto simp: k Cons lookup_t_def lookup_t_set_tpath split: bind_splits)
      then show ?thesis using Some Cons by (auto simp: t)
    qed
  qed
qed

lemma lookup_t_TBranch_upd:
  "lookup_t (TBranch p w (ts(c := x))) l =
     (case strip (p @ [as_u8 c]) l of
        Some r \<Rightarrow> Option.bind x (\<lambda>t. lookup_t t r)
      | None \<Rightarrow> lookup_t (TBranch p w ts) l)"
proof (cases "strip p l")
  case (Some r)
  then have l: "l = p @ r" by (simp add: strip_eq_Some)
  show ?thesis
  proof (cases r)
    case Nil
    then show ?thesis using Some by (simp add: strip_strip) (simp add: lookup_t_def)
  next
    case (Cons b r')
    show ?thesis
    proof (cases "b = as_u8 c")
      case True
      then show ?thesis using lookup_t_append [of "TBranch p w (ts(c := x))" r] l Cons
        by (simp add: strip_strip)
    next
      case False
      then have "try_new b \<noteq> Some c" by simp
      then show ?thesis
        using lookup_t_append [of "TBranch p w (ts(c := x))" r] lookup_t_append [of "TBranch p w ts" r] l Cons False
        by (cases "try_new b") (auto simp: strip_strip simp del: try_new_eq_Some try_new_eq_None)
    qed
  qed
qed (auto simp: strip_strip lookup_t_def)

subsection \<open>The number of values is the size of the map\<close>

lemma dom_TBranch:
  "{k. lookup_t (TBranch p v ts) k \<noteq> None} =
     (if v \<noteq> None then {p} else {}) \<union>
     (\<Union>c. (\<lambda>r. p @ as_u8 c # r) ` {r. Option.bind (ts c) (\<lambda>t. lookup_t t r) \<noteq> None})"
  (is "?lhs = ?rhs")
proof -
  have "lookup_t (TBranch p v ts) k \<noteq> None \<longleftrightarrow> k \<in> ?rhs" for k
  proof (cases "strip p k")
    case None
    then show ?thesis by (auto simp: lookup_t_def)
  next
    case (Some r)
    then have k: "k = p @ r" by (simp add: strip_eq_Some)
    show ?thesis
    proof (cases r)
      case Nil
      then show ?thesis using lookup_t_append [of "TBranch p v ts" "[]"] k by auto
    next
      case (Cons b r')
      have "lookup_t (TBranch p v ts) k = Option.bind (try_new b) (\<lambda>c. Option.bind (ts c) (\<lambda>t. lookup_t t r'))"
        using lookup_t_append [of "TBranch p v ts" r] k Cons by simp
      then show ?thesis
        by (cases "try_new b") (auto simp: k Cons image_iff simp del: bind_eq_None_conv)
    qed
  qed
  then show ?thesis by auto
qed

lemma value_count_dom: "finite {k. lookup_t t k \<noteq> None} \<and> card {k. lookup_t t k \<noteq> None} = value_count t"
proof (induction t rule: trie_induct)
  case (TBranch p v ts)
  define S where "S c = (\<lambda>r. p @ as_u8 c # r) ` {r. Option.bind (ts c) (\<lambda>t. lookup_t t r) \<noteq> None}" for c
  have S: "finite (S c)" "card (S c) = (case ts c of None \<Rightarrow> 0 | Some t \<Rightarrow> value_count t)" for c
    using TBranch.IH by (cases "ts c"; auto simp: S_def card_image inj_on_def)+
  have disj: "S c \<inter> S d = {}" if "c \<noteq> d" for c d
    using that by (auto simp: S_def)
  have "card (\<Union>c. S c) = (\<Sum>c \<in> UNIV. card (S c))"
    by (rule card_UN_disjoint) (use S disj in auto)
  moreover have "p \<notin> (\<Union>c. S c)" by (auto simp: S_def)
  ultimately show ?case
    unfolding dom_TBranch S_def [symmetric] using S by (simp add: card_insert_if)
qed simp

lemmas finite_lookup_t = value_count_dom [THEN conjunct1]
lemmas card_lookup_t = value_count_dom [THEN conjunct2]

end
