(* ===== verification/Mutable_Store.thy ===== *)
theory Mutable_Store
  imports Trie_Spec
begin

section \<open>The mutable node store\<close>

text \<open>
  The state a proposal or a reconstruction works on (\<open>storage/src/nodestore/mod.rs\<close>): the root node
  in memory and, for a proposal, the list of hashed nodes that the changes replace
  (\<open>Propose::deleted\<close>, the future-delete log). Reading a child for an update moves it to memory and
  records the replaced node.

  The storage behind the store is the argument \<open>rd\<close>, the \<open>read_node\<close> of the \<open>NodeReader\<close> trait; the
  node cache is part of it. The parent link of a proposal is not part of this state.
\<close>

datatype deleted_node_tracking = Enabled | Disabled

fun is_enabled :: "deleted_node_tracking \<Rightarrow> bool" where
  "is_enabled Enabled = True"
| "is_enabled Disabled = False"

datatype mutable_kind = Propose "maybe_persisted list" | Recon

record mutable_store =
  ms_root :: "node option"
  ms_inner :: mutable_kind
  ms_tracking :: deleted_node_tracking

fun track_deleted :: "mutable_kind \<Rightarrow> maybe_persisted \<Rightarrow> mutable_kind" where
  "track_deleted (Propose deleted) m = Propose (deleted @ [m])"
| "track_deleted Recon m = Recon"

fun deleted_nodes :: "mutable_kind \<Rightarrow> maybe_persisted list" where
  "deleted_nodes (Propose deleted) = deleted"
| "deleted_nodes Recon = []"

definition ns_new :: "reader \<Rightarrow> deleted_node_tracking \<Rightarrow> maybe_persisted option \<Rightarrow> mutable_store io_result" where
  "ns_new rd tracking parent_root =
     (case parent_root of
        Some root \<Rightarrow>
          let deleted = (if is_enabled tracking then [root] else [])
          in rbind (as_shared_node root rd) (\<lambda>n.
             Inr \<lparr>ms_root = Some n, ms_inner = Propose deleted, ms_tracking = tracking\<rparr>)
      | None \<Rightarrow> Inr \<lparr>ms_root = None, ms_inner = Propose [], ms_tracking = tracking\<rparr>)"

definition new_for_reconstruction ::
  "reader \<Rightarrow> deleted_node_tracking \<Rightarrow> maybe_persisted option \<Rightarrow> mutable_store io_result" where
  "new_for_reconstruction rd tracking parent_root =
     (case parent_root of
        Some root \<Rightarrow>
          rbind (as_shared_node root rd) (\<lambda>n.
          Inr \<lparr>ms_root = Some n, ms_inner = Recon, ms_tracking = tracking\<rparr>)
      | None \<Rightarrow> Inr \<lparr>ms_root = None, ms_inner = Recon, ms_tracking = tracking\<rparr>)"

definition delete_node :: "maybe_persisted \<Rightarrow> mutable_store \<Rightarrow> mutable_store" where
  "delete_node m s =
     (if is_enabled (ms_tracking s) then s\<lparr>ms_inner := track_deleted (ms_inner s) m\<rparr> else s)"

definition delete_nodes :: "maybe_persisted list \<Rightarrow> mutable_store \<Rightarrow> mutable_store" where
  "delete_nodes ms s =
     (if is_enabled (ms_tracking s)
      then s\<lparr>ms_inner := (case ms_inner s of Propose deleted \<Rightarrow> Propose (deleted @ ms) | Recon \<Rightarrow> Recon)\<rparr>
      else s)"

definition take_deleted_nodes :: "mutable_store \<Rightarrow> maybe_persisted list \<times> mutable_store" where
  "take_deleted_nodes s =
     (case ms_inner s of
        Propose deleted \<Rightarrow> (deleted, s\<lparr>ms_inner := Propose []\<rparr>)
      | Recon \<Rightarrow> ([], s))"

definition from_root :: "mutable_store \<Rightarrow> node option \<Rightarrow> mutable_store" where
  "from_root parent root = \<lparr>ms_root = root, ms_inner = Propose [], ms_tracking = ms_tracking parent\<rparr>"

definition ns_read_for_update :: "reader \<Rightarrow> maybe_persisted \<Rightarrow> (mutable_store, node) sresult" where
  "ns_read_for_update rd m s =
     (case (case persisted_address m of Some addr \<Rightarrow> rd addr | None \<Rightarrow> as_shared_node m rd) of
        Inl e \<Rightarrow> (Inl e, s)
      | Inr n \<Rightarrow>
          (Inr n, if is_enabled (ms_tracking s)
                  then s\<lparr>ms_inner := track_deleted (ms_inner s) m\<rparr> else s))"

fun read_for_update :: "reader \<Rightarrow> child \<Rightarrow> (mutable_store, node) sresult" where
  "read_for_update rd (ChildNode n) s = (Inr n, s)"
| "read_for_update rd (AddressWithHash a h) s = ns_read_for_update rd (Persisted a) s"
| "read_for_update rd (ChildMaybePersisted m h) s = ns_read_for_update rd m s"

subsection \<open>What reading for update does\<close>

text \<open>
  \<open>tracked s s' D\<close>: the state \<open>s'\<close> is \<open>s\<close> with the hashed nodes \<open>D\<close> added to the future-delete log
  (to nothing where the log is not kept).
\<close>

definition tracks :: "mutable_store \<Rightarrow> bool" where
  "tracks s = (is_enabled (ms_tracking s) \<and> ms_inner s \<noteq> Recon)"

definition tracked :: "mutable_store \<Rightarrow> mutable_store \<Rightarrow> maybe_persisted multiset \<Rightarrow> bool" where
  "tracked s s' D \<longleftrightarrow>
     ms_root s' = ms_root s \<and> ms_tracking s' = ms_tracking s \<and>
     (ms_inner s' = Recon \<longleftrightarrow> ms_inner s = Recon) \<and>
     mset (deleted_nodes (ms_inner s')) =
       mset (deleted_nodes (ms_inner s)) + (if tracks s then D else {#})"

lemma tracked_refl [simp]: "tracked s s {#}"
  by (simp add: tracked_def)

lemma tracked_trans [trans]:
  "tracked s s' D \<Longrightarrow> tracked s' s'' E \<Longrightarrow> tracked s s'' (D + E)"
  by (auto simp: tracked_def tracks_def)

lemma tracked_root: "tracked (s\<lparr>ms_root := r\<rparr>) s' D \<Longrightarrow> ms_root s' = r"
  by (simp add: tracked_def)

lemma as_shared_node_persisted:
  "(case persisted_address m of Some addr \<Rightarrow> rd addr | None \<Rightarrow> as_shared_node m rd) = as_shared_node m rd"
  by (cases m) auto

lemma ns_read_for_update_ok:
  assumes "as_shared_node m rd = Inr n"
  shows "\<exists>s'. ns_read_for_update rd m s = (Inr n, s') \<and> tracked s s' {# m #}"
proof -
  have "ns_read_for_update rd m s = (Inr n, delete_node m s)"
    using assms by (simp add: ns_read_for_update_def as_shared_node_persisted delete_node_def)
  moreover have "tracked s (delete_node m s) {# m #}"
    by (cases "ms_inner s") (simp_all add: delete_node_def tracked_def tracks_def)
  ultimately show ?thesis by blast
qed

lemma read_for_update_ok:
  "child_as_shared_node ch rd = Inr n \<Longrightarrow>
   \<exists>s'. read_for_update rd ch s = (Inr n, s') \<and> tracked s s' (child_hashed ch)"
  by (cases ch) (simp_all add: ns_read_for_update_ok)

lemma read_for_update_error:
  "child_as_shared_node ch rd = Inl e \<Longrightarrow> read_for_update rd ch s = (Inl e, s)"
  by (cases ch) (auto simp: ns_read_for_update_def as_shared_node_persisted)

end
