(* ===== verification/Merkle.thy ===== *)
theory Merkle
  imports Mutable_Store
begin

section \<open>The trie operations\<close>

text \<open>
  \<open>firewood/src/merkle/mod.rs\<close>: point lookup (\<open>get_helper\<close>), insertion, removal of a key and of all
  keys with a prefix, and the flattening of a branch that lost a child. Each helper takes the node it
  works on by value, as in the source, and returns the node that replaces it; the mutable receiver is
  the state of the node store. A failing \<open>expect\<close> is the outcome \<open>Panic\<close>.
\<close>

subsection \<open>Lookup\<close>

function get_helper :: "reader \<Rightarrow> node \<Rightarrow> path \<Rightarrow> node option io_result" where
  "get_helper rd node key =
     (let path_overlap = po_from key (partial_path node);
          unique_key = unique_a path_overlap;
          unique_node = unique_b path_overlap
      in case split_first unique_node of
           Some _ \<Rightarrow> Inr None
         | None \<Rightarrow>
             (case split_first unique_key of
                None \<Rightarrow> Inr (Some node)
              | Some (index, remaining_key) \<Rightarrow>
                  (case try_new index of
                     None \<Rightarrow> Inl Panic
                   | Some child_index \<Rightarrow>
                       (case node of
                          Leaf _ _ \<Rightarrow> Inr None
                        | Branch _ _ children \<Rightarrow>
                            (case children child_index of
                               None \<Rightarrow> Inr None
                             | Some ch \<Rightarrow>
                                 rbind (child_as_shared_node ch rd) (\<lambda>child.
                                 get_helper rd child remaining_key))))))"
  by pat_completeness auto

lemma split_first_po_shorter:
  "split_first (unique_a (po_from key p)) = Some (x, rest) \<Longrightarrow> length rest < length key"
  using po_from_unique_shorter [of key p] by simp

termination get_helper
  by (relation "measure (\<lambda>(rd, node, key). length key)") (auto dest: split_first_po_shorter)

definition get_node :: "reader \<Rightarrow> node option \<Rightarrow> u8 list \<Rightarrow> node option io_result" where
  "get_node rd root key =
     (case root of
        None \<Rightarrow> Inr None
      | Some root \<Rightarrow> get_helper rd root (path_from_nibbles_iterator (nibbles key)))"

definition get_value :: "reader \<Rightarrow> node option \<Rightarrow> u8 list \<Rightarrow> val option io_result" where
  "get_value rd root key =
     rbind (get_node rd root key) (\<lambda>node.
       case node of None \<Rightarrow> Inr None | Some node \<Rightarrow> Inr (node_value node))"

subsection \<open>Insertion\<close>

function insert_helper :: "reader \<Rightarrow> node \<Rightarrow> path \<Rightarrow> val \<Rightarrow> mutable_store \<Rightarrow> node io_result \<times> mutable_store"
where
  "insert_helper rd node key v s =
     (let path_overlap = po_from key (partial_path node);
          unique_key = unique_a path_overlap;
          unique_node = unique_b path_overlap
      in case split_first unique_key of
           None \<Rightarrow>
             (case split_first unique_node of
                None \<Rightarrow> (Inr (update_value node v), s)
              | Some (index, path) \<Rightarrow>
                  (case try_new index of
                     None \<Rightarrow> (Inl Panic, s)
                   | Some child_index \<Rightarrow>
                       (Inr (Branch (shared path_overlap) (Some v)
                          (children_new(child_index := Some (ChildNode (update_partial_path node path))))), s)))
         | Some (index, path) \<Rightarrow>
             (case split_first unique_node of
                None \<Rightarrow>
                  (case try_new index of
                     None \<Rightarrow> (Inl Panic, s)
                   | Some child_index \<Rightarrow>
                       (case node of
                          Branch p w children \<Rightarrow>
                            (case children_take children child_index of
                               (None, children) \<Rightarrow>
                                 (Inr (Branch p w (children(child_index := Some (ChildNode (Leaf path v))))), s)
                             | (Some ch, children) \<Rightarrow>
                                 sbind (read_for_update rd ch) (\<lambda>child.
                                 sbind (\<lambda>s. insert_helper rd child path v s) (\<lambda>child.
                                 sreturn (Branch p w (children(child_index := Some (ChildNode child)))))) s)
                        | Leaf p w \<Rightarrow>
                            (Inr (Branch p (Some w)
                               (children_new(child_index := Some (ChildNode (Leaf path v))))), s)))
              | Some (node_ix, node_path) \<Rightarrow>
                  (case (try_new index, try_new node_ix) of
                     (Some key_index, Some node_index) \<Rightarrow>
                       (Inr (Branch (shared path_overlap) None
                          (children_new
                             (node_index := Some (ChildNode (update_partial_path node node_path)),
                              key_index := Some (ChildNode (Leaf path v))))), s)
                   | _ \<Rightarrow> (Inl Panic, s))))"
  by pat_completeness auto

termination insert_helper
  by (relation "measure (\<lambda>(rd, node, key, v, s). length key)") (auto dest: split_first_po_shorter)

definition insert_from_iter :: "reader \<Rightarrow> path \<Rightarrow> val \<Rightarrow> (mutable_store, unit) sresult" where
  "insert_from_iter rd key v s =
     (case ms_root s of
        None \<Rightarrow> (Inr (), s\<lparr>ms_root := Some (Leaf key v)\<rparr>)
      | Some root_node \<Rightarrow>
          sbind (insert_helper rd root_node key v) (\<lambda>root_node s.
          (Inr (), s\<lparr>ms_root := Some root_node\<rparr>)) (s\<lparr>ms_root := None\<rparr>))"

definition merkle_insert :: "reader \<Rightarrow> u8 list \<Rightarrow> val \<Rightarrow> (mutable_store, unit) sresult" where
  "merkle_insert rd key v = insert_from_iter rd (path_from_nibbles_iterator (nibbles key)) v"

subsection \<open>Removal\<close>

text \<open>
  The scan of \<open>flatten_branch\<close> over the child slots: no child, a branch that has to stay, or the
  only child.
\<close>

datatype flatten_scan_result = NoChild | KeepBranch | OnlyChild pc child

fun flatten_scan :: "pc list \<Rightarrow> val option \<Rightarrow> (pc \<Rightarrow> child option) \<Rightarrow> flatten_scan_result" where
  "flatten_scan [] v cs = NoChild"
| "flatten_scan (i # rest) v cs =
     (case cs i of
        None \<Rightarrow> flatten_scan rest v cs
      | Some ch \<Rightarrow> if v \<noteq> None \<or> list_ex (\<lambda>j. cs j \<noteq> None) rest then KeepBranch else OnlyChild i ch)"

definition flatten_branch ::
  "reader \<Rightarrow> path \<Rightarrow> val option \<Rightarrow> (pc \<Rightarrow> child option) \<Rightarrow> (mutable_store, node option) sresult" where
  "flatten_branch rd p v cs s =
     (case flatten_scan pc_ALL v cs of
        NoChild \<Rightarrow> (Inr (map_option (Leaf p) v), s)
      | KeepBranch \<Rightarrow> (Inr (Some (Branch p v cs)), s)
      | OnlyChild child_index ch \<Rightarrow>
          sbind (read_for_update rd ch) (\<lambda>child.
          sreturn (Some (update_partial_path child (p @ [as_u8 child_index] @ partial_path child)))) s)"

function remove_helper ::
  "reader \<Rightarrow> node \<Rightarrow> path \<Rightarrow> mutable_store \<Rightarrow> (node option \<times> val option) io_result \<times> mutable_store"
where
  "remove_helper rd node key s =
     (let path_overlap = po_from key (partial_path node);
          unique_key = unique_a path_overlap;
          unique_node = unique_b path_overlap
      in case split_first unique_node of
           Some _ \<Rightarrow> (Inr (Some node, None), s)
         | None \<Rightarrow>
             (case split_first unique_key of
                None \<Rightarrow>
                  (case node of
                     Branch p v children \<Rightarrow>
                       (case v of
                          None \<Rightarrow> (Inr (Some (Branch p None children), None), s)
                        | Some removed \<Rightarrow>
                            sbind (flatten_branch rd p None children) (\<lambda>n.
                            sreturn (n, Some removed)) s)
                   | Leaf p v \<Rightarrow> (Inr (None, Some v), s))
              | Some (index, path) \<Rightarrow>
                  (case try_new index of
                     None \<Rightarrow> (Inl Panic, s)
                   | Some child_index \<Rightarrow>
                       (case node of
                          Leaf _ _ \<Rightarrow> (Inr (Some node, None), s)
                        | Branch p v children \<Rightarrow>
                            (case children_take children child_index of
                               (None, children) \<Rightarrow> (Inr (Some (Branch p v children), None), s)
                             | (Some ch, children) \<Rightarrow>
                                 sbind (read_for_update rd ch) (\<lambda>child.
                                 sbind (\<lambda>s. remove_helper rd child path s) (\<lambda>(child, removed).
                                 sbind (flatten_branch rd p v
                                          (children(child_index := map_option ChildNode child))) (\<lambda>n.
                                 sreturn (n, removed)))) s)))))"
  by pat_completeness auto

termination remove_helper
  by (relation "measure (\<lambda>(rd, node, key, s). length key)") (auto dest: split_first_po_shorter)

definition remove_from_iter :: "reader \<Rightarrow> path \<Rightarrow> (mutable_store, val option) sresult" where
  "remove_from_iter rd key s =
     (case ms_root s of
        None \<Rightarrow> (Inr None, s)
      | Some root_node \<Rightarrow>
          sbind (remove_helper rd root_node key) (\<lambda>(root_node, removed) s.
          (Inr removed, s\<lparr>ms_root := root_node\<rparr>)) (s\<lparr>ms_root := None\<rparr>))"

definition merkle_remove :: "reader \<Rightarrow> u8 list \<Rightarrow> (mutable_store, val option) sresult" where
  "merkle_remove rd key = remove_from_iter rd (path_from_nibbles_iterator (nibbles key))"

subsection \<open>Removal of a prefix\<close>

text \<open>
  The counter \<open>deleted: &mut usize\<close> is part of the state of these helpers; it saturates at the
  largest \<open>usize\<close>. \<open>delete_children\<close> follows the children of nodes it reads from storage, which
  nothing bounds; its first argument bounds the depth of the recursion.
\<close>

definition usize_max :: nat where
  "usize_max = 2 ^ 64 - 1"

definition saturating_add1 :: "nat \<Rightarrow> nat" where
  "saturating_add1 d = min (d + 1) usize_max"

definition on_store :: "(mutable_store, 'a) sresult \<Rightarrow> (mutable_store \<times> nat, 'a) sresult" where
  "on_store m = (\<lambda>(s, d). case m s of (r, s') \<Rightarrow> (r, (s', d)))"

definition count_deleted :: "(mutable_store \<times> nat, unit) sresult" where
  "count_deleted = (\<lambda>(s, d). (Inr (), (s, saturating_add1 d)))"

primrec delete_children ::
  "nat \<Rightarrow> reader \<Rightarrow> val option \<Rightarrow> (pc \<Rightarrow> child option) \<Rightarrow> (mutable_store \<times> nat, unit) sresult" where
  "delete_children 0 rd v cs = sfail OutOfFuel"
| "delete_children (Suc fuel) rd v cs =
     sbind (if v \<noteq> None then count_deleted else sreturn ()) (\<lambda>_.
     sfor (\<lambda>i.
       case cs i of
         None \<Rightarrow> sreturn ()
       | Some ch \<Rightarrow>
           sbind (on_store (read_for_update rd ch)) (\<lambda>child.
             case child of
               Branch _ w ds \<Rightarrow> delete_children fuel rd w ds
             | Leaf _ _ \<Rightarrow> count_deleted)) pc_ALL)"

function remove_prefix_helper ::
  "nat \<Rightarrow> reader \<Rightarrow> node \<Rightarrow> path \<Rightarrow> mutable_store \<times> nat \<Rightarrow> node option io_result \<times> (mutable_store \<times> nat)"
where
  "remove_prefix_helper fuel rd node key s =
     (let path_overlap = po_from key (partial_path node);
          unique_key = unique_a path_overlap;
          unique_node = unique_b path_overlap
      in case split_first unique_key of
           None \<Rightarrow>
             (case node of
                Branch _ v children \<Rightarrow>
                  sbind (delete_children fuel rd v children) (\<lambda>_. sreturn None) s
              | Leaf _ _ \<Rightarrow> sbind count_deleted (\<lambda>_. sreturn None) s)
         | Some (index, path) \<Rightarrow>
             (case split_first unique_node of
                Some _ \<Rightarrow> (Inr (Some node), s)
              | None \<Rightarrow>
                  (case try_new index of
                     None \<Rightarrow> (Inl Panic, s)
                   | Some child_index \<Rightarrow>
                       (case node of
                          Leaf _ _ \<Rightarrow> (Inr (Some node), s)
                        | Branch p v children \<Rightarrow>
                            (case children_take children child_index of
                               (None, children) \<Rightarrow> (Inr (Some (Branch p v children)), s)
                             | (Some ch, children) \<Rightarrow>
                                 sbind (on_store (read_for_update rd ch)) (\<lambda>child.
                                 sbind (\<lambda>s. remove_prefix_helper fuel rd child path s) (\<lambda>child.
                                 on_store (flatten_branch rd p v
                                   (children(child_index := map_option ChildNode child))))) s)))))"
  by pat_completeness auto

termination remove_prefix_helper
  by (relation "measure (\<lambda>(fuel, rd, node, key, s). length key)") (auto dest: split_first_po_shorter)

definition remove_prefix_from_iter :: "nat \<Rightarrow> reader \<Rightarrow> path \<Rightarrow> (mutable_store, nat) sresult" where
  "remove_prefix_from_iter fuel rd key s =
     (case ms_root s of
        None \<Rightarrow> (Inr 0, s)
      | Some root_node \<Rightarrow>
          (case remove_prefix_helper fuel rd root_node key (s\<lparr>ms_root := None\<rparr>, 0) of
             (Inl e, (s, deleted)) \<Rightarrow> (Inl e, s)
           | (Inr root_node, (s, deleted)) \<Rightarrow> (Inr deleted, s\<lparr>ms_root := root_node\<rparr>)))"

definition remove_prefix :: "nat \<Rightarrow> reader \<Rightarrow> u8 list \<Rightarrow> (mutable_store, nat) sresult" where
  "remove_prefix fuel rd key =
     remove_prefix_from_iter fuel rd (path_from_nibbles_iterator (nibbles key))"

declare get_helper.simps [simp del] insert_helper.simps [simp del]
  remove_helper.simps [simp del] remove_prefix_helper.simps [simp del]

subsection \<open>Lookup finds the value of the trie\<close>

lemma lookup_t_at: "lookup_t t (tpath t) = below t []"
  using lookup_t_append [of t "[]"] by simp

lemma lookup_t_above: "lookup_t t k = None" if "tpath t = k @ y # q"
  using that lookup_t_prefix [of t k] by (cases "lookup_t t k") (auto simp: prefix_def)

lemma lookup_t_apart: "lookup_t t (s @ x # k) = None" if "tpath t = s @ y # q" "x \<noteq> y"
  using that lookup_t_prefix [of t "s @ x # k"] by (cases "lookup_t t (s @ x # k)") auto

lemma get_helper_at: "get_helper rd n (partial_path n) = Inr (Some n)"
  by (subst get_helper.simps) (simp add: po_simps)

lemma get_helper_off:
  "unique_b (po_from k (partial_path n)) \<noteq> [] \<Longrightarrow> get_helper rd n k = Inr None"
  by (subst get_helper.simps) (auto simp: Let_def split: option.splits)

lemma get_helper_below_leaf: "get_helper rd (Leaf p v) (p @ as_u8 c # k) = Inr None"
  by (subst get_helper.simps) (simp add: po_simps)

lemma get_helper_below:
  "get_helper rd (Branch p v cs) (p @ as_u8 c # k) =
     (case cs c of
        None \<Rightarrow> Inr None
      | Some ch \<Rightarrow> rbind (child_as_shared_node ch rd) (\<lambda>child. get_helper rd child k))"
  by (subst get_helper.simps) (simp add: po_simps)

lemma node_value_repr: "repr rd n t A \<Longrightarrow> node_value n = below t []"
  by (auto elim: repr.cases)

lemma get_helper_repr:
  assumes "repr rd n t A" "valid_path k"
  shows "\<exists>res. get_helper rd n k = Inr res \<and> Option.bind res node_value = lookup_t t k"
  using assms
proof (induction arbitrary: k rule: repr.induct)
  case (repr_Leaf p v)
  show ?case
  proof (cases k p rule: po_cases)
    case (below x k')
    moreover then obtain c where "x = as_u8 c" using repr_Leaf by (auto elim: less_16_cases)
    ultimately show ?thesis by (simp add: get_helper_below_leaf)
  qed (use get_helper_at [of rd "Leaf p v"] in \<open>simp_all add: get_helper_off\<close>)
next
  case (repr_Branch cs ts As p v)
  let ?n = "Branch p v cs" and ?t = "TBranch p v ts"
  show ?case
  proof (cases k p rule: po_cases)
    case at
    then show ?thesis using get_helper_at [of rd ?n] lookup_t_at [of ?t] by simp
  next
    case (above y q)
    then show ?thesis using lookup_t_above [of ?t k y q] by (simp add: get_helper_off)
  next
    case (apart s x k' y q)
    then show ?thesis using lookup_t_apart [of ?t s y q x k'] by (simp add: get_helper_off)
  next
    case (below x k')
    then obtain c where x: "x = as_u8 c" and k': "valid_path k'"
      using repr_Branch.prems by (auto elim: less_16_cases)
    have look: "lookup_t ?t k = Option.bind (ts c) (\<lambda>t. lookup_t t k')"
      using lookup_t_append [of ?t "x # k'"] below(1) x by simp
    show ?thesis
    proof (cases "cs c")
      case None
      then show ?thesis using repr_Branch.hyps look below(1) x by (simp add: get_helper_below)
    next
      case (Some ch)
      then obtain n t where "child_as_shared_node ch rd = Inr n" "ts c = Some t"
        "\<exists>res. get_helper rd n k' = Inr res \<and> Option.bind res node_value = lookup_t t k'"
        using repr_Branch.IH k' by blast
      then show ?thesis using look below(1) x Some by (auto simp: get_helper_below)
    qed
  qed
qed

subsection \<open>Insertion updates the map\<close>

text \<open>
  The equations of \<open>insert_helper\<close> for the four positions of the key relative to the node.
\<close>

lemma insert_helper_at:
  "insert_helper rd n (partial_path n) v s = (Inr (update_value n v), s)"
  by (subst insert_helper.simps) (simp add: po_simps)

lemma insert_helper_above:
  "partial_path n = k @ as_u8 i # q \<Longrightarrow>
   insert_helper rd n k v s =
     (Inr (Branch k (Some v) (children_new(i := Some (ChildNode (update_partial_path n q))))), s)"
  by (subst insert_helper.simps) (simp add: po_simps)

lemma insert_helper_below_leaf:
  "insert_helper rd (Leaf p w) (p @ as_u8 i # k) v s =
     (Inr (Branch p (Some w) (children_new(i := Some (ChildNode (Leaf k v))))), s)"
  by (subst insert_helper.simps) (simp add: po_simps)

lemma insert_helper_below:
  "insert_helper rd (Branch p w cs) (p @ as_u8 i # k) v s =
     (case cs i of
        None \<Rightarrow> (Inr (Branch p w (cs(i := Some (ChildNode (Leaf k v))))), s)
      | Some ch \<Rightarrow>
          sbind (read_for_update rd ch) (\<lambda>child.
          sbind (insert_helper rd child k v) (\<lambda>child.
          sreturn (Branch p w (cs(i := Some (ChildNode child)))))) s)"
  by (subst insert_helper.simps) (simp add: po_simps children_take_def split: option.splits)

lemma insert_helper_apart:
  "partial_path n = q @ as_u8 j # p \<Longrightarrow> i \<noteq> j \<Longrightarrow>
   insert_helper rd n (q @ as_u8 i # k) v s =
     (Inr (Branch q None (children_new(j := Some (ChildNode (update_partial_path n p)),
                                       i := Some (ChildNode (Leaf k v))))), s)"
  by (subst insert_helper.simps) (simp add: po_simps)

text \<open>
  The result of an update of a subtrie: the new node represents a trie \<open>t'\<close>, and the hashed nodes
  \<open>A\<close> of the old one are those of the new one together with those put on the future-delete log.
\<close>

definition insert_post ::
  "reader \<Rightarrow> trie \<Rightarrow> maybe_persisted multiset \<Rightarrow> path \<Rightarrow> val \<Rightarrow> mutable_store \<Rightarrow>
   node io_result \<times> mutable_store \<Rightarrow> bool" where
  "insert_post rd t A k v s r \<longleftrightarrow>
     (\<exists>n' s' t' A' D. r = (Inr n', s') \<and> tracked s s' D \<and> repr rd n' t' A' \<and> A = A' + D \<and>
        valid_t t' \<and> (canon t \<longrightarrow> canon t') \<and> lookup_t t' = (lookup_t t)(k \<mapsto> v))"

lemma insert_postI:
  assumes "repr rd n' t' A" "valid_t t'" "canon t \<Longrightarrow> canon t'" "lookup_t t' = (lookup_t t)(k \<mapsto> v)"
  shows "insert_post rd t A k v s (Inr n', s)"
  unfolding insert_post_def
  using assms by (intro exI [of _ n'] exI [of _ s] exI [of _ t'] exI [of _ A] exI [of _ "{#}"]) simp

lemma insert_at_post:
  assumes "repr rd n t A" "valid_t t"
  shows "insert_post rd t A (partial_path n) v s (insert_helper rd n (partial_path n) v s)"
proof (cases n)
  case (Leaf p w)
  with assms show ?thesis
    unfolding insert_helper_at
    by (intro insert_postI [of _ _ "TLeaf p v"]) (auto intro: repr_Leaf)
next
  case (Branch p w cs)
  then obtain ts where t: "t = TBranch p w ts" using assms(1) by (auto elim: repr_BranchE)
  show ?thesis
    unfolding insert_helper_at
  proof (rule insert_postI [of _ _ "TBranch p (Some v) ts"])
    show "repr rd (update_value n v) (TBranch p (Some v) ts) A"
      using assms(1) Branch t by (auto intro: repr_Branch_value)
    show "lookup_t (TBranch p (Some v) ts) = (lookup_t t)(partial_path n \<mapsto> v)"
      using Branch t lookup_t_TBranch_value by simp
  qed (use assms t in auto)
qed

lemma insert_above_post:
  assumes "repr rd n t A" "valid_t t" "partial_path n = k @ as_u8 i # q"
  shows "insert_post rd t A k v s (insert_helper rd n k v s)"
  unfolding insert_helper_above [OF assms(3)]
proof (rule insert_postI [of _ _ "TBranch k (Some v) ((\<lambda>_. None)(i := Some (set_tpath t q)))"])
  show "repr rd (Branch k (Some v) (children_new(i := Some (ChildNode (update_partial_path n q)))))
     (TBranch k (Some v) ((\<lambda>_. None)(i := Some (set_tpath t q)))) A"
    by (rule repr_wrap [OF assms(1)])
  show "lookup_t (TBranch k (Some v) ((\<lambda>_. None)(i := Some (set_tpath t q)))) = (lookup_t t)(k \<mapsto> v)"
    using lookup_t_wrap [of t k i q] lookup_t_TBranch_value [of k v _ None] repr_tpath [OF assms(1)]
      assms(3) by simp
qed (use assms valid_t_tpath [OF assms(2)] repr_tpath [OF assms(1)] in \<open>auto intro: valid_t_set_tpath\<close>)

lemma insert_apart_post:
  assumes "repr rd n t A" "valid_t t" "partial_path n = q @ as_u8 j # p" "i \<noteq> j" "valid_path k"
  shows "insert_post rd t A (q @ as_u8 i # k) v s (insert_helper rd n (q @ as_u8 i # k) v s)"
  unfolding insert_helper_apart [OF assms(3,4)]
proof (rule insert_postI [of _ _ "TBranch q None ((\<lambda>_. None)(j := Some (set_tpath t p), i := Some (TLeaf k v)))"])
  have path: "tpath t = q @ as_u8 j # p" using repr_tpath [OF assms(1)] assms(3) by simp
  show "repr rd (Branch q None (children_new(j := Some (ChildNode (update_partial_path n p)),
      i := Some (ChildNode (Leaf k v)))))
     (TBranch q None ((\<lambda>_. None)(j := Some (set_tpath t p), i := Some (TLeaf k v)))) A"
    using repr_Branch_add [OF repr_wrap [OF assms(1)] _ repr_Leaf, where i = i and w = None] assms(4)
    by simp
  show "lookup_t (TBranch q None ((\<lambda>_. None)(j := Some (set_tpath t p), i := Some (TLeaf k v)))) =
     (lookup_t t)(q @ as_u8 i # k \<mapsto> v)"
    unfolding lookup_t_wrap [OF path, symmetric]
    by (rule lookup_t_TBranch_slot) (use assms(4) in auto)
  show "valid_t (TBranch q None ((\<lambda>_. None)(j := Some (set_tpath t p), i := Some (TLeaf k v))))"
    using valid_t_tpath [OF assms(2)] path assms by (auto intro: valid_t_set_tpath)
  show "canon t \<Longrightarrow> canon (TBranch q None ((\<lambda>_. None)(j := Some (set_tpath t p), i := Some (TLeaf k v))))"
    using assms(4) by auto
qed

lemma insert_below_leaf_post:
  assumes "valid_path p" "valid_path k"
  shows "insert_post rd (TLeaf p w) {#} (p @ as_u8 i # k) v s
           (insert_helper rd (Leaf p w) (p @ as_u8 i # k) v s)"
  unfolding insert_helper_below_leaf
proof (rule insert_postI [of _ _ "TBranch p (Some w) ((\<lambda>_. None)(i := Some (TLeaf k v)))"])
  show "repr rd (Branch p (Some w) (children_new(i := Some (ChildNode (Leaf k v)))))
     (TBranch p (Some w) ((\<lambda>_. None)(i := Some (TLeaf k v)))) {#}"
    using repr_Branch_add [OF repr_Branch_empty _ repr_Leaf] by simp
  show "lookup_t (TBranch p (Some w) ((\<lambda>_. None)(i := Some (TLeaf k v)))) =
     (lookup_t (TLeaf p w))(p @ as_u8 i # k \<mapsto> v)"
    unfolding lookup_t_leaf_branch [symmetric] by (rule lookup_t_TBranch_slot) auto
qed (use assms in auto)

lemma insert_below_post:
  assumes br: "repr rd (Branch p w cs) (TBranch p w ts) A"
    and valid: "valid_t (TBranch p w ts)" "valid_path k"
    and IH: "\<And>ch n u B s. cs i = Some ch \<Longrightarrow> child_as_shared_node ch rd = Inr n \<Longrightarrow>
      repr rd n u B \<Longrightarrow> ts i = Some u \<Longrightarrow> insert_post rd u B k v s (insert_helper rd n k v s)"
  shows "insert_post rd (TBranch p w ts) A (p @ as_u8 i # k) v s
           (insert_helper rd (Branch p w cs) (p @ as_u8 i # k) v s)"
proof (rule repr_Branch_slot [OF br, of i], goal_cases)
  case (1 R)
  note slot = this
  have canon: "canon (TBranch p w ts) \<Longrightarrow> canon u \<Longrightarrow> canon (TBranch p w (ts(i := Some u)))" for u
    by (rule canon_TBranch_upd)
  show ?thesis
  proof (cases "cs i")
    case None
    have "insert_post rd (TBranch p w ts) A (p @ as_u8 i # k) v s
        (Inr (Branch p w (cs(i := Some (ChildNode (Leaf k v))))), s)"
    proof (rule insert_postI [of _ _ "TBranch p w (ts(i := Some (TLeaf k v)))"])
      show "repr rd (Branch p w (cs(i := Some (ChildNode (Leaf k v)))))
          (TBranch p w (ts(i := Some (TLeaf k v)))) A"
        using slot(4) [OF repr_Leaf] slot(1) [OF None] by simp
      show "lookup_t (TBranch p w (ts(i := Some (TLeaf k v)))) =
          (lookup_t (TBranch p w ts))(p @ as_u8 i # k \<mapsto> v)"
        by (rule lookup_t_TBranch_slot) (use slot(1) [OF None] in auto)
    qed (use valid canon in \<open>simp_all del: canon_TBranch\<close>)
    then show ?thesis by (simp add: insert_helper_below None)
  next
    case (Some ch)
    from slot(2) [OF Some] obtain n u B where n: "child_as_shared_node ch rd = Inr n" "repr rd n u B"
      "ts i = Some u" "A = R + child_hashed ch + B" by blast
    obtain s1 where s1: "read_for_update rd ch s = (Inr n, s1)" "tracked s s1 (child_hashed ch)"
      using read_for_update_ok [OF n(1)] by blast
    from IH [OF Some n(1-3), of s1] obtain n' s' u' B' D where ins:
      "insert_helper rd n k v s1 = (Inr n', s')" "tracked s1 s' D" "repr rd n' u' B'" "B = B' + D"
      "valid_t u'" "canon u \<longrightarrow> canon u'" "lookup_t u' = (lookup_t u)(k \<mapsto> v)"
      unfolding insert_post_def by blast
    have "lookup_t (TBranch p w (ts(i := Some u'))) =
        (lookup_t (TBranch p w ts))(p @ as_u8 i # k \<mapsto> v)"
      by (rule lookup_t_TBranch_slot) (use n(3) ins(7) in auto)
    moreover have "canon (TBranch p w ts) \<Longrightarrow> canon (TBranch p w (ts(i := Some u')))"
      using canon n(3) ins(6) by auto
    moreover have "tracked s s' (child_hashed ch + D)" using s1(2) ins(2) by (rule tracked_trans)
    moreover have "A = (R + B') + (child_hashed ch + D)" using n(4) ins(4) by simp
    moreover have "valid_t (TBranch p w (ts(i := Some u')))" using valid ins(5) by auto
    moreover have "insert_helper rd (Branch p w cs) (p @ as_u8 i # k) v s =
        (Inr (Branch p w (cs(i := Some (ChildNode n')))), s')"
      by (simp add: insert_helper_below Some monad_simps s1(1) ins(1))
    ultimately show ?thesis using slot(4) [OF ins(3)] unfolding insert_post_def by blast
  qed
qed

lemma insert_helper_post:
  "repr rd n t A \<Longrightarrow> valid_t t \<Longrightarrow> valid_path k \<Longrightarrow>
   insert_post rd t A k v s (insert_helper rd n k v s)"
proof (induction t arbitrary: n A k s rule: trie_induct)
  case (TLeaf p w)
  note r = TLeaf.prems(1) and valid = TLeaf.prems(2,3)
  from r have n: "n = Leaf p w" "A = {#}" by auto
  show ?case
  proof (cases k p rule: po_cases)
    case (at)
    then show ?thesis using insert_at_post [OF r] valid n by simp
  next
    case (above y q)
    then obtain i where "y = as_u8 i" using valid by (auto elim: less_16_cases)
    then show ?thesis using insert_above_post [OF r] valid above n by simp
  next
    case (below x k')
    then obtain i where "x = as_u8 i" using valid by (auto elim: less_16_cases)
    then show ?thesis using insert_below_leaf_post below valid n by simp
  next
    case (apart q x k' y p')
    then have "x < 16" "y < 16" using valid by auto
    then obtain i j where "x = as_u8 i" "y = as_u8 j" by (metis less_16_cases)
    then show ?thesis using insert_apart_post [OF r, of q j p' i k'] valid apart n by simp
  qed
next
  case (TBranch p w ts)
  note r = TBranch.prems(1) and valid = TBranch.prems(2,3)
  from r obtain cs where n: "n = Branch p w cs" by (auto elim: repr_TBranchE)
  show ?case
  proof (cases k p rule: po_cases)
    case (at)
    then show ?thesis using insert_at_post [OF r valid(1)] n by simp
  next
    case (above y q)
    then obtain i where "y = as_u8 i" using valid by (auto elim: less_16_cases)
    then show ?thesis using insert_above_post [OF r valid(1)] above n by simp
  next
    case (below x k')
    then obtain i where i: "x = as_u8 i" using valid by (auto elim: less_16_cases)
    have "insert_post rd (TBranch p w ts) A (p @ as_u8 i # k') v s
        (insert_helper rd (Branch p w cs) (p @ as_u8 i # k') v s)"
      by (rule insert_below_post [OF r [unfolded n] valid(1)])
        (use valid below in \<open>auto intro!: TBranch.IH\<close>)
    then show ?thesis using below i n by simp
  next
    case (apart q x k' y p')
    then have "x < 16" "y < 16" using valid by auto
    then obtain i j where "x = as_u8 i" "y = as_u8 j" by (metis less_16_cases)
    then show ?thesis using insert_apart_post [OF r valid(1), of q j p' i k'] valid apart n by simp
  qed
qed

end
