(* ===== verification/Merkle_Remove.thy ===== *)
theory Merkle_Remove
  imports Merkle
begin

section \<open>Removal is correct\<close>

text \<open>
  The lemmas on \<open>flatten_branch\<close>, \<open>remove_helper\<close>, \<open>delete_children\<close> and \<open>remove_prefix_helper\<close>
  of \<open>firewood/src/merkle/mod.rs\<close>: the map after the operation, the canonical form of the result, the
  returned value or count, and that each hashed node that leaves the trie is put on the
  future-delete log exactly once.
\<close>

subsection \<open>A subtrie that may have vanished\<close>

fun repr_o :: "reader \<Rightarrow> node option \<Rightarrow> trie option \<Rightarrow> maybe_persisted multiset \<Rightarrow> bool" where
  "repr_o rd None None A = (A = {#})"
| "repr_o rd (Some n) (Some t) A = repr rd n t A"
| "repr_o rd _ _ A = False"

definition lookup_o :: "trie option \<Rightarrow> path \<Rightarrow> val option" where
  "lookup_o t k = Option.bind t (\<lambda>t. lookup_t t k)"

lemma lookup_o_simps [simp]: "lookup_o None = (\<lambda>_. None)" "lookup_o (Some t) = lookup_t t"
  by (auto simp: lookup_o_def)

abbreviation all_o :: "(trie \<Rightarrow> bool) \<Rightarrow> trie option \<Rightarrow> bool" where
  "all_o P t \<equiv> pred_option P t"

subsection \<open>Flattening a branch\<close>

lemma flatten_scan_NoChild:
  "flatten_scan ps v cs = NoChild \<longleftrightarrow> (\<forall>i \<in> set ps. cs i = None)"
  by (induction "ps") (auto split: option.splits)

lemma flatten_scan_OnlyChild:
  "distinct ps \<Longrightarrow> flatten_scan ps v cs = OnlyChild i ch \<Longrightarrow>
   v = None \<and> i \<in> set ps \<and> cs i = Some ch \<and> (\<forall>j \<in> set ps. j \<noteq> i \<longrightarrow> cs j = None)"
  by (induction "ps") (auto split: option.splits if_splits simp: list_ex_iff)

lemma flatten_scan_KeepBranch:
  "distinct ps \<Longrightarrow> flatten_scan ps v cs = KeepBranch \<Longrightarrow>
   (\<exists>i \<in> set ps. cs i \<noteq> None) \<and>
   (v \<noteq> None \<or> (\<exists>i \<in> set ps. \<exists>j \<in> set ps. i \<noteq> j \<and> cs i \<noteq> None \<and> cs j \<noteq> None))"
proof (induction "ps")
  case (Cons i "ps")
  show ?case
  proof (cases "cs i")
    case None
    with Cons show ?thesis by auto
  next
    case (Some ch)
    with Cons.prems show ?thesis by (auto split: if_splits simp: list_ex_iff)
  qed
qed simp

definition flatten_post ::
  "reader \<Rightarrow> trie \<Rightarrow> maybe_persisted multiset \<Rightarrow> mutable_store \<Rightarrow>
   node option io_result \<times> mutable_store \<Rightarrow> bool" where
  "flatten_post rd t A s r \<longleftrightarrow>
     (\<exists>n' s' t' A' D. r = (Inr n', s') \<and> tracked s s' D \<and> repr_o rd n' t' A' \<and> A = A' + D \<and>
        all_o valid_t t' \<and> all_o canon t' \<and> lookup_o t' = lookup_t t)"

lemma flatten_postI:
  assumes "repr_o rd n' t' A" "all_o valid_t t'" "all_o canon t'" "lookup_o t' = lookup_t t"
  shows "flatten_post rd t A s (Inr n', s)"
  unfolding flatten_post_def
  using assms by (intro exI [of _ n'] exI [of _ s] exI [of _ t'] exI [of _ A] exI [of _ "{#}"]) simp

lemma repr_no_children: "repr rd (Branch p v (\<lambda>_. None)) t A \<Longrightarrow> t = TBranch p v (\<lambda>_. None) \<and> A = {#}"
  by (auto elim!: repr_BranchE)

lemma flatten_only_child_post:
  assumes br: "repr rd (Branch p None cs) (TBranch p None ts) A"
    and valid: "valid_t (TBranch p None ts)"
    and canon: "\<And>c t. ts c = Some t \<Longrightarrow> canon t"
    and only: "cs i = Some ch" "\<And>j. j \<noteq> i \<Longrightarrow> cs j = None"
    and scan: "flatten_scan pc_ALL None cs = OnlyChild i ch"
  shows "flatten_post rd (TBranch p None ts) A s (flatten_branch rd p None cs s)"
proof (rule repr_Branch_slot [OF br, of i], goal_cases)
  case (1 R)
  have "cs(i := None) = (\<lambda>_. None)" using only(2) by auto
  with 1(3) [of None] have R: "R = {#}" "ts(i := None) = (\<lambda>_. None)"
    using repr_no_children [of rd p None] by auto
  from 1(2) [OF only(1)] R obtain n u where n: "child_as_shared_node ch rd = Inr n" "repr rd n u (A - child_hashed ch)"
      "ts i = Some u" "A = (A - child_hashed ch) + child_hashed ch"
    by (metis add.commute add_cancel_right_left add_diff_cancel_left')
  have ts: "ts = (\<lambda>_. None)(i := Some u)"
    using R(2) n(3) by (metis fun_upd_triv fun_upd_upd)
  obtain s' where s': "read_for_update rd ch s = (Inr n, s')" "tracked s s' (child_hashed ch)"
    using read_for_update_ok [OF n(1)] by blast
  let ?q = "p @ as_u8 i # tpath u"
  have path: "partial_path n = tpath u" using repr_tpath [OF n(2)] by simp
  have "flatten_branch rd p None cs s = (Inr (Some (update_partial_path n ?q)), s')"
    by (simp add: flatten_branch_def scan monad_simps s'(1) path)
  moreover have "repr_o rd (Some (update_partial_path n ?q)) (Some (set_tpath u ?q)) (A - child_hashed ch)"
    using repr_update_partial_path [OF n(2)] by simp
  moreover have "lookup_t (set_tpath u ?q) = lookup_t (TBranch p None ts)"
    using lookup_t_wrap [of "set_tpath u ?q" p i "tpath u"] by (simp add: ts)
  moreover have "valid_t u" using valid n(3) by simp
  then have "valid_t (set_tpath u ?q)" using valid by (simp add: valid_t_set_tpath valid_t_tpath)
  moreover have "canon (set_tpath u ?q)" using canon [OF n(3)] by simp
  ultimately show ?case
    unfolding flatten_post_def using s'(2) n(4)
    by (intro exI [of _ "Some (update_partial_path n ?q)"] exI [of _ s'] exI [of _ "Some (set_tpath u ?q)"]
        exI [of _ "A - child_hashed ch"] exI [of _ "child_hashed ch"]) simp
qed

lemma flatten_branch_post:
  assumes br: "repr rd (Branch p v cs) (TBranch p v ts) A"
    and valid: "valid_t (TBranch p v ts)"
    and canon: "\<And>c t. ts c = Some t \<Longrightarrow> canon t"
  shows "flatten_post rd (TBranch p v ts) A s (flatten_branch rd p v cs s)"
proof -
  note dom = repr_slot_None [OF br]
  show ?thesis
  proof (cases "flatten_scan pc_ALL v cs")
    case NoChild
    then have "cs = (\<lambda>_. None)" by (auto simp: flatten_scan_NoChild fun_eq_iff)
    moreover from this have ts: "ts = (\<lambda>_. None)" using dom by auto
    moreover have "A = {#}" using br calculation by (auto elim!: repr_BranchE)
    ultimately show ?thesis using valid
      unfolding flatten_branch_def NoChild
      by (cases v) (auto intro!: flatten_postI [where t' = "map_option (TLeaf p) v"] repr_Leaf
          simp: lookup_t_empty_branch lookup_t_leaf_branch)
  next
    case KeepBranch
    then have "canon (TBranch p v ts)"
      using flatten_scan_KeepBranch [of pc_ALL v cs] dom canon by fastforce
    then show ?thesis
      unfolding flatten_branch_def KeepBranch flatten_scan_result.case
      using br valid by (intro flatten_postI [where t' = "Some (TBranch p v ts)"]) auto
  next
    case (OnlyChild i ch)
    with flatten_scan_OnlyChild [of pc_ALL v cs i ch]
    have v: "v = None" and only: "cs i = Some ch" "\<And>j. j \<noteq> i \<Longrightarrow> cs j = None" by auto
    show ?thesis
      using flatten_only_child_post [OF br [unfolded v] valid [unfolded v] canon only] OnlyChild v by simp
  qed
qed

subsection \<open>Removing a key\<close>

lemma remove_helper_off:
  "unique_b (po_from k (partial_path n)) \<noteq> [] \<Longrightarrow> remove_helper rd n k s = (Inr (Some n, None), s)"
  by (subst remove_helper.simps) (auto simp: Let_def split: option.splits)

lemma remove_helper_at_leaf: "remove_helper rd (Leaf p v) p s = (Inr (None, Some v), s)"
  by (subst remove_helper.simps) (simp add: po_simps)

lemma remove_helper_at_branch:
  "remove_helper rd (Branch p v cs) p s =
     (case v of
        None \<Rightarrow> (Inr (Some (Branch p None cs), None), s)
      | Some w \<Rightarrow> sbind (flatten_branch rd p None cs) (\<lambda>n. sreturn (n, Some w)) s)"
  by (subst remove_helper.simps) (simp add: po_simps)

lemma remove_helper_below_leaf:
  "remove_helper rd (Leaf p v) (p @ as_u8 i # k) s = (Inr (Some (Leaf p v), None), s)"
  by (subst remove_helper.simps) (simp add: po_simps)

lemma remove_helper_below:
  "remove_helper rd (Branch p v cs) (p @ as_u8 i # k) s =
     (case cs i of
        None \<Rightarrow> (Inr (Some (Branch p v (cs(i := None))), None), s)
      | Some ch \<Rightarrow>
          sbind (read_for_update rd ch) (\<lambda>child.
          sbind (remove_helper rd child k) (\<lambda>(child, removed).
          sbind (flatten_branch rd p v (cs(i := map_option ChildNode child))) (\<lambda>n.
          sreturn (n, removed)))) s)"
  by (subst remove_helper.simps) (simp add: po_simps children_take_def split: option.splits)

definition remove_post ::
  "reader \<Rightarrow> trie \<Rightarrow> maybe_persisted multiset \<Rightarrow> path \<Rightarrow> mutable_store \<Rightarrow>
   (node option \<times> val option) io_result \<times> mutable_store \<Rightarrow> bool" where
  "remove_post rd t A k s r \<longleftrightarrow>
     (\<exists>n' s' t' A' D. r = (Inr (n', lookup_t t k), s') \<and> tracked s s' D \<and> repr_o rd n' t' A' \<and>
        A = A' + D \<and> all_o valid_t t' \<and> all_o canon t' \<and> lookup_o t' = (lookup_t t)(k := None))"

lemma remove_postI:
  assumes "repr_o rd n' t' A" "all_o valid_t t'" "all_o canon t'" "lookup_o t' = (lookup_t t)(k := None)"
    "removed = lookup_t t k"
  shows "remove_post rd t A k s (Inr (n', removed), s)"
  unfolding remove_post_def
  using assms by (intro exI [of _ n'] exI [of _ s] exI [of _ t'] exI [of _ A] exI [of _ "{#}"]) simp

lemma remove_absent_post:
  assumes "repr rd n t A" "valid_t t" "canon t" "lookup_t t k = None"
  shows "remove_post rd t A k s (Inr (Some n, None), s)"
  using assms by (intro remove_postI [where t' = "Some t"]) auto

lemma remove_at_branch_post:
  assumes br: "repr rd (Branch p v cs) (TBranch p v ts) A"
    and valid: "valid_t (TBranch p v ts)" and canon: "canon (TBranch p v ts)"
  shows "remove_post rd (TBranch p v ts) A p s (remove_helper rd (Branch p v cs) p s)"
proof (cases v)
  case None
  then show ?thesis
    using remove_absent_post [OF br valid canon, of p s] lookup_t_at [of "TBranch p v ts"]
    by (simp add: remove_helper_at_branch)
next
  case (Some w)
  have "flatten_post rd (TBranch p None ts) A s (flatten_branch rd p None cs s)"
    by (rule flatten_branch_post) (use br valid canon in \<open>auto intro: repr_Branch_value\<close>)
  then obtain n' s' t' A' D where flat: "flatten_branch rd p None cs s = (Inr n', s')" "tracked s s' D"
    "repr_o rd n' t' A'" "A = A' + D" "all_o valid_t t'" "all_o canon t'"
    "lookup_o t' = lookup_t (TBranch p None ts)"
    unfolding flatten_post_def by blast
  have "remove_helper rd (Branch p v cs) p s = (Inr (n', lookup_t (TBranch p v ts) p), s')"
    using lookup_t_at [of "TBranch p v ts"] by (simp add: remove_helper_at_branch Some monad_simps flat(1))
  moreover have "lookup_o t' = (lookup_t (TBranch p v ts))(p := None)"
    by (simp only: flat(7) lookup_t_TBranch_value_None)
  ultimately show ?thesis unfolding remove_post_def using flat(2-6) by blast
qed

lemma remove_below_post:
  assumes br: "repr rd (Branch p w cs) (TBranch p w ts) A"
    and valid: "valid_t (TBranch p w ts)" and canon: "canon (TBranch p w ts)"
    and IH: "\<And>n u B s. ts i = Some u \<Longrightarrow> repr rd n u B \<Longrightarrow> remove_post rd u B k s (remove_helper rd n k s)"
  shows "remove_post rd (TBranch p w ts) A (p @ as_u8 i # k) s
           (remove_helper rd (Branch p w cs) (p @ as_u8 i # k) s)"
proof (rule repr_Branch_slot [OF br, of i], goal_cases)
  case (1 R)
  note slot = this
  have look: "lookup_t (TBranch p w ts) (p @ as_u8 i # k) = Option.bind (ts i) (\<lambda>t. lookup_t t k)"
    using lookup_t_append [of "TBranch p w ts" "as_u8 i # k"] by simp
  show ?case
  proof (cases "cs i")
    case None
    then have "cs(i := None) = cs" by auto
    then show ?thesis
      using remove_absent_post [OF br valid canon, of "p @ as_u8 i # k" s] look slot(1) [OF None]
      by (simp add: remove_helper_below None)
  next
    case (Some ch)
    from slot(2) [OF Some] obtain n u B where n: "child_as_shared_node ch rd = Inr n" "repr rd n u B"
      "ts i = Some u" "A = R + child_hashed ch + B" by blast
    obtain s1 where s1: "read_for_update rd ch s = (Inr n, s1)" "tracked s s1 (child_hashed ch)"
      using read_for_update_ok [OF n(1)] by blast
    from IH [OF n(3,2), of s1] obtain n' s2 u' B' D where rem:
      "remove_helper rd n k s1 = (Inr (n', lookup_t u k), s2)" "tracked s1 s2 D" "repr_o rd n' u' B'"
      "B = B' + D" "all_o valid_t u'" "all_o canon u'" "lookup_o u' = (lookup_t u)(k := None)"
      unfolding remove_post_def by blast
    let ?t' = "TBranch p w (ts(i := u'))"
    have "repr rd (Branch p w (cs(i := map_option ChildNode n'))) ?t' (R + B')"
      using slot(3,4) rem(3) by (cases n'; cases u') auto
    moreover have "valid_t ?t'" using valid rem(5) by (auto simp: option.pred_set)
    moreover have "canon t" if "(ts(i := u')) c = Some t" for c t
      using that canon rem(6) by (auto split: if_splits)
    ultimately have "flatten_post rd ?t' (R + B') s2
        (flatten_branch rd p w (cs(i := map_option ChildNode n')) s2)"
      by (rule flatten_branch_post)
    then obtain m s3 t'' A'' E where flat:
      "flatten_branch rd p w (cs(i := map_option ChildNode n')) s2 = (Inr m, s3)" "tracked s2 s3 E"
      "repr_o rd m t'' A''" "R + B' = A'' + E" "all_o valid_t t''" "all_o canon t''"
      "lookup_o t'' = lookup_t ?t'"
      unfolding flatten_post_def by blast
    have "lookup_t ?t' = (lookup_t (TBranch p w ts))(p @ as_u8 i # k := None)"
      by (rule lookup_t_TBranch_slot) (use n(3) fun_cong [OF rem(7)] in \<open>auto simp: lookup_o_def\<close>)
    then have "lookup_o t'' = (lookup_t (TBranch p w ts))(p @ as_u8 i # k := None)" using flat(7) by simp
    moreover have "tracked s s3 (child_hashed ch + D + E)"
      using tracked_trans [OF tracked_trans [OF s1(2) rem(2)] flat(2)] .
    moreover have "A = A'' + (child_hashed ch + D + E)" using n(4) rem(4) flat(4)
      by (metis add.assoc add.commute add.left_commute)
    moreover have "remove_helper rd (Branch p w cs) (p @ as_u8 i # k) s =
        (Inr (m, lookup_t (TBranch p w ts) (p @ as_u8 i # k)), s3)"
      by (simp add: remove_helper_below Some monad_simps s1(1) rem(1) flat(1) look n(3))
    ultimately show ?thesis unfolding remove_post_def using flat(3,5,6) by blast
  qed
qed

lemma remove_helper_post:
  "repr rd n t A \<Longrightarrow> valid_t t \<Longrightarrow> canon t \<Longrightarrow> valid_path k \<Longrightarrow>
   remove_post rd t A k s (remove_helper rd n k s)"
proof (induction t arbitrary: n A k s rule: trie_induct)
  case (TLeaf p w)
  note r = TLeaf.prems(1)
  from r have n: "n = Leaf p w" "A = {#}" by auto
  show ?case
  proof (cases k p rule: po_cases)
    case (at)
    then show ?thesis unfolding n remove_helper_at_leaf
      by (auto simp: remove_helper_at_leaf intro!: remove_postI [where t' = None])
  next
    case (below x k')
    then obtain i where "x = as_u8 i" using TLeaf.prems by (auto elim: less_16_cases)
    then show ?thesis
      using remove_absent_post [OF TLeaf.prems(1-3), of k s] below n by (simp add: remove_helper_below_leaf)
  qed (use remove_absent_post [OF TLeaf.prems(1-3), of k s] n in \<open>simp_all add: remove_helper_off\<close>)
next
  case (TBranch p w ts)
  from TBranch.prems(1) obtain cs where n: "n = Branch p w cs" by (auto elim: repr_TBranchE)
  note br = TBranch.prems(1) [unfolded n]
  note absent = remove_absent_post [OF TBranch.prems(1-3), of k s]
  show ?case
  proof (cases k p rule: po_cases)
    case (at)
    then show ?thesis using remove_at_branch_post [OF br TBranch.prems(2,3)] n by simp
  next
    case (above y q)
    then show ?thesis using absent lookup_t_above [of "TBranch p w ts"] n by (simp add: remove_helper_off)
  next
    case (apart q x k' y p')
    then show ?thesis using absent lookup_t_apart [of "TBranch p w ts"] n by (simp add: remove_helper_off)
  next
    case (below x k')
    then obtain i where i: "x = as_u8 i" using TBranch.prems by (auto elim: less_16_cases)
    have "remove_post rd (TBranch p w ts) A (p @ as_u8 i # k') s
        (remove_helper rd (Branch p w cs) (p @ as_u8 i # k') s)"
      by (rule remove_below_post [OF br TBranch.prems(2,3)])
        (use TBranch.prems below in \<open>auto intro!: TBranch.IH\<close>)
    then show ?thesis using below i n by simp
  qed
qed

end
