(* ===== verification/Merkle_Prefix.thy ===== *)
theory Merkle_Prefix
  imports Merkle_Remove
begin

section \<open>Removing all keys with a prefix\<close>

text \<open>
  The lemmas on \<open>delete_children\<close> and \<open>remove_prefix_helper\<close>: with a recursion bound of at least the
  depth of the trie they succeed, the counter grows by the number of removed keys, and
  every hashed node of the removed part is on the future-delete log.
\<close>

subsection \<open>Deleting a whole subtrie\<close>

definition sat_add :: "nat \<Rightarrow> nat \<Rightarrow> nat" where
  "sat_add d n = min (d + n) usize_max"

lemma sat_add_0 [simp]: "d \<le> usize_max \<Longrightarrow> sat_add d 0 = d"
  by (simp add: sat_add_def)

lemma sat_add_add [simp]: "sat_add (sat_add d m) n = sat_add d (m + n)"
  by (auto simp: sat_add_def)

lemma sat_add_le [simp]: "sat_add d n \<le> usize_max"
  by (simp add: sat_add_def)

lemma count_deleted_apply [simp]: "count_deleted (s, d) = (Inr (), (s, sat_add d 1))"
  by (simp add: count_deleted_def saturating_add1_def sat_add_def)

lemma on_store_ok: "m s = (r, s') \<Longrightarrow> on_store m (s, d) = (r, (s', d))"
  by (simp add: on_store_def)

text \<open>A step deletes \<open>n\<close> values and the hashed nodes \<open>D\<close>.\<close>

definition deletes :: "(mutable_store \<times> nat, unit) sresult \<Rightarrow> nat \<Rightarrow> maybe_persisted multiset \<Rightarrow> bool" where
  "deletes m n D \<longleftrightarrow>
     (\<forall>s d. d \<le> usize_max \<longrightarrow> (\<exists>s'. m (s, d) = (Inr (), (s', sat_add d n)) \<and> tracked s s' D))"

lemma deletesE:
  assumes "deletes m n D" "d \<le> usize_max"
  obtains s' where "m (s, d) = (Inr (), (s', sat_add d n))" "tracked s s' D"
  using assms unfolding deletes_def by blast

lemma deletes_return: "deletes (sreturn ()) 0 {#}"
  by (auto simp: deletes_def)

lemma deletes_count: "deletes count_deleted 1 {#}"
  by (auto simp: deletes_def)

lemma deletes_bind:
  assumes "deletes m n D" "deletes m' n' D'"
  shows "deletes (sbind m (\<lambda>_. m')) (n + n') (D + D')"
  unfolding deletes_def
proof (intro allI impI)
  fix s d assume "d \<le> usize_max"
  then obtain s1 where s1: "m (s, d) = (Inr (), (s1, sat_add d n))" "tracked s s1 D"
    by (rule deletesE [OF assms(1)])
  obtain s2 where "m' (s1, sat_add d n) = (Inr (), (s2, sat_add d (n + n')))" "tracked s1 s2 D'"
    by (rule deletesE [OF assms(2), of "sat_add d n"]) auto
  with s1 show "\<exists>s'. sbind m (\<lambda>_. m') (s, d) = (Inr (), (s', sat_add d (n + n'))) \<and> tracked s s' (D + D')"
    by (auto simp: monad_simps intro: tracked_trans)
qed

lemma deletes_for:
  assumes "\<And>i. deletes (f i) (n i) (D i)" "distinct ps"
  shows "deletes (sfor f ps) (\<Sum>i \<in> set ps. n i) (\<Sum>i \<in> set ps. D i)"
  using assms(2)
proof (induction ps)
  case (Cons i ps)
  then show ?case using deletes_bind [OF assms(1)] by simp
qed (simp add: deletes_return)

lemma deletes_read:
  assumes "child_as_shared_node ch rd = Inr n" "deletes (f n) k D"
  shows "deletes (sbind (on_store (read_for_update rd ch)) f) k (child_hashed ch + D)"
  unfolding deletes_def
proof (intro allI impI)
  fix s d assume "d \<le> usize_max"
  obtain s1 where s1: "read_for_update rd ch s = (Inr n, s1)" "tracked s s1 (child_hashed ch)"
    using read_for_update_ok [OF assms(1)] by blast
  obtain s2 where "f n (s1, d) = (Inr (), (s2, sat_add d k))" "tracked s1 s2 D"
    by (rule deletesE [OF assms(2) \<open>d \<le> usize_max\<close>])
  with s1 show "\<exists>s'. sbind (on_store (read_for_update rd ch)) f (s, d) = (Inr (), (s', sat_add d k)) \<and>
      tracked s s' (child_hashed ch + D)"
    by (auto simp: monad_simps on_store_ok intro: tracked_trans)
qed

definition delete_subtrie :: "nat \<Rightarrow> reader \<Rightarrow> node \<Rightarrow> (mutable_store \<times> nat, unit) sresult" where
  "delete_subtrie fuel rd n =
     (case n of Branch _ w ds \<Rightarrow> delete_children fuel rd w ds | Leaf _ _ \<Rightarrow> count_deleted)"

lemma delete_children_Suc:
  "delete_children (Suc f) rd v cs =
     sbind (if v \<noteq> None then count_deleted else sreturn ()) (\<lambda>_.
     sfor (\<lambda>i. case cs i of None \<Rightarrow> sreturn ()
       | Some ch \<Rightarrow> sbind (on_store (read_for_update rd ch)) (delete_subtrie f rd)) pc_ALL)"
proof -
  have sub: "delete_subtrie f rd =
    (\<lambda>n. case n of Branch _ w ds \<Rightarrow> delete_children f rd w ds | Leaf _ _ \<Rightarrow> count_deleted)"
    by (rule ext) (simp add: delete_subtrie_def)
  show ?thesis unfolding sub delete_children.simps ..
qed

lemma deletes_subtrie:
  "repr rd n t A \<Longrightarrow> tdepth t \<le> fuel \<Longrightarrow> deletes (delete_subtrie fuel rd n) (value_count t) A"
proof (induction t arbitrary: n A fuel rule: trie_induct)
  case (TLeaf p v)
  then show ?case using deletes_count by (auto simp: delete_subtrie_def)
next
  case (TBranch p v ts)
  from TBranch.prems(1) obtain cs As where n: "n = Branch p v cs" "A = (\<Sum>c \<in> UNIV. As c)"
    "\<And>c. cs c = None \<Longrightarrow> ts c = None \<and> As c = {#}"
    "\<And>c ch. cs c = Some ch \<Longrightarrow> \<exists>n t A. child_as_shared_node ch rd = Inr n \<and> repr rd n t A \<and>
       ts c = Some t \<and> As c = child_hashed ch + A"
    by (auto elim!: repr_TBranchE)
  from TBranch.prems(2) obtain f where f: "fuel = Suc f" using tdepth_pos [of "TBranch p v ts"] by (cases fuel) auto
  let ?body = "\<lambda>i. case cs i of None \<Rightarrow> sreturn ()
       | Some ch \<Rightarrow> sbind (on_store (read_for_update rd ch)) (delete_subtrie f rd)"
  have "deletes (?body i) (case ts i of None \<Rightarrow> 0 | Some t \<Rightarrow> value_count t) (As i)" for i
  proof (cases "cs i")
    case None
    then show ?thesis using n(3) deletes_return by simp
  next
    case (Some ch)
    then obtain m u B where m: "child_as_shared_node ch rd = Inr m" "repr rd m u B" "ts i = Some u"
      "As i = child_hashed ch + B" using n(4) by blast
    moreover have "tdepth u \<le> f"
      using tdepth_child [of ts i u p v] m(3) TBranch.prems(2) f by simp
    ultimately show ?thesis
      using deletes_read [of ch rd m "delete_subtrie f rd", OF m(1) TBranch.IH [OF m(3,2)]] Some by simp
  qed
  then have "deletes (sfor ?body pc_ALL) (\<Sum>i \<in> UNIV. case ts i of None \<Rightarrow> 0 | Some t \<Rightarrow> value_count t) A"
    using deletes_for [of ?body _ As pc_ALL] n(2) by simp
  then have "deletes (sbind (if v \<noteq> None then count_deleted else sreturn ()) (\<lambda>_. sfor ?body pc_ALL))
      (value_count (TBranch p v ts)) A"
    using deletes_bind [OF deletes_count] deletes_bind [OF deletes_return] by (cases v) fastforce+
  then show ?case
    by (simp only: delete_children_Suc n(1) f delete_subtrie_def [of "Suc f" rd "Branch p v cs"] node.case)
qed

subsection \<open>The prefix helper\<close>

lemma remove_prefix_helper_inside:
  assumes "prefix k (partial_path n)"
  shows "remove_prefix_helper fuel rd n k s = sbind (delete_subtrie fuel rd n) (\<lambda>_. sreturn None) s"
proof -
  from assms obtain q where q: "partial_path n = k @ q" by (auto elim: prefixE)
  then have "unique_a (po_from k (partial_path n)) = []" by (simp add: po_simps)
  then show ?thesis
    by (subst remove_prefix_helper.simps) (simp add: Let_def delete_subtrie_def split: node.splits)
qed

lemma remove_prefix_helper_apart:
  "partial_path n = q @ y # p \<Longrightarrow> x \<noteq> y \<Longrightarrow>
   remove_prefix_helper fuel rd n (q @ x # k) s = (Inr (Some n), s)"
  by (subst remove_prefix_helper.simps) (simp add: po_simps)

lemma remove_prefix_helper_below_leaf:
  "remove_prefix_helper fuel rd (Leaf p v) (p @ as_u8 i # k) s = (Inr (Some (Leaf p v)), s)"
  by (subst remove_prefix_helper.simps) (simp add: po_simps)

lemma remove_prefix_helper_below:
  "remove_prefix_helper fuel rd (Branch p v cs) (p @ as_u8 i # k) s =
     (case cs i of
        None \<Rightarrow> (Inr (Some (Branch p v (cs(i := None)))), s)
      | Some ch \<Rightarrow>
          sbind (on_store (read_for_update rd ch)) (\<lambda>child.
          sbind (remove_prefix_helper fuel rd child k) (\<lambda>child.
          on_store (flatten_branch rd p v (cs(i := map_option ChildNode child))))) s)"
  by (subst remove_prefix_helper.simps) (simp add: po_simps children_take_def split: option.splits)

definition with_prefix :: "trie \<Rightarrow> path \<Rightarrow> path set" where
  "with_prefix t k = {l. prefix k l \<and> lookup_t t l \<noteq> None}"

definition prefix_post ::
  "reader \<Rightarrow> trie \<Rightarrow> maybe_persisted multiset \<Rightarrow> path \<Rightarrow> mutable_store \<Rightarrow> nat \<Rightarrow>
   node option io_result \<times> (mutable_store \<times> nat) \<Rightarrow> bool" where
  "prefix_post rd t A k s d r \<longleftrightarrow>
     (\<exists>n' s' t' A' D. r = (Inr n', (s', sat_add d (card (with_prefix t k)))) \<and> tracked s s' D \<and>
        repr_o rd n' t' A' \<and> A = A' + D \<and> all_o valid_t t' \<and> all_o canon t' \<and>
        lookup_o t' = (\<lambda>l. if prefix k l then None else lookup_t t l))"

lemma prefix_absent_post:
  assumes "repr rd n t A" "valid_t t" "canon t" "with_prefix t k = {}" "d \<le> usize_max"
  shows "prefix_post rd t A k s d (Inr (Some n), (s, d))"
proof -
  have "(\<lambda>l. if prefix k l then None else lookup_t t l) = lookup_t t"
    using assms(4) by (auto simp: with_prefix_def fun_eq_iff)
  then show ?thesis
    unfolding prefix_post_def assms(4)
    using assms(1-3,5)
    by (intro exI [of _ "Some n"] exI [of _ s] exI [of _ "Some t"] exI [of _ A] exI [of _ "{#}"]) simp
qed

lemma prefix_inside_post:
  assumes "repr rd n t A" "tdepth t \<le> fuel" "prefix k (partial_path n)" "d \<le> usize_max"
  shows "prefix_post rd t A k s d (remove_prefix_helper fuel rd n k (s, d))"
proof -
  have key: "prefix k l" if "lookup_t t l \<noteq> None" for l
    using lookup_t_prefix [OF that] repr_tpath [OF assms(1)] assms(3) by (auto intro: prefix_order.trans)
  then have "with_prefix t k = {l. lookup_t t l \<noteq> None}" by (auto simp: with_prefix_def)
  then have card: "card (with_prefix t k) = value_count t" by (simp only: card_lookup_t)
  obtain s' where "delete_subtrie fuel rd n (s, d) = (Inr (), (s', sat_add d (value_count t)))" "tracked s s' A"
    by (rule deletesE [OF deletes_subtrie [OF assms(1,2)] assms(4)])
  moreover have "(\<lambda>l. if prefix k l then None else lookup_t t l) = (\<lambda>_. None)"
    using key by (intro ext) (metis)
  ultimately show ?thesis
    unfolding prefix_post_def remove_prefix_helper_inside [OF assms(3)]
    by (intro exI [of _ None] exI [of _ s'] exI [of _ "{#}"] exI [of _ A]) (simp add: monad_simps card)
qed

lemma prefix_slot:
  assumes "\<And>r. Option.bind x (\<lambda>t. lookup_t t r) =
      (if prefix k r then None else Option.bind (ts i) (\<lambda>t. lookup_t t r))"
  shows "lookup_t (TBranch p w (ts(i := x))) =
    (\<lambda>l. if prefix (p @ as_u8 i # k) l then None else lookup_t (TBranch p w ts) l)"
proof
  fix l
  show "lookup_t (TBranch p w (ts(i := x))) l =
    (if prefix (p @ as_u8 i # k) l then None else lookup_t (TBranch p w ts) l)"
  proof (cases "strip (p @ [as_u8 i]) l")
    case None
    then have "\<not> prefix (p @ as_u8 i # k) l"
      by (metis append.assoc append_Cons append_Nil append_prefixD strip_eq_None)
    with None show ?thesis by (simp add: lookup_t_TBranch_upd)
  next
    case (Some r)
    then have l: "l = p @ as_u8 i # r" by (simp add: strip_eq_Some)
    then show ?thesis
      using Some assms lookup_t_append [of "TBranch p w ts" "as_u8 i # r"]
      by (simp add: lookup_t_TBranch_upd)
  qed
qed

lemma with_prefix_below:
  "with_prefix (TBranch p w ts) (p @ as_u8 i # k) =
     (\<lambda>r. p @ as_u8 i # r) ` (case ts i of None \<Rightarrow> {} | Some u \<Rightarrow> with_prefix u k)"
proof -
  have "l \<in> with_prefix (TBranch p w ts) (p @ as_u8 i # k) \<longleftrightarrow>
    (\<exists>r. l = p @ as_u8 i # r \<and> prefix k r \<and> Option.bind (ts i) (\<lambda>t. lookup_t t r) \<noteq> None)" for l
    using lookup_t_append [of "TBranch p w ts" "as_u8 i # r" for r]
    by (auto simp: with_prefix_def prefix_def)
  then show ?thesis by (cases "ts i") (auto simp: with_prefix_def)
qed

lemma card_with_prefix_below:
  "ts i = Some u \<Longrightarrow> card (with_prefix (TBranch p w ts) (p @ as_u8 i # k)) = card (with_prefix u k)"
  by (simp add: with_prefix_below card_image inj_on_def)

lemma prefix_below_post:
  assumes br: "repr rd (Branch p w cs) (TBranch p w ts) A"
    and valid: "valid_t (TBranch p w ts)" and canon: "canon (TBranch p w ts)" and d: "d \<le> usize_max"
    and IH: "\<And>n u B s. ts i = Some u \<Longrightarrow> repr rd n u B \<Longrightarrow>
      prefix_post rd u B k s d (remove_prefix_helper fuel rd n k (s, d))"
  shows "prefix_post rd (TBranch p w ts) A (p @ as_u8 i # k) s d
           (remove_prefix_helper fuel rd (Branch p w cs) (p @ as_u8 i # k) (s, d))"
proof (rule repr_Branch_slot [OF br, of i], goal_cases)
  case (1 R)
  note slot = this
  show ?case
  proof (cases "cs i")
    case None
    then have "cs(i := None) = cs" by auto
    then show ?thesis
      using prefix_absent_post [OF br valid canon _ d, of "p @ as_u8 i # k" s] slot(1) [OF None]
      by (simp add: remove_prefix_helper_below None with_prefix_below)
  next
    case (Some ch)
    from slot(2) [OF Some] obtain n u B where n: "child_as_shared_node ch rd = Inr n" "repr rd n u B"
      "ts i = Some u" "A = R + child_hashed ch + B" by blast
    obtain s1 where s1: "read_for_update rd ch s = (Inr n, s1)" "tracked s s1 (child_hashed ch)"
      using read_for_update_ok [OF n(1)] by blast
    define d' where "d' = sat_add d (card (with_prefix u k))"
    from IH [OF n(3,2), of s1] obtain n' s2 u' B' D where rem:
      "remove_prefix_helper fuel rd n k (s1, d) = (Inr n', (s2, d'))" "tracked s1 s2 D" "repr_o rd n' u' B'"
      "B = B' + D" "all_o valid_t u'" "all_o canon u'"
      "lookup_o u' = (\<lambda>l. if prefix k l then None else lookup_t u l)"
      unfolding prefix_post_def d'_def by blast
    let ?t' = "TBranch p w (ts(i := u'))"
    have "repr rd (Branch p w (cs(i := map_option ChildNode n'))) ?t' (R + B')"
      using slot(3,4) rem(3) by (cases n'; cases u') auto
    moreover have "valid_t ?t'" using valid rem(5) by (auto simp: option.pred_set)
    moreover have "canon t" if "(ts(i := u')) c = Some t" for c t
      using that canon rem(6) by (auto split: if_splits)
    ultimately have "flatten_post rd ?t' (R + B') s2
        (flatten_branch rd p w (cs(i := map_option ChildNode n')) s2)"
      by (rule flatten_branch_post)
    then obtain m s3 t'' A'' E where flat:
      "flatten_branch rd p w (cs(i := map_option ChildNode n')) s2 = (Inr m, s3)" "tracked s2 s3 E"
      "repr_o rd m t'' A''" "R + B' = A'' + E" "all_o valid_t t''" "all_o canon t''"
      "lookup_o t'' = lookup_t ?t'"
      unfolding flatten_post_def by blast
    have "lookup_t ?t' = (\<lambda>l. if prefix (p @ as_u8 i # k) l then None else lookup_t (TBranch p w ts) l)"
      by (rule prefix_slot) (use n(3) fun_cong [OF rem(7)] in \<open>auto simp: lookup_o_def\<close>)
    then have "lookup_o t'' = (\<lambda>l. if prefix (p @ as_u8 i # k) l then None else lookup_t (TBranch p w ts) l)"
      using flat(7) by simp
    moreover have "tracked s s3 (child_hashed ch + D + E)"
      using tracked_trans [OF tracked_trans [OF s1(2) rem(2)] flat(2)] .
    moreover have "A = A'' + (child_hashed ch + D + E)" using n(4) rem(4) flat(4)
      by (metis add.assoc add.commute add.left_commute)
    moreover have "remove_prefix_helper fuel rd (Branch p w cs) (p @ as_u8 i # k) (s, d) =
        (Inr m, (s3, sat_add d (card (with_prefix (TBranch p w ts) (p @ as_u8 i # k)))))"
      by (simp add: remove_prefix_helper_below Some monad_simps on_store_ok s1(1) rem(1) flat(1)
          card_with_prefix_below [of ts i u, OF n(3)] d'_def)
    ultimately show ?thesis unfolding prefix_post_def using flat(3,5,6) by blast
  qed
qed

lemma remove_prefix_helper_post:
  "repr rd n t A \<Longrightarrow> valid_t t \<Longrightarrow> canon t \<Longrightarrow> valid_path k \<Longrightarrow> tdepth t \<le> fuel \<Longrightarrow> d \<le> usize_max \<Longrightarrow>
   prefix_post rd t A k s d (remove_prefix_helper fuel rd n k (s, d))"
proof (induction t arbitrary: n A k s rule: trie_induct)
  case (TLeaf p w)
  from TLeaf.prems(1) have n: "n = Leaf p w" "A = {#}" by auto
  note absent = prefix_absent_post [OF TLeaf.prems(1-3) _ TLeaf.prems(6), of k s]
    and inside = prefix_inside_post [OF TLeaf.prems(1,5) _ TLeaf.prems(6), of k s]
  show ?case
  proof (cases k p rule: po_cases)
    case (below x k')
    then obtain i where "x = as_u8 i" using TLeaf.prems by (auto elim: less_16_cases)
    moreover have "with_prefix (TLeaf p w) k = {}" using below by (auto simp: with_prefix_def)
    ultimately show ?thesis using absent below n by (simp add: remove_prefix_helper_below_leaf)
  next
    case (apart q x k' y p')
    have "with_prefix (TLeaf p w) k = {}" using apart by (auto simp: with_prefix_def)
    then show ?thesis using absent apart n by (simp add: remove_prefix_helper_apart)
  qed (use inside n in auto)
next
  case (TBranch p w ts)
  from TBranch.prems(1) obtain cs where n: "n = Branch p w cs" by (auto elim: repr_TBranchE)
  note br = TBranch.prems(1) [unfolded n]
  note absent = prefix_absent_post [OF TBranch.prems(1-3) _ TBranch.prems(6), of k s]
    and inside = prefix_inside_post [OF TBranch.prems(1,5) _ TBranch.prems(6), of k s]
  show ?case
  proof (cases k p rule: po_cases)
    case (apart q x k' y p')
    have "with_prefix (TBranch p w ts) k = {}"
      using apart lookup_t_prefix [of "TBranch p w ts"] by (fastforce simp: with_prefix_def prefix_def)
    then show ?thesis using absent apart n by (simp add: remove_prefix_helper_apart)
  next
    case (below x k')
    then obtain i where i: "x = as_u8 i" using TBranch.prems by (auto elim: less_16_cases)
    have "prefix_post rd (TBranch p w ts) A (p @ as_u8 i # k') s d
        (remove_prefix_helper fuel rd (Branch p w cs) (p @ as_u8 i # k') (s, d))"
    proof (rule prefix_below_post [OF br TBranch.prems(2,3,6)])
      fix n u B s assume u: "ts i = Some u" "repr rd n u B"
      have "tdepth u \<le> fuel" using tdepth_child [of ts i u p w] u(1) TBranch.prems(5) by simp
      then show "prefix_post rd u B k' s d (remove_prefix_helper fuel rd n k' (s, d))"
        using TBranch.IH [OF u] TBranch.prems below u(1) by auto
    qed
    then show ?thesis using below i n by simp
  qed (use inside n in auto)
qed

end
