(* ===== verification/Merkle_Map.thy ===== *)
theory Merkle_Map
  imports Merkle_Prefix
begin

section \<open>A node store as a map from byte keys to values\<close>

text \<open>
  The operations of \<open>Merkle\<close> on the root of a mutable node store, as a key-value map: what one of
  them does to the result of every later \<open>get_value\<close>. The invariant \<open>wf_store\<close> collects that the
  root can be read completely, that the trie is canonical, that all paths are nibbles, and that all
  keys are byte keys of at most \<open>MAX_KEY_BYTES\<close> bytes.
\<close>

subsection \<open>Byte keys and nibble keys\<close>

definition MAX_KEY_BYTES :: nat where
  "MAX_KEY_BYTES = 1024"

definition bounded_keys :: "(path \<Rightarrow> val option) \<Rightarrow> bool" where
  "bounded_keys m \<longleftrightarrow> (\<forall>k. m k \<noteq> None \<longrightarrow> (\<exists>key. k = nibbles key \<and> length key \<le> MAX_KEY_BYTES))"

lemma bounded_keysD:
  "bounded_keys m \<Longrightarrow> m k \<noteq> None \<Longrightarrow> \<exists>key. k = nibbles key \<and> length key \<le> MAX_KEY_BYTES"
  by (auto simp: bounded_keys_def)

lemma bounded_keys_empty [simp]: "bounded_keys (\<lambda>_. None)"
  by (simp add: bounded_keys_def)

lemma bounded_keys_upd:
  "bounded_keys m \<Longrightarrow> length key \<le> MAX_KEY_BYTES \<Longrightarrow> bounded_keys (m(nibbles key := v))"
  by (auto simp: bounded_keys_def)

lemma bounded_keys_sub:
  "bounded_keys m \<Longrightarrow> (\<And>k. m' k \<noteq> None \<Longrightarrow> m k \<noteq> None) \<Longrightarrow> bounded_keys m'"
  unfolding bounded_keys_def by blast

lemma bounded_keys_eqI:
  assumes "bounded_keys m" "bounded_keys m'" "\<And>key. m (nibbles key) = m' (nibbles key)"
  shows "m = m'"
proof
  fix k
  show "m k = m' k"
  proof (cases "m k = None \<and> m' k = None")
    case False
    then obtain key where "k = nibbles key" using assms(1,2) bounded_keysD by blast
    then show ?thesis using assms(3) by simp
  qed simp
qed

lemma prefix_nibbles [simp]: "prefix (nibbles p) (nibbles k) \<longleftrightarrow> prefix p k"
proof
  assume "prefix (nibbles p) (nibbles k)"
  then show "prefix p k"
  proof (induction p arbitrary: k)
    case (Cons b p)
    then obtain c l where k: "k = c # l" by (cases k) auto
    with Cons have "drop_bit 4 b = drop_bit 4 c" "b AND 0xf = c AND 0xf" "prefix p l" by auto
    moreover from this have "b = c" by (metis byte_of_nibbles)
    ultimately show ?case using k by simp
  qed simp
next
  have app: "nibbles (p @ q) = nibbles p @ nibbles q" for p q by (induction p) auto
  assume "prefix p k"
  then show "prefix (nibbles p) (nibbles k)" by (auto elim!: prefixE simp: app)
qed

subsection \<open>Well-formed stores\<close>

definition wf_store :: "reader \<Rightarrow> mutable_store \<Rightarrow> trie option \<Rightarrow> maybe_persisted multiset \<Rightarrow> bool" where
  "wf_store rd s t A \<longleftrightarrow>
     repr_o rd (ms_root s) t A \<and> all_o valid_t t \<and> all_o canon t \<and> bounded_keys (lookup_o t)"

lemma wf_store_cases [consumes 1, case_names Empty Trie]:
  assumes "wf_store rd s t A"
  obtains "ms_root s = None" "t = None" "A = {#}"
  | n u where "ms_root s = Some n" "t = Some u" "repr rd n u A" "valid_t u" "canon u"
      "bounded_keys (lookup_t u)"
  using assms unfolding wf_store_def by (cases "ms_root s"; cases t) auto

lemma get_value_wf:
  assumes "wf_store rd s t A"
  shows "get_value rd (ms_root s) key = Inr (lookup_o t (nibbles key))"
  using assms
proof (cases rule: wf_store_cases)
  case Empty
  then show ?thesis by (simp add: get_value_def get_node_def)
next
  case (Trie n u)
  from get_helper_repr [OF Trie(3), of "nibbles key"] obtain res where
    "get_helper rd n (nibbles key) = Inr res" "Option.bind res node_value = lookup_t u (nibbles key)"
    by auto
  then show ?thesis
    using Trie by (cases res) (auto simp: get_value_def get_node_def path_from_nibbles_iterator_def)
qed

lemma canon_o_unique:
  assumes "all_o canon t" "all_o canon t'" "lookup_o t = lookup_o t'"
  shows "t = t'"
proof (cases t)
  case None
  then show ?thesis using assms canon_lookup_nonempty by (cases t') (auto, metis option.distinct(1))
next
  case (Some u)
  then show ?thesis
    using assms canon_lookup_nonempty canon_unique by (cases t') (auto, metis option.distinct(1))
qed

text \<open>The trie of a well-formed store is determined by what can be looked up.\<close>

lemma wf_store_unique:
  assumes "wf_store rd s t A" "wf_store rd' s' t' A'"
    and "\<And>key. get_value rd (ms_root s) key = get_value rd' (ms_root s') key"
  shows "t = t'"
proof -
  have "lookup_o t (nibbles key) = lookup_o t' (nibbles key)" for key
    using assms(3) [of key] get_value_wf [OF assms(1)] get_value_wf [OF assms(2)] by simp
  moreover have "bounded_keys (lookup_o t)" "bounded_keys (lookup_o t')"
    using assms(1,2) by (auto simp: wf_store_def)
  ultimately have eq: "lookup_o t = lookup_o t'" by (intro bounded_keys_eqI)
  show ?thesis using eq assms(1,2) by (intro canon_o_unique) (auto simp: wf_store_def)
qed

subsection \<open>The three updates\<close>

lemma merkle_insert_wf:
  assumes "wf_store rd s t A" "length key \<le> MAX_KEY_BYTES"
  shows "\<exists>s' t' A' D. merkle_insert rd key v s = (Inr (), s') \<and> wf_store rd s' t' A' \<and>
    lookup_o t' = (lookup_o t)(nibbles key \<mapsto> v) \<and> A = A' + D \<and>
    tracked (s\<lparr>ms_root := ms_root s'\<rparr>) s' D"
  using assms(1)
proof (cases rule: wf_store_cases)
  case Empty
  then show ?thesis
    by (intro exI [of _ "s\<lparr>ms_root := Some (Leaf (nibbles key) v)\<rparr>"] exI [of _ "Some (TLeaf (nibbles key) v)"]
        exI [of _ "{#}"])
      (use assms(2) in \<open>auto simp: merkle_insert_def insert_from_iter_def path_from_nibbles_iterator_def
        wf_store_def repr_Leaf bounded_keys_def\<close>)
next
  case (Trie n u)
  from insert_helper_post [OF Trie(3,4), of "nibbles key" v "s\<lparr>ms_root := None\<rparr>"]
  obtain n' s' u' A' D where ins: "insert_helper rd n (nibbles key) v (s\<lparr>ms_root := None\<rparr>) = (Inr n', s')"
    "tracked (s\<lparr>ms_root := None\<rparr>) s' D" "repr rd n' u' A'" "A = A' + D" "valid_t u'" "canon u'"
    "lookup_t u' = (lookup_t u)(nibbles key \<mapsto> v)"
    unfolding insert_post_def using Trie(5) by auto
  have "merkle_insert rd key v s = (Inr (), s'\<lparr>ms_root := Some n'\<rparr>)"
    using Trie(1) ins(1)
    by (simp add: merkle_insert_def insert_from_iter_def path_from_nibbles_iterator_def monad_simps)
  moreover have "wf_store rd (s'\<lparr>ms_root := Some n'\<rparr>) (Some u') A'"
    using ins(3,5,6,7) bounded_keys_upd [OF Trie(6) assms(2)] by (simp add: wf_store_def)
  moreover have "tracked (s\<lparr>ms_root := Some n'\<rparr>) (s'\<lparr>ms_root := Some n'\<rparr>) D"
    using ins(2) by (simp add: tracked_def tracks_def)
  ultimately show ?thesis using ins(4,7) Trie(2)
    by (intro exI [of _ "s'\<lparr>ms_root := Some n'\<rparr>"] exI [of _ "Some u'"] exI [of _ A'] exI [of _ D]) simp
qed

lemma merkle_remove_wf:
  assumes "wf_store rd s t A"
  shows "\<exists>s' t' A' D. merkle_remove rd key s = (Inr (lookup_o t (nibbles key)), s') \<and> wf_store rd s' t' A' \<and>
    lookup_o t' = (lookup_o t)(nibbles key := None) \<and> A = A' + D \<and>
    tracked (s\<lparr>ms_root := ms_root s'\<rparr>) s' D"
  using assms(1)
proof (cases rule: wf_store_cases)
  case Empty
  then show ?thesis
    by (intro exI [of _ s] exI [of _ None] exI [of _ "{#}"])
      (use assms in \<open>auto simp: merkle_remove_def remove_from_iter_def tracked_def\<close>)
next
  case (Trie n u)
  from remove_helper_post [OF Trie(3,4,5), of "nibbles key" "s\<lparr>ms_root := None\<rparr>"]
  obtain n' s' u' A' D where rem:
    "remove_helper rd n (nibbles key) (s\<lparr>ms_root := None\<rparr>) = (Inr (n', lookup_t u (nibbles key)), s')"
    "tracked (s\<lparr>ms_root := None\<rparr>) s' D" "repr_o rd n' u' A'" "A = A' + D" "all_o valid_t u'" "all_o canon u'"
    "lookup_o u' = (lookup_t u)(nibbles key := None)"
    unfolding remove_post_def by auto
  have "merkle_remove rd key s = (Inr (lookup_o t (nibbles key)), s'\<lparr>ms_root := n'\<rparr>)"
    using Trie(1,2) rem(1)
    by (simp add: merkle_remove_def remove_from_iter_def path_from_nibbles_iterator_def monad_simps)
  moreover have "bounded_keys (lookup_o u')"
    using Trie(6) by (rule bounded_keys_sub) (auto simp: rem(7) split: if_splits)
  then have "wf_store rd (s'\<lparr>ms_root := n'\<rparr>) u' A'"
    using rem(3,5,6) by (simp add: wf_store_def)
  moreover have "tracked (s\<lparr>ms_root := n'\<rparr>) (s'\<lparr>ms_root := n'\<rparr>) D"
    using rem(2) by (simp add: tracked_def tracks_def)
  ultimately show ?thesis using rem(4,7) Trie(2)
    by (intro exI [of _ "s'\<lparr>ms_root := n'\<rparr>"] exI [of _ u'] exI [of _ A'] exI [of _ D]) simp
qed

text \<open>
  The recursion of \<open>delete_children\<close> goes one node deeper per call, and a node lies at most
  \<open>2 * MAX_KEY_BYTES\<close> nibbles below the root.
\<close>

definition DELETE_FUEL :: nat where
  "DELETE_FUEL = 2 * MAX_KEY_BYTES + 1"

lemma bounded_tdepth: "canon t \<Longrightarrow> bounded_keys (lookup_t t) \<Longrightarrow> tdepth t \<le> DELETE_FUEL"
proof -
  assume "canon t" "bounded_keys (lookup_t t)"
  then have "tdepth t \<le> Suc (2 * MAX_KEY_BYTES)"
    by (intro tdepth_le) (use bounded_keysD in fastforce)+
  then show ?thesis by (simp add: DELETE_FUEL_def)
qed

lemma card_with_prefix_nibbles:
  assumes "bounded_keys (lookup_t t)"
  shows "card (with_prefix t (nibbles p)) = card {key. prefix p key \<and> lookup_t t (nibbles key) \<noteq> None}"
proof -
  have "with_prefix t (nibbles p) = nibbles ` {key. prefix p key \<and> lookup_t t (nibbles key) \<noteq> None}"
    using bounded_keysD [OF assms] by (fastforce simp: with_prefix_def)
  then show ?thesis by (simp add: card_image inj_on_def)
qed

lemma remove_prefix_wf:
  assumes "wf_store rd s t A" "DELETE_FUEL \<le> fuel"
  shows "\<exists>s' t' A' D.
    remove_prefix fuel rd p s =
      (Inr (sat_add 0 (card {key. prefix p key \<and> lookup_o t (nibbles key) \<noteq> None})), s') \<and>
    wf_store rd s' t' A' \<and>
    lookup_o t' = (\<lambda>k. if prefix (nibbles p) k then None else lookup_o t k) \<and> A = A' + D \<and>
    tracked (s\<lparr>ms_root := ms_root s'\<rparr>) s' D"
  using assms(1)
proof (cases rule: wf_store_cases)
  case Empty
  then show ?thesis
    by (intro exI [of _ s] exI [of _ None] exI [of _ "{#}"])
      (use assms in \<open>auto simp: remove_prefix_def remove_prefix_from_iter_def sat_add_def tracked_def\<close>)
next
  case (Trie n u)
  have "tdepth u \<le> fuel" using bounded_tdepth [OF Trie(5,6)] assms(2) by simp
  from remove_prefix_helper_post [OF Trie(3,4,5) _ this, of "nibbles p" 0 "s\<lparr>ms_root := None\<rparr>"]
  obtain n' s' u' A' D where rem:
    "remove_prefix_helper fuel rd n (nibbles p) (s\<lparr>ms_root := None\<rparr>, 0) =
       (Inr n', (s', sat_add 0 (card (with_prefix u (nibbles p)))))"
    "tracked (s\<lparr>ms_root := None\<rparr>) s' D" "repr_o rd n' u' A'" "A = A' + D" "all_o valid_t u'" "all_o canon u'"
    "lookup_o u' = (\<lambda>k. if prefix (nibbles p) k then None else lookup_t u k)"
    unfolding prefix_post_def by auto
  have "remove_prefix fuel rd p s =
      (Inr (sat_add 0 (card {key. prefix p key \<and> lookup_o t (nibbles key) \<noteq> None})), s'\<lparr>ms_root := n'\<rparr>)"
    using Trie(1,2) rem(1) card_with_prefix_nibbles [OF Trie(6)]
    by (simp add: remove_prefix_def remove_prefix_from_iter_def path_from_nibbles_iterator_def)
  moreover have "bounded_keys (lookup_o u')"
    using Trie(6) by (rule bounded_keys_sub) (auto simp: rem(7) split: if_splits)
  then have "wf_store rd (s'\<lparr>ms_root := n'\<rparr>) u' A'"
    using rem(3,5,6) by (simp add: wf_store_def)
  moreover have "tracked (s\<lparr>ms_root := n'\<rparr>) (s'\<lparr>ms_root := n'\<rparr>) D"
    using rem(2) by (simp add: tracked_def tracks_def)
  then have "tracked (s\<lparr>ms_root := ms_root (s'\<lparr>ms_root := n'\<rparr>)\<rparr>) (s'\<lparr>ms_root := n'\<rparr>) D" by simp
  ultimately show ?thesis using rem(4,7) unfolding Trie(2) lookup_o_simps by blast
qed

end
