(* ===== verification/Batch.thy ===== *)
theory Batch
  imports Merkle_Map
begin

section \<open>Batches of operations\<close>

text \<open>
  \<open>firewood/src/batch_op.rs\<close> (the operations of a batch and the conversion of key-value pairs),
  \<open>check_batch_op\<close> of \<open>firewood/src/api.rs\<close> and the serial application of a batch in
  \<open>firewood/src/manager.rs\<close>. What the serial loop relies on is the locale \<open>kv_store\<close>: a store whose
  operations act as those of a map. It is interpreted on the trie operations.
\<close>

subsection \<open>Operations\<close>

datatype batch_op =
    Put "u8 list" val
  | Delete "u8 list"
  | DeleteRange "u8 list"

fun op_key :: "batch_op \<Rightarrow> u8 list" where
  "op_key (Put key v) = key"
| "op_key (Delete key) = key"
| "op_key (DeleteRange p) = p"

fun op_value :: "batch_op \<Rightarrow> val option" where
  "op_value (Put key v) = Some v"
| "op_value _ = None"

fun same_discriminant :: "batch_op \<Rightarrow> batch_op \<Rightarrow> bool" where
  "same_discriminant (Put _ _) (Put _ _) = True"
| "same_discriminant (Delete _) (Delete _) = True"
| "same_discriminant (DeleteRange _) (DeleteRange _) = True"
| "same_discriminant _ _ = False"

definition op_eq_impl :: "batch_op \<Rightarrow> batch_op \<Rightarrow> bool" where
  "op_eq_impl a b \<longleftrightarrow> same_discriminant a b \<and> op_key a = op_key b \<and> op_value a = op_value b"

definition pair_try_into_batch :: "u8 list \<times> val \<Rightarrow> batch_op" where
  "pair_try_into_batch kv =
     (let (key, v) = kv in if v = [] then DeleteRange key else Put key v)"

fun result_try_into_batch :: "'e + (u8 list \<times> val) \<Rightarrow> 'e + batch_op" where
  "result_try_into_batch (Inr t) = Inr (pair_try_into_batch t)"
| "result_try_into_batch (Inl e) = Inl e"

lemma op_eq_impl_eq: "op_eq_impl a b \<longleftrightarrow> a = b"
  by (cases a; cases b) (auto simp: op_eq_impl_def)

subsection \<open>Checks\<close>

datatype proposal_error =
    FileIoError io_error
  | SendError
  | InvalidConversionToPathComponent
  | KeyTooLong nat nat
  | EmptyValue

definition check_batch_op :: "node_hash_algorithm \<Rightarrow> batch_op \<Rightarrow> proposal_error + unit" where
  "check_batch_op alg op =
     (let len = length (op_key op)
      in if len > MAX_KEY_BYTES then Inl (KeyTooLong len MAX_KEY_BYTES)
         else if is_ethereum alg \<and> (case op of Put _ v \<Rightarrow> v = [] | _ \<Rightarrow> False) then Inl EmptyValue
         else Inr ())"

lemma check_batch_op_ok:
  "check_batch_op alg op = Inr () \<longleftrightarrow>
     length (op_key op) \<le> MAX_KEY_BYTES \<and> \<not> (is_ethereum alg \<and> op_value op = Some [])"
  by (cases op) (auto simp: check_batch_op_def Let_def)

subsection \<open>The loop over a batch\<close>

text \<open>
  The store is moved into the loop and dropped on an error, so only the error is returned then. An
  item of the batch may itself be an error.
\<close>

definition lift_io :: "'a io_result \<times> 's \<Rightarrow> proposal_error + 's" where
  "lift_io r = (case r of (Inl e, s) \<Rightarrow> Inl (FileIoError e) | (Inr _, s) \<Rightarrow> Inr s)"

fun batch_loop ::
  "(u8 list \<Rightarrow> val \<Rightarrow> ('s, unit) sresult) \<Rightarrow> (u8 list \<Rightarrow> ('s, val option) sresult) \<Rightarrow>
   (u8 list \<Rightarrow> ('s, nat) sresult) \<Rightarrow> node_hash_algorithm \<Rightarrow>
   (io_error + batch_op) list \<Rightarrow> 's \<Rightarrow> proposal_error + 's" where
  "batch_loop ins rem rem_range alg [] s = Inr s"
| "batch_loop ins rem rem_range alg (res # batch) s =
     (case res of
        Inl e \<Rightarrow> Inl (FileIoError e)
      | Inr op \<Rightarrow>
          rbind (check_batch_op alg op) (\<lambda>_.
          rbind (case op of
                   Put key v \<Rightarrow> lift_io (ins key v s)
                 | Delete key \<Rightarrow> lift_io (rem key s)
                 | DeleteRange p \<Rightarrow> lift_io (rem_range p s)) (\<lambda>s.
          batch_loop ins rem rem_range alg batch s)))"

definition apply_batch_serial ::
  "reader \<Rightarrow> node_hash_algorithm \<Rightarrow> mutable_store \<Rightarrow> (io_error + batch_op) list \<Rightarrow> proposal_error + mutable_store" where
  "apply_batch_serial rd alg s batch =
     batch_loop (merkle_insert rd) (merkle_remove rd) (remove_prefix DELETE_FUEL rd) alg batch s"

subsection \<open>Stores that act as maps\<close>

text \<open>The effect of an operation on a map.\<close>

fun op_map :: "batch_op \<Rightarrow> (u8 list \<Rightarrow> val option) \<Rightarrow> (u8 list \<Rightarrow> val option)" where
  "op_map (Put key v) m = m(key \<mapsto> v)"
| "op_map (Delete key) m = m(key := None)"
| "op_map (DeleteRange p) m = (\<lambda>k. if prefix p k then None else m k)"

locale kv_store =
  fixes ins :: "u8 list \<Rightarrow> val \<Rightarrow> ('s, unit) sresult"
    and rem :: "u8 list \<Rightarrow> ('s, val option) sresult"
    and rem_range :: "u8 list \<Rightarrow> ('s, nat) sresult"
    and get :: "'s \<Rightarrow> u8 list \<Rightarrow> val option io_result"
    and contents :: "'s \<Rightarrow> u8 list \<Rightarrow> val option"
    and invar :: "'s \<Rightarrow> bool"
  assumes get_contents: "invar s \<Longrightarrow> get s key = Inr (contents s key)"
    and ins_contents: "invar s \<Longrightarrow> length key \<le> MAX_KEY_BYTES \<Longrightarrow>
      \<exists>s'. ins key v s = (Inr (), s') \<and> invar s' \<and> contents s' = (contents s)(key \<mapsto> v)"
    and rem_contents: "invar s \<Longrightarrow>
      \<exists>s'. rem key s = (Inr (contents s key), s') \<and> invar s' \<and> contents s' = (contents s)(key := None)"
    and rem_range_contents: "invar s \<Longrightarrow>
      \<exists>n s'. rem_range p s = (Inr n, s') \<and> invar s' \<and>
        contents s' = (\<lambda>k. if prefix p k then None else contents s k)"
begin

lemma batch_step:
  assumes "invar s" "check_batch_op alg op = Inr ()"
  shows "\<exists>s'. batch_loop ins rem rem_range alg (Inr op # batch) s =
      batch_loop ins rem rem_range alg batch s' \<and> invar s' \<and> contents s' = op_map op (contents s)"
proof (cases op)
  case (Put key v)
  then have "length key \<le> MAX_KEY_BYTES" using assms(2) by (simp add: check_batch_op_ok)
  from ins_contents [OF assms(1) this, of v] Put assms(2) show ?thesis by (auto simp: lift_io_def)
next
  case (Delete key)
  with rem_contents [OF assms(1), of key] assms(2) show ?thesis by (auto simp: lift_io_def)
next
  case (DeleteRange p)
  with rem_range_contents [OF assms(1), of p] assms(2) show ?thesis by (auto simp: lift_io_def)
qed

lemma batch_contents:
  assumes "invar s" "\<And>op. op \<in> set ops \<Longrightarrow> check_batch_op alg op = Inr ()"
  shows "\<exists>s'. batch_loop ins rem rem_range alg (map Inr ops) s = Inr s' \<and> invar s' \<and>
           contents s' = fold op_map ops (contents s)"
  using assms
proof (induction ops arbitrary: s)
  case (Cons op ops)
  from batch_step [OF Cons.prems(1), of alg op "map Inr ops"] Cons.prems(2) obtain s1 where
    "batch_loop ins rem rem_range alg (Inr op # map Inr ops) s =
       batch_loop ins rem rem_range alg (map Inr ops) s1" "invar s1" "contents s1 = op_map op (contents s)"
    by auto
  with Cons.IH [of s1] Cons.prems(2) show ?case by auto
qed simp

text \<open>The first operation that does not pass the check decides the outcome.\<close>

lemma batch_rejected:
  assumes "invar s" "\<And>op. op \<in> set ops \<Longrightarrow> check_batch_op alg op = Inr ()" "check_batch_op alg bad = Inl e"
  shows "batch_loop ins rem rem_range alg (map Inr ops @ Inr bad # rest) s = Inl e"
  using assms(1,2)
proof (induction ops arbitrary: s)
  case Nil
  then show ?case using assms(3) by simp
next
  case (Cons op ops)
  from batch_step [OF Cons.prems(1), of alg op "map Inr ops @ Inr bad # rest"] Cons.prems(2) obtain s1 where
    "batch_loop ins rem rem_range alg (Inr op # map Inr ops @ Inr bad # rest) s =
       batch_loop ins rem rem_range alg (map Inr ops @ Inr bad # rest) s1" "invar s1"
    by auto
  with Cons.IH [of s1] Cons.prems(2) show ?case by simp
qed

end

subsection \<open>The trie is such a store\<close>

text \<open>
  \<open>ledger rd L s\<close>: the store is well-formed and, when \<open>L\<close> is \<open>Some M\<close>, it tracks deletions and its
  hashed nodes together with those on its future-delete log are \<open>M\<close>.
\<close>

definition ledger :: "reader \<Rightarrow> maybe_persisted multiset option \<Rightarrow> mutable_store \<Rightarrow> bool" where
  "ledger rd L s \<longleftrightarrow>
     (\<exists>t A. wf_store rd s t A \<and>
        (\<forall>M. L = Some M \<longrightarrow> tracks s \<and> A + mset (deleted_nodes (ms_inner s)) = M))"

definition store_contents :: "reader \<Rightarrow> mutable_store \<Rightarrow> u8 list \<Rightarrow> val option" where
  "store_contents rd s key = (case get_value rd (ms_root s) key of Inl e \<Rightarrow> None | Inr v \<Rightarrow> v)"

lemma store_contents_wf: "wf_store rd s t A \<Longrightarrow> store_contents rd s = (\<lambda>key. lookup_o t (nibbles key))"
  by (simp add: store_contents_def get_value_wf fun_eq_iff)

lemma ledger_step:
  assumes "\<forall>M. L = Some M \<longrightarrow> tracks s \<and> A + mset (deleted_nodes (ms_inner s)) = M"
    and "wf_store rd s' t' A'" "A = A' + D" "tracked (s\<lparr>ms_root := ms_root s'\<rparr>) s' D"
  shows "ledger rd L s'"
proof -
  have "tracks s' \<longleftrightarrow> tracks s"
    "mset (deleted_nodes (ms_inner s')) = mset (deleted_nodes (ms_inner s)) + (if tracks s then D else {#})"
    using assms(4) by (simp_all add: tracked_def tracks_def)
  then have "\<forall>M. L = Some M \<longrightarrow> tracks s' \<and> A' + mset (deleted_nodes (ms_inner s')) = M"
    using assms(1,3) by (simp add: ac_simps)
  then show ?thesis unfolding ledger_def using assms(2) by blast
qed

interpretation trie_store: kv_store "merkle_insert rd" "merkle_remove rd" "remove_prefix DELETE_FUEL rd"
  "\<lambda>s. get_value rd (ms_root s)" "store_contents rd" "ledger rd L"
  for rd L
proof
  fix s key v
  assume "ledger rd L s"
  then obtain t A where wf: "wf_store rd s t A"
    and led: "\<forall>M. L = Some M \<longrightarrow> tracks s \<and> A + mset (deleted_nodes (ms_inner s)) = M"
    by (auto simp: ledger_def)
  note con = store_contents_wf [OF wf] and step = ledger_step [OF led]
  show "get_value rd (ms_root s) key = Inr (store_contents rd s key)"
    using get_value_wf [OF wf] con by simp
  show "\<exists>s'. merkle_insert rd key v s = (Inr (), s') \<and> ledger rd L s' \<and>
      store_contents rd s' = (store_contents rd s)(key \<mapsto> v)" if "length key \<le> MAX_KEY_BYTES"
  proof -
    from merkle_insert_wf [OF wf that, of v] obtain s' t' A' D where
      ins: "merkle_insert rd key v s = (Inr (), s')" "wf_store rd s' t' A'"
      "lookup_o t' = (lookup_o t)(nibbles key \<mapsto> v)" "A = A' + D" "tracked (s\<lparr>ms_root := ms_root s'\<rparr>) s' D"
      by blast
    have "store_contents rd s' = (store_contents rd s)(key \<mapsto> v)"
      unfolding con store_contents_wf [OF ins(2)] ins(3) by (auto simp: fun_eq_iff)
    with ins(1) step [OF ins(2,4,5)] show ?thesis by blast
  qed
  show "\<exists>s'. merkle_remove rd key s = (Inr (store_contents rd s key), s') \<and> ledger rd L s' \<and>
      store_contents rd s' = (store_contents rd s)(key := None)"
  proof -
    from merkle_remove_wf [OF wf, of key] obtain s' t' A' D where
      rem: "merkle_remove rd key s = (Inr (lookup_o t (nibbles key)), s')" "wf_store rd s' t' A'"
      "lookup_o t' = (lookup_o t)(nibbles key := None)" "A = A' + D" "tracked (s\<lparr>ms_root := ms_root s'\<rparr>) s' D"
      by blast
    have "store_contents rd s' = (store_contents rd s)(key := None)"
      unfolding con store_contents_wf [OF rem(2)] rem(3) by (auto simp: fun_eq_iff)
    moreover have "store_contents rd s key = lookup_o t (nibbles key)" by (simp add: con)
    ultimately show ?thesis using rem(1) step [OF rem(2,4,5)] by (intro exI [of _ s']) simp
  qed
  show "\<exists>n s'. remove_prefix DELETE_FUEL rd key s = (Inr n, s') \<and> ledger rd L s' \<and>
      store_contents rd s' = (\<lambda>k. if prefix key k then None else store_contents rd s k)"
  proof -
    from remove_prefix_wf [OF wf order.refl, of key] obtain n s' t' A' D where
      rem: "remove_prefix DELETE_FUEL rd key s = (Inr n, s')" "wf_store rd s' t' A'"
      "lookup_o t' = (\<lambda>k. if prefix (nibbles key) k then None else lookup_o t k)" "A = A' + D"
      "tracked (s\<lparr>ms_root := ms_root s'\<rparr>) s' D"
      by blast
    have "store_contents rd s' = (\<lambda>k. if prefix key k then None else store_contents rd s k)"
      unfolding con store_contents_wf [OF rem(2)] rem(3) by (auto simp: fun_eq_iff)
    with rem(1) step [OF rem(2,4,5)] show ?thesis by blast
  qed
qed

end
