(* ===== verification/Trie_Properties.thy ===== *)
theory Trie_Properties
  imports Batch
begin

section \<open>Properties of the trie operations\<close>

text \<open>
  The statements about lookup, insertion, removal and batches, over the code's own functions. The
  store \<open>sample_store\<close> is a small proposal with a value at the root and one child that is still on
  disk; the witnesses evaluate on it.
\<close>

subsection \<open>A sample store\<close>

definition sample_reader :: reader where
  "sample_reader a = (if a = 16 then Inr (Leaf [3] [7]) else Inl OtherError)"

definition sample_root :: node where
  "sample_root = Branch [] (Some [1]) (children_new(0 := Some (AddressWithHash 16 (Hash []))))"

definition sample_store :: mutable_store where
  "sample_store = \<lparr>ms_root = Some sample_root, ms_inner = Propose [Persisted 32], ms_tracking = Enabled\<rparr>"

definition sample_trie :: trie where
  "sample_trie = TBranch [] (Some [1]) ((\<lambda>_. None)(0 := Some (TLeaf [3] [7])))"

lemma sample_repr: "repr sample_reader sample_root sample_trie {# Persisted 16 #}"
proof -
  define As where "As = (\<lambda>_ :: pc. {#} :: maybe_persisted multiset)(0 := {# Persisted 16 #})"
  have "repr sample_reader sample_root sample_trie (\<Sum>c \<in> UNIV. As c)"
    unfolding sample_root_def sample_trie_def
    by (rule repr_Branch) (auto simp: As_def sample_reader_def repr_Leaf)
  moreover have "(\<Sum>c \<in> UNIV. As c) = {# Persisted 16 #}"
    unfolding As_def sum_upd_pc by simp
  ultimately show ?thesis by simp
qed

lemma sample_lookup: "lookup_t sample_trie = [[] \<mapsto> [1], [0, 3] \<mapsto> [7]]"
proof -
  have zero: "as_u8 0 = 0" by (simp add: as_u8_def)
  have "lookup_t sample_trie = (lookup_t (TBranch [] (Some [1]) (\<lambda>_. None)))([] @ as_u8 0 # [3] \<mapsto> [7])"
    unfolding sample_trie_def by (rule lookup_t_TBranch_slot) auto
  also have "lookup_t (TBranch [] (Some [1]) (\<lambda>_. None)) = [[] \<mapsto> [1]]"
    by (auto simp: lookup_t_empty_branch)
  finally show ?thesis by (auto simp: zero)
qed

lemma sample_wf: "wf_store sample_reader sample_store (Some sample_trie) {# Persisted 16 #}"
proof -
  have key: "nibbles [3] = [0, 3]" by code_simp
  have "bounded_keys (lookup_t sample_trie)"
    unfolding sample_lookup bounded_keys_def
    by (auto simp: MAX_KEY_BYTES_def split: if_splits intro: exI [of _ "[]"])
      (intro exI [of _ "[3]"], simp add: key)
  moreover have "canon sample_trie" "valid_t sample_trie" by (auto simp: sample_trie_def)
  ultimately show ?thesis using sample_repr by (simp add: wf_store_def sample_store_def)
qed

lemma sample_ledger: "ledger sample_reader (Some {# Persisted 16, Persisted 32 #}) sample_store"
  unfolding ledger_def
  by (rule exI [of _ "Some sample_trie"], rule exI [of _ "{# Persisted 16 #}"])
    (simp add: sample_wf, simp add: sample_store_def tracks_def add_mset_commute)

lemma sample_ledger_None: "ledger sample_reader None sample_store"
  unfolding ledger_def using sample_wf by blast

subsection \<open>Single operations\<close>

text \<open>
  C1. Insertion. On a well-formed store and a key of at most \<open>MAX_KEY_BYTES\<close> bytes,
  \<open>Merkle::insert\<close> succeeds (no read error, no panic), the resulting store is well-formed and its trie
  canonical, \<open>get_value\<close> of the key returns the inserted value and \<open>get_value\<close> of every other key
  returns what it returned before.
\<close>

theorem insert_then_get:
  assumes "wf_store rd s t A" "length key \<le> MAX_KEY_BYTES"
  shows "\<exists>s' t' A'. merkle_insert rd key v s = (Inr (), s') \<and> wf_store rd s' t' A' \<and>
    (\<forall>k. get_value rd (ms_root s') k = (if k = key then Inr (Some v) else get_value rd (ms_root s) k))"
proof -
  from merkle_insert_wf [OF assms, of v] obtain s' t' A' where
    "merkle_insert rd key v s = (Inr (), s')" "wf_store rd s' t' A'"
    "lookup_o t' = (lookup_o t)(nibbles key \<mapsto> v)" by blast
  then show ?thesis using get_value_wf [OF assms(1)] get_value_wf [of rd s' t' A'] by auto
qed

theorem insert_then_get_witness:
  "wf_store sample_reader sample_store (Some sample_trie) {# Persisted 16 #} \<and>
   length ([3, 5] :: u8 list) \<le> MAX_KEY_BYTES \<and>
   (\<exists>s' t' A'. merkle_insert sample_reader [3, 5] [9] sample_store = (Inr (), s') \<and>
      wf_store sample_reader s' t' A' \<and>
      (\<forall>k. get_value sample_reader (ms_root s') k =
         (if k = [3, 5] then Inr (Some [9]) else get_value sample_reader (ms_root sample_store) k)))"
  using insert_then_get [OF sample_wf, of "[3, 5]" "[9]"] sample_wf by (simp add: MAX_KEY_BYTES_def)

text \<open>
  C5. Removal. \<open>Merkle::remove\<close> succeeds on a well-formed store, returns the value the key had (if
  any), leaves a well-formed store with a canonical trie in which the key has no value and every other
  key has the value it had.
\<close>

theorem remove_then_get:
  assumes "wf_store rd s t A"
  shows "\<exists>removed s' t' A'. merkle_remove rd key s = (Inr removed, s') \<and> wf_store rd s' t' A' \<and>
    get_value rd (ms_root s) key = Inr removed \<and>
    (\<forall>k. get_value rd (ms_root s') k = (if k = key then Inr None else get_value rd (ms_root s) k))"
proof -
  from merkle_remove_wf [OF assms, of key] obtain s' t' A' where
    "merkle_remove rd key s = (Inr (lookup_o t (nibbles key)), s')" "wf_store rd s' t' A'"
    "lookup_o t' = (lookup_o t)(nibbles key := None)" by blast
  then show ?thesis using get_value_wf [OF assms(1)] get_value_wf [of rd s' t' A'] by auto
qed

theorem remove_then_get_witness:
  "wf_store sample_reader sample_store (Some sample_trie) {# Persisted 16 #} \<and>
   (\<exists>removed s' t' A'. merkle_remove sample_reader [] sample_store = (Inr removed, s') \<and>
      wf_store sample_reader s' t' A' \<and>
      get_value sample_reader (ms_root sample_store) [] = Inr removed \<and>
      (\<forall>k. get_value sample_reader (ms_root s') k =
         (if k = [] then Inr None else get_value sample_reader (ms_root sample_store) k)))"
  using remove_then_get [OF sample_wf, of "[]"] sample_wf by blast

text \<open>
  C6. Removal of a prefix. \<open>Merkle::remove_prefix\<close> succeeds on a well-formed store, removes exactly
  the keys that start with the prefix, and returns how many there were (saturating at the largest
  \<open>usize\<close>). A recursion depth of \<open>2 * MAX_KEY_BYTES + 1\<close> is enough.
\<close>

theorem remove_prefix_then_get:
  assumes "wf_store rd s t A" "DELETE_FUEL \<le> fuel"
  shows "\<exists>s' t' A'.
    remove_prefix fuel rd p s =
      (Inr (min (card {k. prefix p k \<and> get_value rd (ms_root s) k \<noteq> Inr None}) (2 ^ 64 - 1)), s') \<and>
    wf_store rd s' t' A' \<and>
    (\<forall>k. get_value rd (ms_root s') k = (if prefix p k then Inr None else get_value rd (ms_root s) k))"
proof -
  from remove_prefix_wf [OF assms, of p] obtain s' t' A' where
    "remove_prefix fuel rd p s =
      (Inr (sat_add 0 (card {key. prefix p key \<and> lookup_o t (nibbles key) \<noteq> None})), s')"
    "wf_store rd s' t' A'" "lookup_o t' = (\<lambda>k. if prefix (nibbles p) k then None else lookup_o t k)" by blast
  then show ?thesis using get_value_wf [OF assms(1)] get_value_wf [of rd s' t' A']
    by (auto simp: sat_add_def usize_max_def)
qed

theorem remove_prefix_then_get_witness:
  "wf_store sample_reader sample_store (Some sample_trie) {# Persisted 16 #} \<and> DELETE_FUEL \<le> 2049 \<and>
   (\<exists>s' t' A'.
      remove_prefix 2049 sample_reader [3] sample_store =
        (Inr (min (card {k. prefix [3] k \<and> get_value sample_reader (ms_root sample_store) k \<noteq> Inr None})
               (2 ^ 64 - 1)), s') \<and>
      wf_store sample_reader s' t' A' \<and>
      (\<forall>k. get_value sample_reader (ms_root s') k =
         (if prefix [3] k then Inr None else get_value sample_reader (ms_root sample_store) k)))"
proof -
  have "DELETE_FUEL \<le> 2049" by (simp add: DELETE_FUEL_def MAX_KEY_BYTES_def)
  then show ?thesis using remove_prefix_then_get [OF sample_wf, of 2049 "[3]"] sample_wf by blast
qed

subsection \<open>Batches\<close>

text \<open>
  C3. A batch. When every operation of a batch passes \<open>check_batch_op\<close>, \<open>apply_batch_serial\<close> succeeds
  on a well-formed store and the values it leaves are those of applying the operations, in order, to
  the map the store stood for: \<open>Put\<close> sets a key, \<open>Delete\<close> clears it, \<open>DeleteRange\<close> clears every key
  with the prefix.
\<close>

theorem batch_is_map_update:
  assumes "wf_store rd s t A" "list_all (\<lambda>op. check_batch_op alg op = Inr ()) ops"
  shows "\<exists>s' t' A'. apply_batch_serial rd alg s (map Inr ops) = Inr s' \<and> wf_store rd s' t' A' \<and>
    (\<forall>k. get_value rd (ms_root s') k = Inr (fold op_map ops (store_contents rd s) k))"
proof -
  have "ledger rd None s" using assms(1) by (auto simp: ledger_def)
  from trie_store.batch_contents [OF this, of ops alg] assms(2) [unfolded list_all_iff] obtain s' where
    s': "apply_batch_serial rd alg s (map Inr ops) = Inr s'" "ledger rd None s'"
    "store_contents rd s' = fold op_map ops (store_contents rd s)"
    unfolding apply_batch_serial_def by blast
  then show ?thesis using trie_store.get_contents [OF s'(2)] by (auto simp: ledger_def)
qed

theorem batch_is_map_update_witness:
  "wf_store sample_reader sample_store (Some sample_trie) {# Persisted 16 #} \<and>
   list_all (\<lambda>op. check_batch_op MerkleDB op = Inr ()) [Put [3, 1] [4], Delete [3], DeleteRange [9]] \<and>
   (\<exists>s' t' A'. apply_batch_serial sample_reader MerkleDB sample_store
        (map Inr [Put [3, 1] [4], Delete [3], DeleteRange [9]]) = Inr s' \<and> wf_store sample_reader s' t' A' \<and>
      (\<forall>k. get_value sample_reader (ms_root s') k =
         Inr (fold op_map [Put [3, 1] [4], Delete [3], DeleteRange [9]] (store_contents sample_reader sample_store) k)))"
proof -
  have "list_all (\<lambda>op. check_batch_op MerkleDB op = Inr ()) [Put [3, 1] [4], Delete [3], DeleteRange [9]]"
    by (simp add: check_batch_op_ok MAX_KEY_BYTES_def)
  with batch_is_map_update [OF sample_wf this] sample_wf show ?thesis by blast
qed

text \<open>
  C2. No leak and no double free. On a proposal that tracks deletions, a batch neither loses nor
  duplicates a hashed node: the hashed nodes the trie still reaches together with the nodes on the
  future-delete log are the same multiset before and after. A node that leaves the trie is logged
  exactly once, and a node that stays is not logged.
\<close>

theorem batch_conserves_hashed_nodes:
  assumes "wf_store rd s t A" "tracks s" "list_all (\<lambda>op. check_batch_op alg op = Inr ()) ops"
  shows "\<exists>s' t' A'. apply_batch_serial rd alg s (map Inr ops) = Inr s' \<and> wf_store rd s' t' A' \<and>
    A' + mset (deleted_nodes (ms_inner s')) = A + mset (deleted_nodes (ms_inner s))"
proof -
  have "ledger rd (Some (A + mset (deleted_nodes (ms_inner s)))) s"
    using assms(1,2) unfolding ledger_def by blast
  from trie_store.batch_contents [OF this, of ops alg] assms(3) [unfolded list_all_iff] obtain s' where
    "apply_batch_serial rd alg s (map Inr ops) = Inr s'"
    "ledger rd (Some (A + mset (deleted_nodes (ms_inner s)))) s'"
    unfolding apply_batch_serial_def by blast
  then show ?thesis unfolding ledger_def by blast
qed

theorem batch_conserves_hashed_nodes_witness:
  "wf_store sample_reader sample_store (Some sample_trie) {# Persisted 16 #} \<and> tracks sample_store \<and>
   list_all (\<lambda>op. check_batch_op Ethereum op = Inr ()) [Delete [3], Put [8] [2]] \<and>
   (\<exists>s' t' A'. apply_batch_serial sample_reader Ethereum sample_store (map Inr [Delete [3], Put [8] [2]]) = Inr s' \<and>
      wf_store sample_reader s' t' A' \<and>
      A' + mset (deleted_nodes (ms_inner s')) =
        {# Persisted 16 #} + mset (deleted_nodes (ms_inner sample_store)))"
proof -
  have ops: "list_all (\<lambda>op. check_batch_op Ethereum op = Inr ()) [Delete [3], Put [8] [2]]"
    by (simp add: check_batch_op_ok MAX_KEY_BYTES_def)
  have "tracks sample_store" by (simp add: tracks_def sample_store_def)
  with batch_conserves_hashed_nodes [OF sample_wf this ops] sample_wf ops show ?thesis by blast
qed

text \<open>
  C4. The trie does not depend on its history. Two well-formed stores, over any storage, whose
  lookups agree represent the same trie: the same nodes with the same partial paths, values and
  branching, whatever operations led there.
\<close>

theorem trie_is_history_independent:
  assumes "wf_store rd s t A" "wf_store rd' s' t' A'"
    and "\<forall>key. get_value rd (ms_root s) key = get_value rd' (ms_root s') key"
  shows "t = t'"
  using wf_store_unique [OF assms(1,2)] assms(3) by blast

definition sample_reader2 :: reader where
  "sample_reader2 a = Inl OtherError"

definition sample_store2 :: mutable_store where
  "sample_store2 = \<lparr>ms_root = Some (Branch [] (Some [1]) (children_new(0 := Some (ChildNode (Leaf [3] [7]))))),
     ms_inner = Recon, ms_tracking = Disabled\<rparr>"

lemma sample_wf2: "wf_store sample_reader2 sample_store2 (Some sample_trie) {#}"
proof -
  have "repr sample_reader2 (Branch [] (Some [1]) (children_new(0 := Some (ChildNode (Leaf [3] [7]))))) sample_trie {#}"
    unfolding sample_trie_def using repr_Branch_add [OF repr_Branch_empty _ repr_Leaf] by simp
  then show ?thesis using sample_wf by (simp add: wf_store_def sample_store2_def)
qed

theorem trie_is_history_independent_witness:
  "\<exists>t t'. wf_store sample_reader sample_store t {# Persisted 16 #} \<and> wf_store sample_reader2 sample_store2 t' {#} \<and>
     (\<forall>key. get_value sample_reader (ms_root sample_store) key = get_value sample_reader2 (ms_root sample_store2) key) \<and>
     t = t'"
proof -
  have "\<forall>key. get_value sample_reader (ms_root sample_store) key = get_value sample_reader2 (ms_root sample_store2) key"
    using get_value_wf [OF sample_wf] get_value_wf [OF sample_wf2] by simp
  with trie_is_history_independent [OF sample_wf sample_wf2 this] sample_wf sample_wf2 show ?thesis by blast
qed

text \<open>
  When an operation does not pass \<open>check_batch_op\<close> (a key longer than
  \<open>MAX_KEY_BYTES\<close> bytes, or an empty value under the Ethereum scheme), the batch fails with the error of
  the first such operation, whatever comes after it.
\<close>

lemma batch_first_rejection:
  assumes "wf_store rd s t A" "list_all (\<lambda>op. check_batch_op alg op = Inr ()) ops"
    and "check_batch_op alg bad = Inl e"
  shows "apply_batch_serial rd alg s (map Inr ops @ Inr bad # rest) = Inl e"
proof -
  have "ledger rd None s" using assms(1) by (auto simp: ledger_def)
  from trie_store.batch_rejected [OF this] assms(2,3) [unfolded list_all_iff] show ?thesis
    unfolding apply_batch_serial_def by blast
qed

end
