(* ===== verification/Areas.thy ===== *)
theory Areas
  imports Nodes
begin

section \<open>Areas and addresses\<close>

text \<open>
  \<open>storage/src/nodestore/primitives.rs\<close> and the list of area sizes that \<open>storage/build.rs\<close> puts into it:
  a node is stored in an area of one of these sizes, named by its index.
\<close>

definition AREA_SIZES :: "nat list" where
  "AREA_SIZES =
     [16, 32, 64, 96, 128, 256, 512, 768, 1024,
      1024 * 2 ^ 1, 1024 * 2 ^ 2, 1024 * 2 ^ 3, 1024 * 2 ^ 4, 1024 * 2 ^ 5, 1024 * 2 ^ 6, 1024 * 2 ^ 7,
      1024 * 2 ^ 8, 1024 * 2 ^ 9, 1024 * 2 ^ 10, 1024 * 2 ^ 11, 1024 * 2 ^ 12, 1024 * 2 ^ 13, 1024 * 2 ^ 14]"

type_synonym area_index = u8

definition NUM_AREA_SIZES :: nat where
  "NUM_AREA_SIZES = length AREA_SIZES"

definition MIN_AREA_SIZE :: nat where
  "MIN_AREA_SIZE = hd AREA_SIZES"

definition MAX_AREA_SIZE :: nat where
  "MAX_AREA_SIZE = last AREA_SIZES"

definition area_size_iter :: "(area_index \<times> nat) list" where
  "area_size_iter = map (\<lambda>(i, size). (word_of_nat i, size)) (enumerate 0 AREA_SIZES)"

definition AreaIndex_new :: "u8 \<Rightarrow> area_index option" where
  "AreaIndex_new index = (if index < word_of_nat NUM_AREA_SIZES then Some index else None)"

definition AreaIndex_size :: "area_index \<Rightarrow> nat io_result" where
  "AreaIndex_size i = index_slice AREA_SIZES (unat i)"

definition partition_point :: "('a \<Rightarrow> bool) \<Rightarrow> 'a list \<Rightarrow> nat" where
  "partition_point P xs = length (takeWhile P xs)"

definition from_size :: "nat \<Rightarrow> area_index io_result" where
  "from_size n =
     (if n > MAX_AREA_SIZE then Inl OutOfMemory
      else Inr (word_of_nat (partition_point (\<lambda>size. size < n) AREA_SIZES)))"

definition AreaIndex_try_from_u8 :: "u8 \<Rightarrow> area_index io_result" where
  "AreaIndex_try_from_u8 index = ok_or InvalidData (AreaIndex_new index)"

definition AreaIndex_try_from_usize :: "nat \<Rightarrow> area_index io_result" where
  "AreaIndex_try_from_usize index =
     ok_or InvalidData (if index < 256 then AreaIndex_new (word_of_nat index) else None)"

definition LinearAddress_is_aligned :: "laddr \<Rightarrow> bool" where
  "LinearAddress_is_aligned a = (unat a mod MIN_AREA_SIZE = 0)"

definition LinearAddress_advance :: "laddr \<Rightarrow> u64 \<Rightarrow> laddr option" where
  "LinearAddress_advance a n = (if unat a + unat n < 2 ^ 64 then Some (a + n) else None)"

definition LinearAddress_distance_from :: "laddr \<Rightarrow> laddr \<Rightarrow> u64 option" where
  "LinearAddress_distance_from a b = (if b \<le> a then Some (a - b) else None)"

subsection \<open>Lemmas\<close>

lemma NUM_AREA_SIZES_eq [simp]: "NUM_AREA_SIZES = 23"
  by (simp add: NUM_AREA_SIZES_def AREA_SIZES_def)

lemma length_AREA_SIZES [simp]: "length AREA_SIZES = 23"
  by (simp add: AREA_SIZES_def)

lemma MIN_AREA_SIZE_eq [simp]: "MIN_AREA_SIZE = 16"
  by (simp add: MIN_AREA_SIZE_def AREA_SIZES_def)

lemma MAX_AREA_SIZE_eq [simp]: "MAX_AREA_SIZE = 16777216"
  by (simp add: MAX_AREA_SIZE_def AREA_SIZES_def)

lemma sorted_AREA_SIZES: "sorted_wrt (<) AREA_SIZES"
  by (simp add: AREA_SIZES_def)

lemma AREA_SIZES_multiple: "list_all (\<lambda>size. size mod 16 = 0) AREA_SIZES"
  by (simp add: AREA_SIZES_def)

lemma AREA_SIZES_last: "AREA_SIZES ! 22 = MAX_AREA_SIZE"
  by (simp add: AREA_SIZES_def)

lemma AreaIndex_new_Some [simp]: "AreaIndex_new i = Some j \<longleftrightarrow> i < 23 \<and> j = i"
  by (auto simp: AreaIndex_new_def)

lemma AreaIndex_new_None [simp]: "AreaIndex_new i = None \<longleftrightarrow> \<not> i < 23"
  by (simp add: AreaIndex_new_def)

lemma u8_less_23: "(i :: u8) < 23 \<longleftrightarrow> unat i < 23"
  by (simp add: word_less_nat_alt)

lemma AreaIndex_size_ok: "i < 23 \<Longrightarrow> AreaIndex_size i = Inr (AREA_SIZES ! unat i)"
  by (simp add: AreaIndex_size_def u8_less_23)

lemma partition_point_nth_less: "j < partition_point P xs \<Longrightarrow> P (xs ! j)"
  unfolding partition_point_def
  by (metis nth_mem set_takeWhileD takeWhile_nth)

lemma partition_point_nth: "partition_point P xs < length xs \<Longrightarrow> \<not> P (xs ! partition_point P xs)"
  unfolding partition_point_def by (rule nth_length_takeWhile)

text \<open>\<open>from_size\<close> returns the smallest area that holds \<open>n\<close> bytes.\<close>

lemma from_size_fits:
  assumes "n \<le> MAX_AREA_SIZE"
  obtains i where "from_size n = Inr i" "i < 23" "n \<le> AREA_SIZES ! unat i"
    "\<And>j. j < unat i \<Longrightarrow> AREA_SIZES ! j < n"
proof -
  define k where "k = partition_point (\<lambda>size. size < n) AREA_SIZES"
  have "k < 23"
  proof (rule ccontr)
    assume "\<not> k < 23"
    then have "AREA_SIZES ! 22 < n" unfolding k_def
      by (intro partition_point_nth_less [of 22 "\<lambda>size. size < n"]) simp
    with assms AREA_SIZES_last show False by simp
  qed
  then have u: "unat (word_of_nat k :: u8) = k" by (simp add: unat_word_of_nat_eq)
  show thesis
  proof (rule that [of "word_of_nat k"])
    show "from_size n = Inr (word_of_nat k)" using assms by (simp add: from_size_def k_def)
    show "(word_of_nat k :: u8) < 23" using u \<open>k < 23\<close> by (simp add: u8_less_23)
    show "n \<le> AREA_SIZES ! unat (word_of_nat k :: u8)"
      using partition_point_nth [of "\<lambda>size. size < n" AREA_SIZES] \<open>k < 23\<close> u by (simp add: k_def)
    show "AREA_SIZES ! j < n" if "j < unat (word_of_nat k :: u8)" for j
      using that u partition_point_nth_less [of j "\<lambda>size. size < n" AREA_SIZES] by (simp add: k_def)
  qed
qed

lemma from_size_error: "from_size n = Inl e \<longleftrightarrow> n > MAX_AREA_SIZE \<and> e = OutOfMemory"
  by (auto simp: from_size_def)

lemma LinearAddress_advance_distance:
  "LinearAddress_advance a n = Some b \<Longrightarrow> LinearAddress_distance_from b a = Some n"
  by (auto simp: LinearAddress_advance_def LinearAddress_distance_from_def word_le_nat_alt
      unat_word_ariths split: if_splits)

end
