(* ===== verification/Byte_Readers.thy ===== *)
theory Byte_Readers
  imports Areas
begin

section \<open>Reading serialized data\<close>

text \<open>
  The \<open>Read\<close> side of the storage code: \<open>read_exact\<close> and the methods of \<open>ReadSerializable\<close>
  (\<open>storage/src/node/branch.rs\<close>), variable-length integers, and the serialization of hashes
  (\<open>storage/src/hashtype.rs\<close>, \<open>storage/src/trie_hash.rs\<close>, the child-hash codecs of
  \<open>storage/src/hashers\<close>). A reader is a function from the bytes still unread to a result and the
  bytes left; \<open>reads p bs x\<close> says that \<open>p\<close> consumes exactly \<open>bs\<close> and returns \<open>x\<close>, whatever follows.

  Variable-length integers come from the crate \<open>integer-encoding\<close>. The functions are parameters; the
  locale \<open>varint\<close> holds the facts the code relies on (reading inverts writing for 64-bit values,
  a value below 128 is one byte, none is longer than 10 bytes) and is interpreted on the little-endian base-128 encoding that
  the crate documents.
\<close>

subsection \<open>Readers\<close>

type_synonym 'a reader_fn = "u8 list \<Rightarrow> ('a \<times> u8 list) io_result"

definition preturn :: "'a \<Rightarrow> 'a reader_fn" where
  "preturn x bs = Inr (x, bs)"

definition pfail :: "io_error \<Rightarrow> 'a reader_fn" where
  "pfail e bs = Inl e"

definition pbind :: "'a reader_fn \<Rightarrow> ('a \<Rightarrow> 'b reader_fn) \<Rightarrow> 'b reader_fn" where
  "pbind p f bs = rbind (p bs) (\<lambda>(x, rest). f x rest)"

definition pcheck :: "io_error \<Rightarrow> 'a option \<Rightarrow> 'a reader_fn" where
  "pcheck e m = (case m of None \<Rightarrow> pfail e | Some x \<Rightarrow> preturn x)"

definition read_exact :: "nat \<Rightarrow> u8 list reader_fn" where
  "read_exact n bs = (if length bs < n then Inl UnexpectedEof else Inr (take n bs, drop n bs))"

definition read_byte :: "u8 reader_fn" where
  "read_byte = pbind (read_exact 1) (\<lambda>bs. preturn (hd bs))"

text \<open>\<open>Vec::with_capacity\<close> panics for more than \<open>isize::MAX\<close> bytes, before anything is read.\<close>

definition isize_max :: nat where
  "isize_max = 2 ^ 63 - 1"

definition read_fixed_len :: "nat \<Rightarrow> u8 list reader_fn" where
  "read_fixed_len len bs =
     (if isize_max < len then Inl Panic
      else let buf = take len bs
           in if length buf \<noteq> len then Inl UnexpectedEof else Inr (buf, drop len bs))"

definition reads :: "'a reader_fn \<Rightarrow> u8 list \<Rightarrow> 'a \<Rightarrow> bool" where
  "reads p bs x \<longleftrightarrow> (\<forall>rest. p (bs @ rest) = Inr (x, rest))"

lemma readsD: "reads p bs x \<Longrightarrow> p (bs @ rest) = Inr (x, rest)"
  by (simp add: reads_def)

lemma reads_return: "reads (preturn x) [] x"
  by (simp add: reads_def preturn_def)

lemma reads_bind: "reads p bs x \<Longrightarrow> reads (f x) cs y \<Longrightarrow> reads (pbind p f) (bs @ cs) y"
  by (simp add: reads_def pbind_def)

lemma reads_bind_app: "reads p bs x \<Longrightarrow> pbind p f (bs @ rest) = f x rest"
  by (simp add: reads_def pbind_def)

lemma reads_bind_Cons: "reads p [b] x \<Longrightarrow> reads (f x) cs y \<Longrightarrow> reads (pbind p f) (b # cs) y"
  using reads_bind [of p "[b]" x f cs y] by simp

lemma reads_bind_return: "reads p bs x \<Longrightarrow> y = g x \<Longrightarrow> reads (pbind p (\<lambda>x. preturn (g x))) bs y"
  by (simp add: reads_def pbind_def preturn_def)

lemma reads_exact: "length bs = n \<Longrightarrow> reads (read_exact n) bs bs"
  by (auto simp: reads_def read_exact_def)

lemma reads_byte: "reads read_byte [b] b"
  unfolding read_byte_def by (rule reads_bind_return [OF reads_exact]) simp_all

lemma reads_fixed_len: "length bs = n \<Longrightarrow> n \<le> isize_max \<Longrightarrow> reads (read_fixed_len n) bs bs"
  by (auto simp: reads_def read_fixed_len_def Let_def)

lemma reads_check: "m = Some x \<Longrightarrow> reads (pcheck e m) [] x"
  by (simp add: pcheck_def reads_return)

lemma reads_check_bind: "m = Some x \<Longrightarrow> reads (f x) bs y \<Longrightarrow> reads (pbind (pcheck e m) f) bs y"
  using reads_bind [OF reads_check] by fastforce

subsection \<open>Variable-length integers\<close>

locale varint =
  fixes encode_var :: "nat \<Rightarrow> u8 list"
    and read_varint :: "nat reader_fn"
  assumes reads_varint: "n < 2 ^ 64 \<Longrightarrow> reads read_varint (encode_var n) n"
    and encode_small: "n < 128 \<Longrightarrow> encode_var n = [word_of_nat n]"
    and encode_length: "n < 2 ^ 64 \<Longrightarrow> length (encode_var n) \<le> 10"

text \<open>The base-128 encoding: seven bits per byte, least significant first, the high bit set on all but the last.\<close>

fun leb128_encode :: "nat \<Rightarrow> u8 list" where
  "leb128_encode n =
     (if n < 128 then [word_of_nat n] else word_of_nat (n mod 128 + 128) # leb128_encode (n div 128))"

fun leb128_read :: "nat \<Rightarrow> nat reader_fn" where
  "leb128_read 0 bs = Inl InvalidData"
| "leb128_read (Suc fuel) [] = Inl UnexpectedEof"
| "leb128_read (Suc fuel) (b # bs) =
     (if unat b < 128 then Inr (unat b, bs)
      else rbind (leb128_read fuel bs) (\<lambda>(n, rest). Inr (unat b - 128 + 128 * n, rest)))"

declare leb128_encode.simps [simp del]

lemma leb128_read_encode:
  "n < 128 ^ fuel \<Longrightarrow> fuel > 0 \<Longrightarrow> leb128_read fuel (leb128_encode n @ rest) = Inr (n, rest)"
proof (induction fuel arbitrary: n)
  case (Suc fuel)
  show ?case
  proof (cases "n < 128")
    case True
    then show ?thesis by (subst leb128_encode.simps) (simp add: unat_word_of_nat_eq)
  next
    case False
    have "n div 128 < 128 ^ fuel" using Suc.prems by (simp add: less_mult_imp_div_less mult.commute)
    moreover have "fuel > 0" using Suc.prems False by (cases fuel) auto
    ultimately have "leb128_read fuel (leb128_encode (n div 128) @ rest) = Inr (n div 128, rest)"
      by (rule Suc.IH)
    moreover have "unat (word_of_nat (n mod 128 + 128) :: u8) = n mod 128 + 128"
      by (rule unat_word_of_nat_eq) (simp add: less_trans [of _ "128 + 128"])
    ultimately show ?thesis using False by (subst leb128_encode.simps) simp
  qed
qed simp

lemma length_leb128_encode: "n < 128 ^ k \<Longrightarrow> 0 < k \<Longrightarrow> length (leb128_encode n) \<le> k"
proof (induction k arbitrary: n)
  case (Suc k)
  show ?case
  proof (cases "n < 128")
    case True
    then show ?thesis by (subst leb128_encode.simps) simp
  next
    case False
    have "n div 128 < 128 ^ k" using Suc.prems by (simp add: less_mult_imp_div_less mult.commute)
    moreover have "0 < k" using Suc.prems False by (cases k) auto
    ultimately show ?thesis using False Suc.IH by (subst leb128_encode.simps) simp
  qed
qed simp

interpretation leb128: varint leb128_encode "leb128_read 10"
proof
  fix n :: nat assume "n < 2 ^ 64"
  then have "n < 128 ^ 10" by simp
  then show "reads (leb128_read 10) (leb128_encode n) n"
    using leb128_read_encode [of n 10] by (simp add: reads_def)
  show "length (leb128_encode n) \<le> 10" using length_leb128_encode [of n 10] \<open>n < 128 ^ 10\<close> by simp
qed (simp add: leb128_encode.simps)

subsection \<open>Hashes\<close>

definition TrieHash_write_to :: "trie_hash \<Rightarrow> u8 list" where
  "TrieHash_write_to h = h"

definition TrieHash_from_reader :: "trie_hash reader_fn" where
  "TrieHash_from_reader = pbind (read_exact 32) (\<lambda>buf. preturn buf)"

fun HashType_write_to :: "hash_type \<Rightarrow> u8 list" where
  "HashType_write_to (Hash h) = 0 # h"
| "HashType_write_to (Rlp r) = word_of_nat (length r) # r"

definition HashType_from_reader :: "hash_type reader_fn" where
  "HashType_from_reader =
     pbind (read_exact 1) (\<lambda>bs.
       let len = hd bs
       in if len = 0 then pbind (read_exact 32) (\<lambda>bytes. preturn (Hash bytes))
          else if 32 < unat len then pfail InvalidData
          else pbind (read_exact (unat len)) (\<lambda>bytes. preturn (Rlp bytes)))"

fun write_child_hash :: "node_hash_algorithm \<Rightarrow> hash_type \<Rightarrow> u8 list io_result" where
  "write_child_hash MerkleDB (Hash h) = Inr (TrieHash_write_to h)"
| "write_child_hash MerkleDB (Rlp r) = Inl InvalidData"
| "write_child_hash Ethereum h = Inr (HashType_write_to h)"

fun read_child_hash :: "node_hash_algorithm \<Rightarrow> hash_type reader_fn" where
  "read_child_hash MerkleDB = pbind TrieHash_from_reader (\<lambda>h. preturn (Hash h))"
| "read_child_hash Ethereum = HashType_from_reader"

text \<open>The hashes a scheme can store: 32 bytes, or under Ethereum 1 to 32 bytes of inline RLP.\<close>

fun storable_hash :: "node_hash_algorithm \<Rightarrow> hash_type \<Rightarrow> bool" where
  "storable_hash alg (Hash h) = (length h = 32)"
| "storable_hash alg (Rlp r) = (alg = Ethereum \<and> 1 \<le> length r \<and> length r \<le> 32)"

lemma reads_child_hash:
  assumes "storable_hash alg h"
  shows "\<exists>bs. write_child_hash alg h = Inr bs \<and> reads (read_child_hash alg) bs h"
proof (cases alg)
  case MerkleDB
  with assms obtain b where h: "h = Hash b" "length b = 32" by (cases h) auto
  then have "reads (read_child_hash MerkleDB) b h"
    unfolding read_child_hash.simps TrieHash_from_reader_def
    by (intro reads_bind_return [OF reads_bind_return [OF reads_exact]]) simp_all
  with MerkleDB h show ?thesis by (simp add: TrieHash_write_to_def)
next
  case Ethereum
  have "reads HashType_from_reader (HashType_write_to h) h"
  proof (cases h)
    case (Hash b)
    then have "reads (pbind (read_exact 32) (\<lambda>bytes. preturn (Hash bytes))) b h"
      using assms by (intro reads_bind_return [OF reads_exact]) auto
    then show ?thesis
      unfolding HashType_from_reader_def Hash HashType_write_to.simps
      by (intro reads_bind_Cons [OF reads_exact]) auto
  next
    case (Rlp r)
    then have len: "1 \<le> length r" "length r \<le> 32" using assms by auto
    then have u: "unat (word_of_nat (length r) :: u8) = length r" by (simp add: unat_word_of_nat_eq)
    then have ne: "(word_of_nat (length r) :: u8) \<noteq> 0" using len by (metis not_one_le_zero unat_0)
    have "reads (pbind (read_exact (length r)) (\<lambda>bytes. preturn (Rlp bytes))) r h"
      using Rlp by (intro reads_bind_return [OF reads_exact]) auto
    with u ne len show ?thesis
      unfolding HashType_from_reader_def Rlp HashType_write_to.simps
      by (intro reads_bind_Cons [OF reads_exact]) (auto simp: Let_def)
  qed
  with Ethereum show ?thesis by auto
qed

text \<open>
  Equality of hashes compares an inline RLP with a full hash by hashing it. \<open>keccak\<close> stands for
  \<open>Keccak256::digest\<close>.
\<close>

fun into_triehash :: "(u8 list \<Rightarrow> trie_hash) \<Rightarrow> hash_type \<Rightarrow> trie_hash" where
  "into_triehash keccak (Hash h) = h"
| "into_triehash keccak (Rlp r) = keccak r"

fun HashType_eq :: "(u8 list \<Rightarrow> trie_hash) \<Rightarrow> hash_type \<Rightarrow> hash_type \<Rightarrow> bool" where
  "HashType_eq keccak (Hash h1) (Hash h2) = (h1 = h2)"
| "HashType_eq keccak (Rlp r1) (Rlp r2) = (r1 = r2)"
| "HashType_eq keccak (Hash h) (Rlp r) = (keccak r = h)"
| "HashType_eq keccak (Rlp r) (Hash h) = (keccak r = h)"

fun HashType_eq_TrieHash :: "(u8 list \<Rightarrow> trie_hash) \<Rightarrow> hash_type \<Rightarrow> trie_hash \<Rightarrow> bool" where
  "HashType_eq_TrieHash keccak (Hash h) other = (h = other)"
| "HashType_eq_TrieHash keccak (Rlp r) other = (keccak r = other)"

definition HashType_empty :: hash_type where
  "HashType_empty = Hash (replicate 32 0)"

definition TrieHash_try_from :: "u8 list \<Rightarrow> nat + trie_hash" where
  "TrieHash_try_from v = (if length v = 32 then Inr v else Inl (length v))"

definition HashType_try_from :: "u8 list \<Rightarrow> nat + hash_type" where
  "HashType_try_from v = rbind (TrieHash_try_from v) (\<lambda>h. Inr (Hash h))"

definition HashType_as_ref :: "hash_type \<Rightarrow> u8 list" where
  "HashType_as_ref h = (case h of Hash h \<Rightarrow> h | Rlp r \<Rightarrow> r)"

lemma HashType_eq_refl: "HashType_eq keccak h h"
  by (cases h) auto

lemma HashType_eq_sym: "HashType_eq keccak a b \<longleftrightarrow> HashType_eq keccak b a"
  by (cases a; cases b) auto

lemma HashType_eq_into_triehash: "HashType_eq keccak a b \<Longrightarrow> into_triehash keccak a = into_triehash keccak b"
  by (cases a; cases b) auto

end
