(* ===== verification/Node_Codec.thy ===== *)
theory Node_Codec
  imports Byte_Readers
begin

section \<open>The byte encoding of nodes\<close>

text \<open>
  \<open>Node::as_bytes\<close> and \<open>Node::from_reader\<close> of \<open>storage/src/node/mod.rs\<close>: the on-disk format of leaves
  and branches, with the first byte as a bit field, path lengths that overflow into a variable-length
  integer, and children as positions, addresses and hashes. The functions of the variable-length integer
  crate are the arguments \<open>enc\<close> and \<open>rdv\<close>.
\<close>

subsection \<open>The first byte\<close>

definition BRANCH_PARTIAL_PATH_LEN_OVERFLOW :: u8 where
  "BRANCH_PARTIAL_PATH_LEN_OVERFLOW = push_bit 2 1 - 1"

definition LEAF_PARTIAL_PATH_LEN_OVERFLOW :: u8 where
  "LEAF_PARTIAL_PATH_LEN_OVERFLOW = push_bit 7 1 - 2"

definition BranchFirstByte_new :: "u8 \<Rightarrow> u8 \<Rightarrow> u8 \<Rightarrow> u8" where
  "BranchFirstByte_new has_value number_children partial_path_length =
     push_bit 1 (take_bit 1 has_value) OR push_bit 2 (take_bit 4 number_children) OR
     push_bit 6 (take_bit 2 partial_path_length)"

definition BranchFirstByte_has_value :: "u8 \<Rightarrow> u8" where
  "BranchFirstByte_has_value b = take_bit 1 (drop_bit 1 b)"

definition BranchFirstByte_number_children :: "u8 \<Rightarrow> u8" where
  "BranchFirstByte_number_children b = take_bit 4 (drop_bit 2 b)"

definition BranchFirstByte_partial_path_length :: "u8 \<Rightarrow> u8" where
  "BranchFirstByte_partial_path_length b = take_bit 2 (drop_bit 6 b)"

definition LeafFirstByte_new :: "u8 \<Rightarrow> u8 \<Rightarrow> u8" where
  "LeafFirstByte_new is_leaf partial_path_length =
     take_bit 1 is_leaf OR push_bit 1 (take_bit 7 partial_path_length)"

subsection \<open>Encoding\<close>

definition extend_var_int :: "(nat \<Rightarrow> u8 list) \<Rightarrow> nat \<Rightarrow> u8 list" where
  "extend_var_int enc n = enc n"

fun encode_children ::
  "(nat \<Rightarrow> u8 list) \<Rightarrow> node_hash_algorithm \<Rightarrow> bool \<Rightarrow> (pc \<times> child) list \<Rightarrow> u8 list io_result" where
  "encode_children enc alg full [] = Inr []"
| "encode_children enc alg full ((position, ch) # rest) =
     (let pos = (if full then [] else extend_var_int enc (unat (as_u8 position)))
      in rbind (ok_or Panic (child_persist_info ch)) (\<lambda>(address, hash).
         rbind (write_child_hash alg hash) (\<lambda>h.
         rbind (encode_children enc alg full rest) (\<lambda>bs.
         Inr (pos @ u64_to_ne_bytes address @ h @ bs)))))"

fun encode_node :: "(nat \<Rightarrow> u8 list) \<Rightarrow> node_hash_algorithm \<Rightarrow> node \<Rightarrow> u8 list io_result" where
  "encode_node enc alg (Branch path v children) =
     (let child_iter = iter_present children;
          childcount = length child_iter;
          pp_len = (if length path < unat BRANCH_PARTIAL_PATH_LEN_OVERFLOW
                    then word_of_nat (length path) else BRANCH_PARTIAL_PATH_LEN_OVERFLOW);
          first_byte = BranchFirstByte_new (if v \<noteq> None then 1 else 0) (word_of_nat (childcount mod 16)) pp_len
      in rbind (encode_children enc alg (childcount = 16) child_iter) (\<lambda>cs.
         Inr ([first_byte] @
              (if pp_len = BRANCH_PARTIAL_PATH_LEN_OVERFLOW then extend_var_int enc (length path) else []) @
              path @
              (case v of None \<Rightarrow> [] | Some v \<Rightarrow> extend_var_int enc (length v) @ v) @ cs)))"
| "encode_node enc alg (Leaf path v) =
     (let pp_len = (if length path < unat LEAF_PARTIAL_PATH_LEN_OVERFLOW
                    then word_of_nat (length path) else LEAF_PARTIAL_PATH_LEN_OVERFLOW);
          first_byte = LeafFirstByte_new 1 pp_len
      in Inr ([first_byte] @
              (if pp_len = LEAF_PARTIAL_PATH_LEN_OVERFLOW then extend_var_int enc (length path) else []) @
              path @ extend_var_int enc (length v) @ v))"

definition as_bytes ::
  "(nat \<Rightarrow> u8 list) \<Rightarrow> node_hash_algorithm \<Rightarrow> node \<Rightarrow> u8 list \<Rightarrow> (u8 list \<times> area_index) io_result" where
  "as_bytes enc alg n encoded =
     (let area_size_index_position = length encoded
      in rbind (encode_node enc alg n) (\<lambda>body.
           let encoded' = encoded @ [0] @ body;
               node_size = length encoded' - area_size_index_position
           in rbind (from_size node_size) (\<lambda>area_index.
              Inr (encoded'[area_size_index_position := area_index], area_index))))"

subsection \<open>Decoding\<close>

definition read_path_with_provided_length :: "nat \<Rightarrow> path reader_fn" where
  "read_path_with_provided_length len = read_fixed_len len"

definition read_path_with_prefix_length :: "nat reader_fn \<Rightarrow> path reader_fn" where
  "read_path_with_prefix_length rdv = pbind rdv (\<lambda>len. read_path_with_provided_length len)"

definition read_path_with_overflow_length :: "nat reader_fn \<Rightarrow> u8 \<Rightarrow> u8 \<Rightarrow> path reader_fn" where
  "read_path_with_overflow_length rdv v overflow =
     (if v < overflow then read_path_with_provided_length (unat v) else read_path_with_prefix_length rdv)"

definition read_child :: "node_hash_algorithm \<Rightarrow> child reader_fn" where
  "read_child alg =
     pbind (read_exact 8) (\<lambda>address_buf.
     let address = u64_from_ne_bytes address_buf
     in pbind (read_child_hash alg) (\<lambda>hash.
        pbind (pcheck OtherError (LinearAddress_new address)) (\<lambda>addr.
        preturn (AddressWithHash addr hash))))"

fun read_full_children ::
  "node_hash_algorithm \<Rightarrow> pc list \<Rightarrow> child option children \<Rightarrow> child option children reader_fn" where
  "read_full_children alg [] children = preturn children"
| "read_full_children alg (i # slots) children =
     pbind (read_child alg) (\<lambda>ch. read_full_children alg slots (children(i := Some ch)))"

fun read_counted_children ::
  "node_hash_algorithm \<Rightarrow> nat \<Rightarrow> child option children \<Rightarrow> child option children reader_fn" where
  "read_counted_children alg 0 children = preturn children"
| "read_counted_children alg (Suc n) children =
     pbind (read_exact 1) (\<lambda>position_buf.
     pbind (pcheck OtherError (try_new (hd position_buf))) (\<lambda>position.
     pbind (read_child alg) (\<lambda>ch.
     read_counted_children alg n (children(position := Some ch)))))"

definition from_reader :: "nat reader_fn \<Rightarrow> node_hash_algorithm \<Rightarrow> node reader_fn" where
  "from_reader rdv alg =
     pbind read_byte (\<lambda>first_byte.
       if first_byte = 255 then pfail OtherError
       else if first_byte AND 1 = 1 then
         pbind (read_path_with_overflow_length rdv (drop_bit 1 first_byte) LEAF_PARTIAL_PATH_LEN_OVERFLOW) (\<lambda>path.
         pbind rdv (\<lambda>value_len.
         pbind (read_fixed_len value_len) (\<lambda>v.
         preturn (Leaf path v))))
       else
         let has_value = (BranchFirstByte_has_value first_byte = 1);
             childcount = unat (BranchFirstByte_number_children first_byte)
         in pbind (read_path_with_overflow_length rdv (BranchFirstByte_partial_path_length first_byte)
                     BRANCH_PARTIAL_PATH_LEN_OVERFLOW) (\<lambda>path.
            pbind (if has_value
                   then pbind rdv (\<lambda>value_len. pbind (read_fixed_len value_len) (\<lambda>v. preturn (Some v)))
                   else preturn None) (\<lambda>v.
            pbind (if childcount = 0 then read_full_children alg pc_ALL children_new
                   else read_counted_children alg childcount children_new) (\<lambda>children.
            preturn (Branch path v children)))))"

subsection \<open>What is read back\<close>

text \<open>
  A node as it is on disk: every child as an address with a hash. \<open>storable\<close> are the nodes that the
  format can hold: children that have an address and a hash of the right form, and at least one
  child in a branch.
\<close>

definition stored_child :: "child \<Rightarrow> child" where
  "stored_child ch = (case child_persist_info ch of None \<Rightarrow> ch | Some (a, h) \<Rightarrow> AddressWithHash a h)"

fun stored_node :: "node \<Rightarrow> node" where
  "stored_node (Branch p v cs) = Branch p v (\<lambda>i. map_option stored_child (cs i))"
| "stored_node (Leaf p v) = Leaf p v"

definition storable_child :: "node_hash_algorithm \<Rightarrow> child \<Rightarrow> bool" where
  "storable_child alg ch =
     (case child_persist_info ch of None \<Rightarrow> False | Some (a, h) \<Rightarrow> a \<noteq> 0 \<and> storable_hash alg h)"

fun storable :: "node_hash_algorithm \<Rightarrow> node \<Rightarrow> bool" where
  "storable alg (Branch p v cs) =
     (length p \<le> isize_max \<and> pred_option (\<lambda>v. length v \<le> isize_max) v \<and>
      iter_present cs \<noteq> [] \<and> list_all (\<lambda>(i, ch). storable_child alg ch) (iter_present cs))"
| "storable alg (Leaf p v) = (length p \<le> isize_max \<and> length v \<le> isize_max)"

subsection \<open>The first byte is read back\<close>

lemmas byte_bits = bit_take_bit_iff bit_drop_bit_eq bit_or_iff bit_and_iff bit_push_bit_iff o_def

lemma BranchFirstByte_get_new [simp]:
  "BranchFirstByte_has_value (BranchFirstByte_new hv nc pl) = take_bit 1 hv"
  "BranchFirstByte_number_children (BranchFirstByte_new hv nc pl) = take_bit 4 nc"
  "BranchFirstByte_partial_path_length (BranchFirstByte_new hv nc pl) = take_bit 2 pl"
  unfolding BranchFirstByte_has_value_def BranchFirstByte_number_children_def
    BranchFirstByte_partial_path_length_def BranchFirstByte_new_def
  by (rule bit_word_eqI, unfold byte_bits, force)+

lemma BranchFirstByte_even: "BranchFirstByte_new hv nc pl AND 1 = 0"
  unfolding BranchFirstByte_new_def by (rule bit_word_eqI, unfold byte_bits) (auto simp: bit_1_iff)

lemma BranchFirstByte_not_255: "BranchFirstByte_new hv nc pl \<noteq> 255"
proof
  assume "BranchFirstByte_new hv nc pl = 255"
  with BranchFirstByte_even [of hv nc pl] have "(255 :: u8) AND 1 = 0" by simp
  then show False by simp
qed

lemma LeafFirstByte_odd: "LeafFirstByte_new 1 pl AND 1 = 1"
  unfolding LeafFirstByte_new_def by (rule bit_word_eqI, unfold byte_bits) (auto simp: bit_1_iff)

lemma LeafFirstByte_length: "pl < 128 \<Longrightarrow> drop_bit 1 (LeafFirstByte_new 1 pl) = pl"
proof -
  assume "pl < 128"
  then have "take_bit 7 pl = pl" by (simp add: take_bit_eq_mod word_unat_eq_iff unat_mod word_less_nat_alt)
  moreover have "drop_bit 1 (LeafFirstByte_new 1 pl) = take_bit 7 pl"
    unfolding LeafFirstByte_new_def by (rule bit_word_eqI, unfold byte_bits) (auto simp: bit_1_iff)
  ultimately show ?thesis by simp
qed

lemma LeafFirstByte_not_255: "pl \<le> 126 \<Longrightarrow> LeafFirstByte_new 1 pl \<noteq> 255"
proof
  assume "pl \<le> 126" "LeafFirstByte_new 1 pl = 255"
  then have "pl = drop_bit 1 255" using LeafFirstByte_length [of pl] by (simp add: word_less_nat_alt word_le_nat_alt)
  moreover have "drop_bit 1 (255 :: u8) = 127" by simp
  ultimately show False using \<open>pl \<le> 126\<close> by (simp add: word_le_nat_alt)
qed

lemma overflow_values [simp]:
  "BRANCH_PARTIAL_PATH_LEN_OVERFLOW = 3" "LEAF_PARTIAL_PATH_LEN_OVERFLOW = 126"
  by (simp_all add: BRANCH_PARTIAL_PATH_LEN_OVERFLOW_def LEAF_PARTIAL_PATH_LEN_OVERFLOW_def)

lemma first_byte_fields:
  "take_bit 1 (if b then 1 else 0 :: u8) = (if b then 1 else 0)"
  "k < 16 \<Longrightarrow> unat (take_bit 4 (word_of_nat k :: u8)) = k"
  "k < 3 \<Longrightarrow> take_bit 2 (word_of_nat k :: u8) = word_of_nat k"
  by (auto simp: take_bit_eq_mod word_unat_eq_iff unat_mod unat_word_of_nat_eq)

subsection \<open>Children are read back\<close>

lemma LinearAddress_new_ok [simp]: "a \<noteq> 0 \<Longrightarrow> LinearAddress_new a = Some a"
  by (simp add: LinearAddress_new_def)

lemma reads_child:
  assumes "storable_child alg ch"
  shows "\<exists>a h bs. child_persist_info ch = Some (a, h) \<and> write_child_hash alg h = Inr bs \<and>
    reads (read_child alg) (u64_to_ne_bytes a @ bs) (stored_child ch)"
proof -
  from assms obtain a h where info: "child_persist_info ch = Some (a, h)" "a \<noteq> 0" "storable_hash alg h"
    by (auto simp: storable_child_def split: option.splits)
  obtain bs where bs: "write_child_hash alg h = Inr bs" "reads (read_child_hash alg) bs h"
    using reads_child_hash [OF info(3)] by blast
  have "reads (read_child alg) (u64_to_ne_bytes a @ bs) (AddressWithHash a h)"
    unfolding read_child_def
  proof (rule reads_bind [OF reads_exact])
    have "reads (pbind (pcheck OtherError (LinearAddress_new a)) (\<lambda>addr. preturn (AddressWithHash addr h))) []
        (AddressWithHash a h)"
      by (rule reads_check_bind [of _ a]) (simp_all add: info(2) reads_return)
    from reads_bind [OF bs(2), of "\<lambda>h. pbind (pcheck OtherError (LinearAddress_new a)) (\<lambda>addr. preturn (AddressWithHash addr h))", OF this]
    show "reads (let address = u64_from_ne_bytes (u64_to_ne_bytes a)
        in pbind (read_child_hash alg) (\<lambda>hash.
           pbind (pcheck OtherError (LinearAddress_new address)) (\<lambda>addr.
           preturn (AddressWithHash addr hash)))) bs (AddressWithHash a h)"
      by simp
  qed simp
  then show ?thesis using info(1) bs(1) by (auto simp: stored_child_def)
qed

definition put_child :: "pc \<times> child \<Rightarrow> child option children \<Rightarrow> child option children" where
  "put_child e cs = cs(fst e := Some (stored_child (snd e)))"

lemma encode_full_children:
  assumes "list_all (\<lambda>(i, ch). storable_child alg ch) l"
  shows "\<exists>bs. encode_children enc alg True l = Inr bs \<and>
    (\<forall>cs. reads (read_full_children alg (map fst l) cs) bs (fold put_child l cs))"
  using assms
proof (induction l)
  case Nil
  then show ?case by (simp add: reads_return)
next
  case (Cons e l)
  obtain i ch where e: "e = (i, ch)" by fastforce
  obtain a h hb where ch: "child_persist_info ch = Some (a, h)" "write_child_hash alg h = Inr hb"
    "reads (read_child alg) (u64_to_ne_bytes a @ hb) (stored_child ch)"
    using reads_child [of alg ch] Cons.prems e by auto
  obtain bs where bs: "encode_children enc alg True l = Inr bs"
    "\<And>cs. reads (read_full_children alg (map fst l) cs) bs (fold put_child l cs)"
    using Cons by auto
  have "reads (read_full_children alg (map fst (e # l)) cs) ((u64_to_ne_bytes a @ hb) @ bs) (fold put_child (e # l) cs)" for cs
    using reads_bind [OF ch(3), of "\<lambda>ch. read_full_children alg (map fst l) (cs(i := Some ch))" bs] bs(2)
    by (simp add: e put_child_def)
  then show ?case using ch(1,2) bs(1) by (simp add: e Let_def)
qed

lemma fold_put_child:
  "distinct (map fst l) \<Longrightarrow>
   fold put_child l cs = (\<lambda>i. case map_of l i of None \<Rightarrow> cs i | Some ch \<Rightarrow> Some (stored_child ch))"
proof (induction l arbitrary: cs)
  case (Cons e l)
  moreover have "map_of l (fst e) = None" using Cons.prems by (simp add: map_of_eq_None_iff)
  ultimately show ?case by (auto simp: put_child_def fun_eq_iff split: option.splits)
qed simp

lemma map_of_iter_present: "map_of (iter_present cs) i = cs i"
proof (cases "cs i")
  case None
  then have "i \<notin> fst ` set (iter_present cs)" by force
  then show ?thesis using None by (simp add: map_of_eq_None_iff)
next
  case (Some ch)
  then show ?thesis using distinct_iter_present [of cs] by (simp add: map_of_eq_Some_iff)
qed

lemma fold_put_iter_present:
  "fold put_child (iter_present cs) children_new = (\<lambda>i. map_option stored_child (cs i))"
  unfolding fold_put_child [OF distinct_iter_present] map_of_iter_present
  by (auto simp: fun_eq_iff split: option.splits)

lemma full_slots:
  assumes "length (iter_present cs) = 16"
  shows "map fst (iter_present cs) = pc_ALL"
proof -
  have "length (filter (\<lambda>i. cs i \<noteq> None) pc_ALL) = 16"
    using assms unfolding map_fst_iter_present [symmetric] by simp
  then have "\<not> length (filter (\<lambda>i. cs i \<noteq> None) pc_ALL) < length pc_ALL" by simp
  then have "\<And>i. i \<in> set pc_ALL \<Longrightarrow> cs i \<noteq> None"
    using length_filter_less [of _ pc_ALL "\<lambda>i. cs i \<noteq> None"] by blast
  then show ?thesis unfolding map_fst_iter_present by (rule filter_True [OF ballI])
qed

lemma iter_present_le_16: "length (iter_present cs) \<le> 16"
proof -
  have "length (map fst (iter_present cs)) \<le> length pc_ALL"
    unfolding map_fst_iter_present by (rule length_filter_le)
  then show ?thesis by simp
qed

subsection \<open>Nodes are read back\<close>

context varint begin

lemma encode_counted_children:
  assumes "list_all (\<lambda>(i, ch). storable_child alg ch) l"
  shows "\<exists>bs. encode_children encode_var alg False l = Inr bs \<and>
    (\<forall>cs. reads (read_counted_children alg (length l) cs) bs (fold put_child l cs))"
  using assms
proof (induction l)
  case Nil
  then show ?case by (simp add: reads_return)
next
  case (Cons e l)
  obtain i ch where e: "e = (i, ch)" by fastforce
  obtain a h hb where ch: "child_persist_info ch = Some (a, h)" "write_child_hash alg h = Inr hb"
    "reads (read_child alg) (u64_to_ne_bytes a @ hb) (stored_child ch)"
    using reads_child [of alg ch] Cons.prems e by auto
  obtain bs where bs: "encode_children encode_var alg False l = Inr bs"
    "\<And>cs. reads (read_counted_children alg (length l) cs) bs (fold put_child l cs)"
    using Cons by auto
  have pos: "encode_var (unat i) = [as_u8 i]"
    using encode_small [of "unat i"] u4_less_16 [of i] by (simp add: as_u8_def)
  have "reads (read_counted_children alg (length (e # l)) cs) (as_u8 i # (u64_to_ne_bytes a @ hb) @ bs)
      (fold put_child (e # l) cs)" for cs
  proof -
    have "reads (pbind (read_child alg) (\<lambda>ch. read_counted_children alg (length l) (cs(i := Some ch))))
        ((u64_to_ne_bytes a @ hb) @ bs) (fold put_child (e # l) cs)"
      by (rule reads_bind [OF ch(3)]) (use bs(2) in \<open>simp add: e put_child_def\<close>)
    then show ?thesis
      by (simp, intro reads_bind_Cons [OF reads_exact] reads_check_bind [of _ i]) simp_all
  qed
  then show ?case using ch(1,2) bs(1) pos by (simp add: e Let_def extend_var_int_def)
qed

lemma reads_path:
  assumes "length p \<le> isize_max" "v = (if length p < unat ovf then word_of_nat (length p) else ovf)"
  shows "reads (read_path_with_overflow_length read_varint v ovf)
    ((if v = ovf then extend_var_int encode_var (length p) else []) @ p) p"
proof (cases "length p < unat ovf")
  case True
  then have u: "unat v = length p" using assms(2) u8_less_256 [of ovf] by (simp add: unat_word_of_nat_eq)
  then have "v < ovf" "v \<noteq> ovf" using True by (auto simp: word_less_nat_alt)
  then show ?thesis
    using reads_fixed_len [of p] assms(1) u
    by (simp add: read_path_with_overflow_length_def read_path_with_provided_length_def)
next
  case False
  then have "v = ovf" using assms(2) by simp
  moreover have "length p < 2 ^ 64" using assms(1) by (simp add: isize_max_def)
  ultimately show ?thesis
    using reads_bind [OF reads_varint, of "length p" "\<lambda>len. read_path_with_provided_length len" p p]
      reads_fixed_len [of p "length p"] assms(1)
    by (simp add: read_path_with_overflow_length_def read_path_with_prefix_length_def
        read_path_with_provided_length_def extend_var_int_def)
qed

lemma reads_value:
  assumes "length v \<le> isize_max" "reads (f v) bs y"
  shows "reads (pbind read_varint (\<lambda>n. pbind (read_fixed_len n) f)) (extend_var_int encode_var (length v) @ v @ bs) y"
  unfolding extend_var_int_def
proof (rule reads_bind [OF reads_varint])
  show "length v < 2 ^ 64" using assms(1) by (simp add: isize_max_def)
  show "reads (pbind (read_fixed_len (length v)) f) (v @ bs) y"
    by (rule reads_bind [OF reads_fixed_len]) (use assms in auto)
qed

lemma reads_leaf:
  assumes "storable alg (Leaf p v)"
  shows "\<exists>bs. encode_node encode_var alg (Leaf p v) = Inr bs \<and> reads (from_reader read_varint alg) bs (Leaf p v)"
proof -
  define pl :: u8 where "pl = (if length p < unat LEAF_PARTIAL_PATH_LEN_OVERFLOW
    then word_of_nat (length p) else LEAF_PARTIAL_PATH_LEN_OVERFLOW)"
  define fb where "fb = LeafFirstByte_new 1 pl"
  define pre where "pre = (if pl = LEAF_PARTIAL_PATH_LEN_OVERFLOW then extend_var_int encode_var (length p) else [])"
  have le: "pl \<le> 126" unfolding pl_def by (simp add: word_le_nat_alt unat_word_of_nat_eq)
  then have fb: "fb \<noteq> 255" "fb AND 1 = 1" "drop_bit 1 fb = pl"
    unfolding fb_def using LeafFirstByte_not_255 LeafFirstByte_odd LeafFirstByte_length [of pl]
    by (auto simp: word_le_nat_alt word_less_nat_alt)
  have "reads (pbind read_varint (\<lambda>n. pbind (read_fixed_len n) (\<lambda>v. preturn (Leaf p v))))
      (extend_var_int encode_var (length v) @ v @ []) (Leaf p v)"
    using assms by (intro reads_value reads_return) simp
  from reads_bind [OF reads_path [of p pl LEAF_PARTIAL_PATH_LEN_OVERFLOW, OF _ pl_def], 
      where f = "\<lambda>p. pbind read_varint (\<lambda>n. pbind (read_fixed_len n) (\<lambda>v. preturn (Leaf p v)))", OF _ this]
  have "reads (from_reader read_varint alg) (fb # (pre @ p) @ extend_var_int encode_var (length v) @ v @ []) (Leaf p v)"
    using assms fb unfolding from_reader_def pre_def by (intro reads_bind_Cons [OF reads_byte]) simp
  moreover have "encode_node encode_var alg (Leaf p v) =
      Inr (fb # (pre @ p) @ extend_var_int encode_var (length v) @ v @ [])"
    by (simp add: Let_def pl_def fb_def pre_def)
  ultimately show ?thesis by blast
qed

lemma reads_children:
  assumes "storable alg (Branch p v cs)"
  defines "n \<equiv> length (iter_present cs)"
  shows "\<exists>bs. encode_children encode_var alg (n = 16) (iter_present cs) = Inr bs \<and>
    reads (if n mod 16 = 0 then read_full_children alg pc_ALL children_new
           else read_counted_children alg (n mod 16) children_new) bs (\<lambda>i. map_option stored_child (cs i))"
proof (cases "n = 16")
  case True
  then show ?thesis
    using encode_full_children [of alg "iter_present cs" encode_var] full_slots [of cs] assms
    by (auto simp flip: fold_put_iter_present)
next
  case False
  have "0 < n" using assms by simp
  moreover have "n < 16" using False iter_present_le_16 [of cs] unfolding n_def by simp
  ultimately show ?thesis
    using encode_counted_children [of alg "iter_present cs"] False assms
    by (auto simp flip: fold_put_iter_present)
qed

lemma branch_header:
  fixes cs :: "child option children"
  assumes len: "length p \<le> isize_max" "pred_option (\<lambda>v. length v \<le> isize_max) v"
  defines "n \<equiv> length (iter_present cs)"
  shows "\<exists>hd. encode_node encode_var alg (Branch p v cs) =
      rbind (encode_children encode_var alg (n = 16) (iter_present cs)) (\<lambda>cb. Inr (hd @ cb)) \<and>
    (\<forall>cb. from_reader read_varint alg (hd @ cb) =
      pbind (if n mod 16 = 0 then read_full_children alg pc_ALL children_new
             else read_counted_children alg (n mod 16) children_new) (\<lambda>cs. preturn (Branch p v cs)) cb)"
proof -
  define pl :: u8 where "pl = (if length p < unat BRANCH_PARTIAL_PATH_LEN_OVERFLOW
    then word_of_nat (length p) else BRANCH_PARTIAL_PATH_LEN_OVERFLOW)"
  define fb where "fb = BranchFirstByte_new (if v \<noteq> None then 1 else 0) (word_of_nat (n mod 16)) pl"
  define pre where "pre = (if pl = BRANCH_PARTIAL_PATH_LEN_OVERFLOW then extend_var_int encode_var (length p) else [])"
  define vb where "vb = (case v of None \<Rightarrow> [] | Some v \<Rightarrow> extend_var_int encode_var (length v) @ v)"
  let ?rv = "if v \<noteq> None then pbind read_varint (\<lambda>value_len. pbind (read_fixed_len value_len) (\<lambda>v. preturn (Some v)))
    else preturn None"
  let ?children = "if n mod 16 = 0 then read_full_children alg pc_ALL children_new
    else read_counted_children alg (n mod 16) children_new"
  have "n mod 16 < 16" by simp
  then have fb: "fb \<noteq> 255" "fb AND 1 \<noteq> 1" "(BranchFirstByte_has_value fb = 1) = (v \<noteq> None)"
    "unat (BranchFirstByte_number_children fb) = n mod 16" "BranchFirstByte_partial_path_length fb = pl"
    unfolding fb_def pl_def by (simp_all add: BranchFirstByte_even BranchFirstByte_not_255 first_byte_fields)
  have pp: "reads (read_path_with_overflow_length read_varint pl BRANCH_PARTIAL_PATH_LEN_OVERFLOW) (pre @ p) p"
    using reads_path [of p pl BRANCH_PARTIAL_PATH_LEN_OVERFLOW, OF len(1) pl_def] by (simp add: pre_def)
  have val: "reads ?rv vb v"
    using len(2) reads_value [of _ "\<lambda>v. preturn (Some v)" "[]"] by (cases v) (auto simp: vb_def reads_return)
  have "from_reader read_varint alg ([fb] @ (pre @ p) @ vb @ cb) =
      pbind ?children (\<lambda>cs. preturn (Branch p v cs)) cb" for cb
    unfolding from_reader_def reads_bind_app [OF reads_byte]
    using fb by (simp add: Let_def reads_bind_app [OF pp, simplified] reads_bind_app [OF val, simplified])
  moreover have "encode_node encode_var alg (Branch p v cs) =
      rbind (encode_children encode_var alg (n = 16) (iter_present cs)) (\<lambda>cb. Inr (([fb] @ (pre @ p) @ vb) @ cb))"
    by (simp add: Let_def pl_def fb_def pre_def vb_def n_def del: overflow_values)
  ultimately show ?thesis by (metis append_assoc)
qed

lemma reads_branch:
  assumes st: "storable alg (Branch p v cs)"
  shows "\<exists>bs. encode_node encode_var alg (Branch p v cs) = Inr bs \<and>
    reads (from_reader read_varint alg) bs (stored_node (Branch p v cs))"
proof -
  let ?n = "length (iter_present cs)"
  let ?children = "if ?n mod 16 = 0 then read_full_children alg pc_ALL children_new
    else read_counted_children alg (?n mod 16) children_new"
  obtain cb where cb: "encode_children encode_var alg (?n = 16) (iter_present cs) = Inr cb"
    "reads ?children cb (\<lambda>i. map_option stored_child (cs i))"
    using reads_children [OF st] by blast
  obtain hd where hd: "encode_node encode_var alg (Branch p v cs) =
      rbind (encode_children encode_var alg (?n = 16) (iter_present cs)) (\<lambda>cb. Inr (hd @ cb))"
    "\<And>cb. from_reader read_varint alg (hd @ cb) = pbind ?children (\<lambda>cs. preturn (Branch p v cs)) cb"
    using branch_header [of p v alg cs] st by auto
  have "reads (from_reader read_varint alg) (hd @ cb) (stored_node (Branch p v cs))"
    using hd(2) readsD [OF cb(2)] by (simp add: reads_def pbind_def preturn_def)
  then show ?thesis using hd(1) cb(1) by simp
qed

lemma childless_branch:
  assumes "length p \<le> isize_max" "pred_option (\<lambda>v. length v \<le> isize_max) v"
  shows "\<exists>body. encode_node encode_var alg (Branch p v children_new) = Inr body \<and>
    from_reader read_varint alg body = Inl UnexpectedEof"
proof -
  have none: "iter_present children_new = ([] :: (pc \<times> child) list)"
    by (simp add: iter_present_def children_iter_def map_filter_def children_new_def)
  obtain hd where hd: "encode_node encode_var alg (Branch p v children_new) = Inr hd"
    "from_reader read_varint alg hd =
       pbind (read_full_children alg pc_ALL children_new) (\<lambda>cs. preturn (Branch p v cs)) []"
    using branch_header [OF assms, of alg children_new] none by (auto dest: spec [where x = "[]"])
  then show ?thesis by (simp add: pc_ALL_def upt_rec pbind_def read_child_def read_exact_def)
qed

lemma reads_node:
  assumes "storable alg n"
  shows "\<exists>bs. encode_node encode_var alg n = Inr bs \<and> reads (from_reader read_varint alg) bs (stored_node n)"
  using assms reads_leaf reads_branch by (cases n) auto

end

end
