(* ===== verification/Codec_Properties.thy ===== *)
theory Codec_Properties
  imports Node_Codec
begin

section \<open>What the encoding of areas and nodes guarantees\<close>

text \<open>
  The properties of \<open>AreaIndex::from_size\<close>, \<open>Node::as_bytes\<close> and \<open>Node::from_reader\<close>: an encoded node goes
  into the smallest area that holds it and is read back as it is stored on disk.
\<close>

lemma as_bytes_ok:
  assumes "encode_node enc alg n = Inr body" "length body < MAX_AREA_SIZE"
  obtains i where "as_bytes enc alg n buf = Inr (buf @ [i] @ body, i)" "i < 23"
    "length body + 1 \<le> AREA_SIZES ! unat i" "\<And>j. j < unat i \<Longrightarrow> AREA_SIZES ! j < length body + 1"
proof -
  obtain i where i: "from_size (length body + 1) = Inr i" "i < 23" "length body + 1 \<le> AREA_SIZES ! unat i"
    "\<And>j. j < unat i \<Longrightarrow> AREA_SIZES ! j < length body + 1"
    using from_size_fits [of "length body + 1"] assms(2) by auto
  moreover have "as_bytes enc alg n buf = Inr (buf @ [i] @ body, i)"
    using assms(1) i(1) by (simp add: as_bytes_def Let_def)
  ultimately show ?thesis using that by blast
qed

lemma as_bytes_too_large:
  assumes "encode_node enc alg n = Inr body" "MAX_AREA_SIZE \<le> length body"
  shows "as_bytes enc alg n buf = Inl OutOfMemory"
proof -
  have "from_size (length body + 1) = Inl OutOfMemory" using assms(2) by (simp add: from_size_error)
  then show ?thesis using assms(1) by (simp add: as_bytes_def Let_def)
qed

definition sample_branch :: node where
  "sample_branch = Branch [1, 2, 3, 4] (Some [7, 8])
     ((\<lambda>_. None)(3 := Some (AddressWithHash 4096 (Hash (replicate 32 9))),
                 5 := Some (AddressWithHash 8192 (Rlp [1, 2, 3]))))"

lemma sample_branch_storable: "storable Ethereum sample_branch"
  by (simp add: sample_branch_def storable_child_def isize_max_def iter_present_def children_iter_def
      pc_ALL_def upt_rec map_filter_def)

text \<open>
  C18. Every node that can be stored (all children with an address and a hash of the scheme's form,
  at least one child in a branch) is encoded, and \<open>Node::from_reader\<close> reads the encoding back as the
  node with its children in their on-disk form, consuming exactly the encoding. \<open>Node::as_bytes\<close>
  appends to the buffer the index of the smallest area that holds the index byte and the encoding,
  then the encoding; a node that no area holds is refused.
\<close>

theorem node_codec_roundtrip:
  assumes "varint enc rdv" "storable alg n"
  shows "\<exists>body. encode_node enc alg n = Inr body \<and>
    (\<forall>rest. from_reader rdv alg (body @ rest) = Inr (stored_node n, rest)) \<and>
    (if length body < MAX_AREA_SIZE
     then \<exists>i. as_bytes enc alg n buf = Inr (buf @ [i] @ body, i) \<and> unat i < NUM_AREA_SIZES \<and>
            length body + 1 \<le> AREA_SIZES ! unat i \<and> (\<forall>j < unat i. AREA_SIZES ! j < length body + 1)
     else as_bytes enc alg n buf = Inl OutOfMemory)"
proof -
  obtain body where body: "encode_node enc alg n = Inr body" "reads (from_reader rdv alg) body (stored_node n)"
    using varint.reads_node [OF assms] by blast
  have "if length body < MAX_AREA_SIZE
     then \<exists>i. as_bytes enc alg n buf = Inr (buf @ [i] @ body, i) \<and> unat i < NUM_AREA_SIZES \<and>
            length body + 1 \<le> AREA_SIZES ! unat i \<and> (\<forall>j < unat i. AREA_SIZES ! j < length body + 1)
     else as_bytes enc alg n buf = Inl OutOfMemory"
  proof (cases "length body < MAX_AREA_SIZE")
    case True
    show ?thesis
      by (rule as_bytes_ok [OF body(1) True, of buf]) (use True in \<open>auto simp: u8_less_23\<close>)
  next
    case False
    then show ?thesis using as_bytes_too_large [OF body(1), of buf] by simp
  qed
  then show ?thesis using body by (auto simp: reads_def)
qed

theorem node_codec_roundtrip_witness:
  "\<exists>body. encode_node leb128_encode Ethereum sample_branch = Inr body \<and>
     from_reader (leb128_read 10) Ethereum (body @ [1, 2]) = Inr (stored_node sample_branch, [1, 2])"
  using node_codec_roundtrip [OF leb128.varint_axioms sample_branch_storable] by blast

text \<open>
  C25. A branch without children cannot be stored: its child count 0 reads as 16, so reading its
  encoding back finds no children and ends in \<open>UnexpectedEof\<close>.
\<close>

theorem childless_branch_not_readable:
  assumes "varint enc rdv" "length p \<le> isize_max" "pred_option (\<lambda>v. length v \<le> isize_max) v"
  shows "\<exists>body. encode_node enc alg (Branch p v children_new) = Inr body \<and>
    from_reader rdv alg body = Inl UnexpectedEof"
  by (rule varint.childless_branch [OF assms])

theorem childless_branch_not_readable_witness:
  "\<exists>body. encode_node leb128_encode MerkleDB (Branch [1, 2] (Some [3]) children_new) = Inr body \<and>
     from_reader (leb128_read 10) MerkleDB body = Inl UnexpectedEof"
  using childless_branch_not_readable [OF leb128.varint_axioms, of "[1, 2]" "Some [3]" MerkleDB]
  by (simp add: isize_max_def)



end
