(* ===== verification/Storage.thy ===== *)
theory Storage
  imports Byte_Readers
begin

section \<open>Linear storage\<close>

text \<open>
  \<open>storage/src/linear\<close>: a sequence of bytes that is read from an address on and written at an offset
  (\<open>MemStore\<close> of \<open>memory.rs\<close>; \<open>FileBacked\<close> of \<open>filebacked.rs\<close> does the same with \<open>pread\<close> and \<open>pwrite\<close>,
  through the buffering \<open>PredictiveReader\<close>), and the cache of free-list links of \<open>FileBacked\<close>.

  The cache is the third-party crate \<open>lru\<close>. Its \<open>put\<close> is a parameter of the operations that use it;
  the locale \<open>lru_cache\<close> holds what the code relies on: after \<open>put\<close> the cache holds nothing but the new
  entry and entries it held before, any of which may be evicted.
\<close>

record storage =
  st_bytes :: "u8 list"
  st_free_cache :: "laddr \<rightharpoonup> laddr option"

type_synonym free_put = "(laddr \<rightharpoonup> laddr option) \<Rightarrow> laddr \<Rightarrow> laddr option \<Rightarrow> (laddr \<rightharpoonup> laddr option)"

subsection \<open>Reading and writing\<close>

definition stream_from :: "storage \<Rightarrow> nat \<Rightarrow> u8 list" where
  "stream_from st addr = drop addr (st_bytes st)"

definition storage_size :: "storage \<Rightarrow> nat" where
  "storage_size st = length (st_bytes st)"

definition write_bytes :: "u8 list \<Rightarrow> nat \<Rightarrow> u8 list \<Rightarrow> u8 list" where
  "write_bytes bs offset object =
     (let guard = (if offset + length object > length bs
                   then bs @ replicate (offset + length object - length bs) 0 else bs)
      in take offset guard @ object @ drop (offset + length object) guard)"

definition storage_write :: "nat \<Rightarrow> u8 list \<Rightarrow> (storage, nat) sresult" where
  "storage_write offset object st =
     (Inr (length object), st\<lparr>st_bytes := write_bytes (st_bytes st) offset object\<rparr>)"

text \<open>The default \<open>write_batch\<close>: the writes in turn, and the sum of the bytes written.\<close>

fun write_batch_from :: "nat \<Rightarrow> (nat \<times> u8 list) list \<Rightarrow> (storage, nat) sresult" where
  "write_batch_from acc [] = sreturn acc"
| "write_batch_from acc ((offset, object) # writes) =
     sbind (storage_write offset object) (\<lambda>bytes_written.
       if acc + bytes_written < 2 ^ 64 then write_batch_from (acc + bytes_written) writes
       else sfail OtherError)"

definition write_batch :: "(nat \<times> u8 list) list \<Rightarrow> (storage, nat) sresult" where
  "write_batch writes = write_batch_from 0 writes"

subsection \<open>The cache of free-list links\<close>

definition free_list_cache :: "laddr \<Rightarrow> storage \<Rightarrow> laddr option option \<times> storage" where
  "free_list_cache addr st =
     (st_free_cache st addr, st\<lparr>st_free_cache := (st_free_cache st)(addr := None)\<rparr>)"

definition add_to_free_list_cache :: "free_put \<Rightarrow> laddr \<Rightarrow> laddr option \<Rightarrow> storage \<Rightarrow> storage" where
  "add_to_free_list_cache lput addr next st = st\<lparr>st_free_cache := lput (st_free_cache st) addr next\<rparr>"

text \<open>A storage without the cache (\<open>MemStore\<close>): adding is the trait's default, which does nothing.\<close>

definition uncached_put :: free_put where
  "uncached_put c k v = Map.empty"

locale lru_cache =
  fixes lput :: "('k \<rightharpoonup> 'v) \<Rightarrow> 'k \<Rightarrow> 'v \<Rightarrow> ('k \<rightharpoonup> 'v)"
  assumes put_le: "lput c k v \<subseteq>\<^sub>m c(k \<mapsto> v)"
begin

lemma put_cases: "lput c k v k' = Some w \<Longrightarrow> (k' = k \<and> w = v) \<or> (k' \<noteq> k \<and> c k' = Some w)"
proof -
  assume w: "lput c k v k' = Some w"
  then have "(c(k \<mapsto> v)) k' = Some w" using put_le [of c k v] unfolding map_le_def by (metis domI)
  then show ?thesis by (auto split: if_splits)
qed

end

interpretation uncached: lru_cache uncached_put
  by unfold_locales (simp add: uncached_put_def)

text \<open>A cache that never evicts.\<close>

interpretation unbounded: lru_cache "\<lambda>c k v. c(k \<mapsto> v)"
  by unfold_locales simp

subsection \<open>The buffering reader of a file\<close>

text \<open>
  \<open>PredictiveReader\<close> fills a buffer of 1024 bytes by \<open>read_at\<close>, which returns what the file has at the
  offset, and serves reads from it. \<open>buffer\<close> holds the bytes of the last \<open>read_at\<close>; its length is \<open>len\<close>.
\<close>

definition PREDICTIVE_READ_BUFFER_SIZE :: nat where
  "PREDICTIVE_READ_BUFFER_SIZE = 1024"

record predictive_reader =
  pr_buffer :: "u8 list"
  pr_offset :: nat
  pr_len :: nat
  pr_pos :: nat

definition pr_new :: "nat \<Rightarrow> predictive_reader" where
  "pr_new start = \<lparr>pr_buffer = replicate PREDICTIVE_READ_BUFFER_SIZE 0, pr_offset = start, pr_len = 0, pr_pos = 0\<rparr>"

definition read_at :: "u8 list \<Rightarrow> nat \<Rightarrow> nat \<Rightarrow> u8 list" where
  "read_at fd n offset = take n (drop offset fd)"

definition pr_fill :: "u8 list \<Rightarrow> predictive_reader \<Rightarrow> predictive_reader" where
  "pr_fill fd r =
     (if pr_len r = pr_pos r
      then let bs = read_at fd PREDICTIVE_READ_BUFFER_SIZE (pr_offset r)
           in \<lparr>pr_buffer = bs @ drop (length bs) (pr_buffer r), pr_offset = pr_offset r + length bs,
               pr_len = length bs, pr_pos = 0\<rparr>
      else r)"

definition pr_read :: "u8 list \<Rightarrow> nat \<Rightarrow> predictive_reader \<Rightarrow> u8 list \<times> predictive_reader" where
  "pr_read fd n r =
     (let r' = pr_fill fd r;
          max_to_return = min n (pr_len r' - pr_pos r')
      in (take max_to_return (drop (pr_pos r') (pr_buffer r')), r'\<lparr>pr_pos := pr_pos r' + max_to_return\<rparr>))"

definition pr_stream_offset :: "predictive_reader \<Rightarrow> nat" where
  "pr_stream_offset r = pr_offset r - pr_len r + pr_pos r"

text \<open>\<open>Read::read_exact\<close> of the standard library calls \<open>read\<close> until the buffer is full or nothing comes.\<close>

function pr_read_exact :: "u8 list \<Rightarrow> nat \<Rightarrow> predictive_reader \<Rightarrow> u8 list io_result \<times> predictive_reader" where
  "pr_read_exact fd n r =
     (if n = 0 then (Inr [], r)
      else let (bs, r') = pr_read fd n r
           in if bs = [] then (Inl UnexpectedEof, r')
              else let (rest, r'') = pr_read_exact fd (n - length bs) r'
                   in (rbind rest (\<lambda>cs. Inr (bs @ cs)), r''))"
  by pat_completeness auto
termination
  by (relation "measure (\<lambda>(_, n, _). n)") auto

declare pr_read_exact.simps [simp del]

text \<open>The reader's state agrees with the file: the buffer is what the file has before the offset.\<close>

definition pr_ok :: "u8 list \<Rightarrow> predictive_reader \<Rightarrow> bool" where
  "pr_ok fd r \<longleftrightarrow> pr_pos r \<le> pr_len r \<and> pr_len r \<le> pr_offset r \<and>
     take (pr_len r) (pr_buffer r) = take (pr_len r) (drop (pr_offset r - pr_len r) fd) \<and>
     pr_len r \<le> length (pr_buffer r) \<and> (pr_len r = 0 \<or> pr_offset r \<le> length fd)"

lemma pr_ok_new: "pr_ok fd (pr_new start)"
  by (simp add: pr_ok_def pr_new_def)

lemma pr_new_offset [simp]: "pr_stream_offset (pr_new start) = start"
  by (simp add: pr_stream_offset_def pr_new_def)

lemma pr_fill_ok:
  assumes "pr_ok fd r"
  shows "pr_ok fd (pr_fill fd r)" "pr_stream_offset (pr_fill fd r) = pr_stream_offset r"
    "pr_len (pr_fill fd r) = pr_pos (pr_fill fd r) \<longleftrightarrow> length fd \<le> pr_stream_offset r"
proof -
  show "pr_ok fd (pr_fill fd r)" "pr_stream_offset (pr_fill fd r) = pr_stream_offset r"
    "pr_len (pr_fill fd r) = pr_pos (pr_fill fd r) \<longleftrightarrow> length fd \<le> pr_stream_offset r"
    using assms
    by (auto simp: pr_ok_def pr_fill_def Let_def read_at_def pr_stream_offset_def PREDICTIVE_READ_BUFFER_SIZE_def)
qed

lemma pr_read_ok:
  assumes "pr_ok fd r" "pr_read fd n r = (bs, r')"
  shows "pr_ok fd r'" "pr_stream_offset r' = pr_stream_offset r + length bs" "length bs \<le> n"
    "bs = take (length bs) (drop (pr_stream_offset r) fd)"
    "bs = [] \<longleftrightarrow> n = 0 \<or> length fd \<le> pr_stream_offset r"
proof -
  define q where "q = pr_fill fd r"
  define m where "m = min n (pr_len q - pr_pos q)"
  note q = pr_fill_ok [OF assms(1), folded q_def]
  have r': "r' = q\<lparr>pr_pos := pr_pos q + m\<rparr>" and bs: "bs = take m (drop (pr_pos q) (pr_buffer q))"
    using assms(2) by (auto simp: pr_read_def Let_def q_def m_def)
  have pos: "pr_pos q \<le> pr_len q" "pr_len q \<le> pr_offset q" "pr_len q \<le> length (pr_buffer q)"
    and buf: "take (pr_len q) (pr_buffer q) = take (pr_len q) (drop (pr_offset q - pr_len q) fd)"
    using q(1) by (auto simp: pr_ok_def)
  have m: "pr_pos q + m \<le> pr_len q" using pos(1) by (simp add: m_def)
  have len: "length bs = m" using m pos by (simp add: bs)
  have "bs = take m (drop (pr_pos q) (take (pr_len q) (pr_buffer q)))"
    using m by (simp add: bs drop_take min_def)
  also have "\<dots> = take m (drop (pr_stream_offset q) fd)"
    using m unfolding buf by (simp add: drop_take min_def pr_stream_offset_def add.commute)
  finally show "bs = take (length bs) (drop (pr_stream_offset r) fd)" using len q(2) by simp
  show "pr_ok fd r'" using q(1) m by (simp add: r' pr_ok_def)
  show "pr_stream_offset r' = pr_stream_offset r + length bs"
    using pos len q(2) by (simp add: r' pr_stream_offset_def)
  show "length bs \<le> n" using len by (simp add: m_def)
  have "bs = [] \<longleftrightarrow> m = 0" using len by (metis length_0_conv)
  then show "bs = [] \<longleftrightarrow> n = 0 \<or> length fd \<le> pr_stream_offset r"
    using q(3) pos(1) by (auto simp: m_def)
qed

lemma pr_read_exact_ok:
  "pr_ok fd r \<Longrightarrow> \<exists>r'. pr_read_exact fd n r = (map_sum id fst (read_exact n (drop (pr_stream_offset r) fd)), r') \<and>
     pr_ok fd r' \<and> (n \<le> length fd - pr_stream_offset r \<longrightarrow> pr_stream_offset r' = pr_stream_offset r + n)"
proof (induction fd n r rule: pr_read_exact.induct)
  case (1 fd n r)
  show ?case
  proof (cases "n = 0")
    case True
    then show ?thesis using "1.prems" by (simp add: pr_read_exact.simps read_exact_def)
  next
    case False
    obtain bs r' where rd: "pr_read fd n r = (bs, r')" by fastforce
    note ok = pr_read_ok [OF "1.prems" rd]
    show ?thesis
    proof (cases "bs = []")
      case True
      then show ?thesis using False rd ok by (simp add: pr_read_exact.simps read_exact_def)
    next
      case ne: False
      obtain r'' where r'': "pr_read_exact fd (n - length bs) r' =
          (map_sum id fst (read_exact (n - length bs) (drop (pr_stream_offset r') fd)), r'')" "pr_ok fd r''"
        "n - length bs \<le> length fd - pr_stream_offset r' \<longrightarrow> pr_stream_offset r'' = pr_stream_offset r' + (n - length bs)"
        using "1.IH" [OF False rd [symmetric] refl ne ok(1)] by blast
      have le: "length bs \<le> length fd - pr_stream_offset r" using arg_cong [OF ok(4), of length] by simp
      have "bs @ take (n - length bs) (drop (pr_stream_offset r + length bs) fd) = take n (drop (pr_stream_offset r) fd)"
        using ok(3,4) by (metis add.commute drop_drop le_add_diff_inverse take_add)
      then show ?thesis
        using False ne rd ok r'' le
        by (auto simp: pr_read_exact.simps [of fd n r] read_exact_def Let_def)
    qed
  qed
qed

subsection \<open>What is at an address\<close>

text \<open>\<open>holds bs a xs\<close>: the bytes \<open>xs\<close> are at \<open>a\<close>.\<close>

definition holds :: "u8 list \<Rightarrow> nat \<Rightarrow> u8 list \<Rightarrow> bool" where
  "holds bs a xs \<longleftrightarrow> prefix xs (drop a bs)"

lemma holds_prefix: "holds bs a xs \<Longrightarrow> prefix ys xs \<Longrightarrow> holds bs a ys"
  unfolding holds_def by (rule prefix_order.trans)

lemma holds_nth: "holds bs a xs \<longleftrightarrow> (\<forall>i < length xs. a + i < length bs \<and> bs ! (a + i) = xs ! i)"
proof
  assume "holds bs a xs"
  then obtain zs where z: "drop a bs = xs @ zs" unfolding holds_def prefix_def by blast
  show "\<forall>i < length xs. a + i < length bs \<and> bs ! (a + i) = xs ! i"
  proof (intro allI impI)
    fix i assume i: "i < length xs"
    then have "i < length (drop a bs)" by (simp add: z)
    then have "a + i < length bs" by simp
    moreover have "bs ! (a + i) = drop a bs ! i" using calculation by simp
    ultimately show "a + i < length bs \<and> bs ! (a + i) = xs ! i" using i by (simp add: z nth_append)
  qed
next
  assume r: "\<forall>i < length xs. a + i < length bs \<and> bs ! (a + i) = xs ! i"
  then have "length xs \<le> length bs - a"
    by (cases "length xs") (auto dest: spec [of _ "length xs - 1"])
  then have "take (length xs) (drop a bs) = xs" using r by (intro nth_equalityI) auto
  then show "holds bs a xs" unfolding holds_def by (metis take_is_prefix)
qed

lemma length_write_bytes [simp]: "length (write_bytes bs off obj) = max (length bs) (off + length obj)"
  by (auto simp: write_bytes_def Let_def)

lemma nth_write_bytes:
  "i < max (length bs) (off + length obj) \<Longrightarrow>
   write_bytes bs off obj ! i =
     (if off \<le> i \<and> i < off + length obj then obj ! (i - off) else if i < length bs then bs ! i else 0)"
  by (auto simp: write_bytes_def Let_def nth_append min_def)

lemma holds_write_same: "holds (write_bytes bs off obj) off obj"
  by (auto simp: holds_nth nth_write_bytes)

lemma holds_write_other:
  "holds bs a xs \<Longrightarrow> a + length xs \<le> off \<or> off + length obj \<le> a \<Longrightarrow> holds (write_bytes bs off obj) a xs"
  by (auto simp: holds_nth nth_write_bytes)

text \<open>A reader that consumes what is at an address returns it.\<close>

lemma reads_holds: "reads p xs x \<Longrightarrow> holds bs a xs \<Longrightarrow> \<exists>rest. p (drop a bs) = Inr (x, rest)"
  by (auto simp: reads_def holds_def prefix_def)

end
