(* ===== verification/Header.thy ===== *)
theory Header
  imports Storage
begin

section \<open>The database header\<close>

text \<open>
  \<open>NodeStoreHeader\<close> of \<open>storage/src/nodestore/header.rs\<close>: the first 2048 bytes of the storage hold the
  version, the high water mark, the heads of the free lists and the root. The struct is written and
  read as its bytes in memory (\<open>repr(C)\<close>, no padding; \<open>Option<LinearAddress>\<close> is a 64-bit word in
  which 0 is \<open>None\<close>).

  The hash of the area sizes, the cargo version and the \<open>git describe\<close> output come from the build; they
  are the fields of \<open>build_info\<close> and arguments of the operations.
\<close>

subsection \<open>The fields\<close>

definition ascii :: "string \<Rightarrow> u8 list" where
  "ascii s = map of_char s"

type_synonym version = "u8 list"
type_synonym free_lists = "laddr option list"

definition VALID_V1_VERSIONS :: "version list" where
  "VALID_V1_VERSIONS =
     [ascii ''firewood-v1-hfix'',
      ascii ''firewood-v1'' @ [0, 0, 0, 0, 0],
      ascii ''firewood 0.0.18'' @ [0],
      ascii ''firewood 0.0.17'' @ [0],
      ascii ''firewood 0.0.16'' @ [0],
      ascii ''firewood 0.0.15'' @ [0],
      ascii ''firewood 0.0.14'' @ [0],
      ascii ''firewood 0.0.13'' @ [0],
      ascii ''firewood 0.0.12'' @ [0],
      ascii ''firewood 0.0.11'' @ [0],
      ascii ''firewood 0.0.10'' @ [0],
      ascii ''firewood 0.0.9'' @ [0, 0],
      ascii ''firewood 0.0.8'' @ [0, 0],
      ascii ''firewood 0.0.7'' @ [0, 0],
      ascii ''firewood 0.0.6'' @ [0, 0],
      ascii ''firewood 0.0.5'' @ [0, 0],
      ascii ''firewood 0.0.4'' @ [0, 0]]"

definition Version_new :: version where
  "Version_new = VALID_V1_VERSIONS ! 0"

definition Version_validate :: "version \<Rightarrow> unit io_result" where
  "Version_validate v = (if v \<in> set VALID_V1_VERSIONS then Inr () else Inl InvalidData)"

definition has_extended_header_fields :: "version \<Rightarrow> bool" where
  "has_extended_header_fields v \<longleftrightarrow> v = VALID_V1_VERSIONS ! 0 \<or> v = VALID_V1_VERSIONS ! 1"

definition Version_must_recompute_storage_hash :: "version \<Rightarrow> bool" where
  "Version_must_recompute_storage_hash v \<longleftrightarrow> v \<noteq> VALID_V1_VERSIONS ! 0"

text \<open>The loop of \<open>const_copy\<close>: bytes are copied while both slices have one at the index.\<close>

function const_copy_from :: "nat \<Rightarrow> u8 list \<Rightarrow> u8 list \<Rightarrow> u8 list" where
  "const_copy_from i src dst =
     (if i < length src \<and> i < length dst then const_copy_from (i + 1) src (dst[i := src ! i]) else dst)"
  by pat_completeness auto
termination
  by (relation "measure (\<lambda>(i, src, _). length src - i)") auto

declare const_copy_from.simps [simp del]

definition const_copy :: "u8 list \<Rightarrow> u8 list \<Rightarrow> u8 list" where
  "const_copy src dst = const_copy_from 0 src dst"

definition CargoVersion_instance :: "u8 list \<Rightarrow> u8 list" where
  "CargoVersion_instance cargo_pkg_version = const_copy cargo_pkg_version (replicate 32 0)"

definition GitDescribe_instance :: "u8 list \<Rightarrow> u8 list" where
  "GitDescribe_instance git_describe = const_copy git_describe (replicate 64 0)"

definition padded_len :: "u8 list \<Rightarrow> nat" where
  "padded_len bytes = (case list_position ((=) 0) bytes of None \<Rightarrow> length bytes | Some i \<Rightarrow> i)"

definition padded_is_empty :: "u8 list \<Rightarrow> bool" where
  "padded_is_empty bytes \<longleftrightarrow> bytes ! 0 = 0"

definition padded_str :: "u8 list \<Rightarrow> u8 list" where
  "padded_str bytes = take (padded_len bytes) bytes"

record build_info =
  area_sizes_hash :: "u8 list"
  cargo_pkg_version :: "u8 list"
  git_describe_output :: "u8 list"

record node_store_header =
  h_version :: version
  h_endian_test :: u64
  h_size :: u64
  h_free_lists :: free_lists
  h_root_address :: "laddr option"
  h_area_size_hash :: "u8 list"
  h_node_hash_algorithm :: u64
  h_root_hash :: "u8 list"
  h_cargo_version :: "u8 list"
  h_git_describe :: "u8 list"

definition HEADER_SIZE :: u64 where
  "HEADER_SIZE = 2048"

definition FreeLists_new :: free_lists where
  "FreeLists_new = replicate NUM_AREA_SIZES None"

definition TrieHash_empty :: trie_hash where
  "TrieHash_empty = replicate 32 0"

subsection \<open>The hash algorithm\<close>

definition algorithm_as_u64 :: "node_hash_algorithm \<Rightarrow> u64" where
  "algorithm_as_u64 alg = (case alg of MerkleDB \<Rightarrow> 0 | Ethereum \<Rightarrow> 1)"

definition algorithm_try_from :: "u64 \<Rightarrow> u64 + node_hash_algorithm" where
  "algorithm_try_from v = (if v = 0 then Inr MerkleDB else if v = 1 then Inr Ethereum else Inl v)"

definition validate_open :: "node_hash_algorithm \<Rightarrow> node_hash_algorithm \<Rightarrow> unit io_result" where
  "validate_open alg expected = (if alg = expected then Inr () else Inl Unsupported)"

subsection \<open>Operations\<close>

definition NodeStoreHeader_new :: "build_info \<Rightarrow> node_hash_algorithm \<Rightarrow> node_store_header" where
  "NodeStoreHeader_new b alg =
     \<lparr>h_version = Version_new, h_endian_test = 1, h_size = HEADER_SIZE, h_free_lists = FreeLists_new,
      h_root_address = None, h_area_size_hash = area_sizes_hash b, h_node_hash_algorithm = algorithm_as_u64 alg,
      h_root_hash = TrieHash_empty, h_cargo_version = CargoVersion_instance (cargo_pkg_version b),
      h_git_describe = GitDescribe_instance (git_describe_output b)\<rparr>"

definition header_node_hash_algorithm :: "node_store_header \<Rightarrow> node_hash_algorithm io_result" where
  "header_node_hash_algorithm h =
     (case algorithm_try_from (h_node_hash_algorithm h) of Inl _ \<Rightarrow> Inl InvalidData | Inr alg \<Rightarrow> Inr alg)"

definition header_root_hash :: "node_store_header \<Rightarrow> trie_hash option" where
  "header_root_hash h =
     (if has_extended_header_fields (h_version h) \<and> h_root_address h \<noteq> None then Some (h_root_hash h) else None)"

definition set_root_location :: "(laddr \<times> trie_hash) option \<Rightarrow> node_store_header \<Rightarrow> node_store_header" where
  "set_root_location loc h =
     h\<lparr>h_root_address := map_option fst loc,
       h_root_hash := (case map_option snd loc of None \<Rightarrow> TrieHash_empty | Some r \<Rightarrow> r)\<rparr>"

definition header_must_recompute_storage_hash :: "node_store_header \<Rightarrow> bool" where
  "header_must_recompute_storage_hash h = Version_must_recompute_storage_hash (h_version h)"

definition header_cargo_version :: "node_store_header \<Rightarrow> u8 list option" where
  "header_cargo_version h = (if has_extended_header_fields (h_version h) then Some (h_cargo_version h) else None)"

definition header_git_describe :: "node_store_header \<Rightarrow> u8 list option" where
  "header_git_describe h = (if has_extended_header_fields (h_version h) then Some (h_git_describe h) else None)"

definition firewood_version_str :: "node_store_header \<Rightarrow> u8 list option" where
  "firewood_version_str h =
     (case map_option padded_str (header_git_describe h) of
        Some s \<Rightarrow> Some s
      | None \<Rightarrow> map_option padded_str (header_cargo_version h))"

definition validate_endian_test :: "node_store_header \<Rightarrow> unit io_result" where
  "validate_endian_test h = (if h_endian_test h = 1 then Inr () else Inl InvalidData)"

definition validate_area_size_hash :: "build_info \<Rightarrow> node_store_header \<Rightarrow> unit io_result" where
  "validate_area_size_hash b h = (if h_area_size_hash h = area_sizes_hash b then Inr () else Inl InvalidData)"

definition validate_node_hash_algorithm :: "node_hash_algorithm \<Rightarrow> node_store_header \<Rightarrow> unit io_result" where
  "validate_node_hash_algorithm expected h =
     rbind (case algorithm_try_from (h_node_hash_algorithm h) of Inl _ \<Rightarrow> Inl InvalidData | Inr alg \<Rightarrow> Inr alg)
       (\<lambda>alg. validate_open alg expected)"

definition saturating_sub :: "'a :: len word \<Rightarrow> 'a word \<Rightarrow> 'a word" where
  "saturating_sub a b = (if b \<le> a then a - b else 0)"

definition validate_size :: "u64 \<Rightarrow> node_store_header \<Rightarrow> unit io_result" where
  "validate_size st_size h =
     (let size = h_size h
      in if unat size mod MIN_AREA_SIZE \<noteq> 0 then Inl InvalidData
         else if size < HEADER_SIZE then Inl InvalidData
         else if unat (saturating_sub size st_size) \<ge> MAX_AREA_SIZE then Inl InvalidData
         else Inr ())"

definition validate :: "build_info \<Rightarrow> node_hash_algorithm \<Rightarrow> u64 \<Rightarrow> node_store_header \<Rightarrow> unit io_result" where
  "validate b expected st_size h =
     rbind (Version_validate (h_version h)) (\<lambda>_.
     rbind (validate_endian_test h) (\<lambda>_.
     rbind (validate_area_size_hash b h) (\<lambda>_.
     rbind (validate_node_hash_algorithm expected h) (\<lambda>_.
     validate_size st_size h))))"

subsection \<open>The header as bytes\<close>

definition opt_address :: "laddr option \<Rightarrow> u64" where
  "opt_address m = (case m of None \<Rightarrow> 0 | Some a \<Rightarrow> a)"

definition free_lists_bytes :: "free_lists \<Rightarrow> u8 list" where
  "free_lists_bytes fl = concat (map (\<lambda>m. u64_to_ne_bytes (opt_address m)) fl)"

definition header_bytes :: "node_store_header \<Rightarrow> u8 list" where
  "header_bytes h =
     h_version h @ u64_to_ne_bytes (h_endian_test h) @ u64_to_ne_bytes (h_size h) @
     free_lists_bytes (h_free_lists h) @ u64_to_ne_bytes (opt_address (h_root_address h)) @
     h_area_size_hash h @ u64_to_ne_bytes (h_node_hash_algorithm h) @ h_root_hash h @
     h_cargo_version h @ h_git_describe h"

definition free_lists_offset :: nat where
  "free_lists_offset = 16 + 8 + 8"

definition read_u64 :: "u64 reader_fn" where
  "read_u64 = pbind (read_exact 8) (\<lambda>bs. preturn (u64_from_ne_bytes bs))"

definition read_opt_address :: "laddr option reader_fn" where
  "read_opt_address = pbind read_u64 (\<lambda>w. preturn (LinearAddress_new w))"

fun read_many :: "nat \<Rightarrow> 'a reader_fn \<Rightarrow> 'a list reader_fn" where
  "read_many 0 p = preturn []"
| "read_many (Suc n) p = pbind p (\<lambda>x. pbind (read_many n p) (\<lambda>xs. preturn (x # xs)))"

definition header_of_bytes :: "node_store_header reader_fn" where
  "header_of_bytes =
     pbind (read_exact 16) (\<lambda>version.
     pbind read_u64 (\<lambda>endian_test.
     pbind read_u64 (\<lambda>size.
     pbind (read_many NUM_AREA_SIZES read_opt_address) (\<lambda>free_lists.
     pbind read_opt_address (\<lambda>root_address.
     pbind (read_exact 32) (\<lambda>area_size_hash.
     pbind read_u64 (\<lambda>node_hash_algorithm.
     pbind (read_exact 32) (\<lambda>root_hash.
     pbind (read_exact 32) (\<lambda>cargo_version.
     pbind (read_exact 64) (\<lambda>git_describe.
     preturn \<lparr>h_version = version, h_endian_test = endian_test, h_size = size, h_free_lists = free_lists,
       h_root_address = root_address, h_area_size_hash = area_size_hash,
       h_node_hash_algorithm = node_hash_algorithm, h_root_hash = root_hash,
       h_cargo_version = cargo_version, h_git_describe = git_describe\<rparr>))))))))))"

definition read_from_storage ::
  "build_info \<Rightarrow> node_hash_algorithm \<Rightarrow> storage \<Rightarrow> node_store_header io_result" where
  "read_from_storage b expected st =
     rbind (header_of_bytes (stream_from st 0)) (\<lambda>(this, _).
     rbind (validate b expected (word_of_nat (storage_size st)) this) (\<lambda>_.
     Inr this))"

definition read_node_hash_algorithm_from_file :: "u8 list \<Rightarrow> node_hash_algorithm io_result" where
  "read_node_hash_algorithm_from_file contents =
     rbind (header_of_bytes contents) (\<lambda>(header, _). header_node_hash_algorithm header)"

subsection \<open>Well-formed headers\<close>

text \<open>The lengths of the fixed-size arrays, and addresses that are not 0, as the Rust types have them.\<close>

definition header_wf :: "node_store_header \<Rightarrow> bool" where
  "header_wf h \<longleftrightarrow>
     length (h_version h) = 16 \<and> length (h_free_lists h) = NUM_AREA_SIZES \<and>
     list_all (\<lambda>m. m \<noteq> Some 0) (h_free_lists h) \<and> h_root_address h \<noteq> Some 0 \<and>
     length (h_area_size_hash h) = 32 \<and> length (h_root_hash h) = 32 \<and>
     length (h_cargo_version h) = 32 \<and> length (h_git_describe h) = 64"

lemma const_copy_from_eq:
  "i \<le> length src \<Longrightarrow> i \<le> length dst \<Longrightarrow>
   const_copy_from i src dst = take i dst @ take (length dst - i) (drop i src) @ drop (length src) dst"
proof (induction i src dst rule: const_copy_from.induct)
  case (1 i src dst)
  show ?case
  proof (cases "i < length src \<and> i < length dst")
    case True
    have "take (Suc i) (dst[i := src ! i]) = take i dst @ [src ! i]"
      using True by (simp add: take_Suc_conv_app_nth)
    moreover have "take (length dst - i) (drop i src) = src ! i # take (length dst - Suc i) (drop (Suc i) src)"
      using True by (metis Cons_nth_drop_Suc Suc_diff_Suc take_Suc_Cons)
    ultimately show ?thesis
      using True "1.IH" by (simp add: const_copy_from.simps [of i])
  next
    case False
    then have "i = length src \<or> i = length dst" using "1.prems" by auto
    then show ?thesis using False "1.prems" by (auto simp: const_copy_from.simps [of i])
  qed
qed

lemma const_copy_eq: "const_copy src dst = take (length dst) src @ drop (length src) dst"
  by (simp add: const_copy_def const_copy_from_eq)

lemma length_VALID_V1_VERSIONS: "list_all (\<lambda>v. length v = 16) VALID_V1_VERSIONS" "distinct VALID_V1_VERSIONS"
  by (simp_all add: VALID_V1_VERSIONS_def ascii_def)

lemma Version_new_simps [simp]:
  "length Version_new = 16" "Version_validate Version_new = Inr ()" "has_extended_header_fields Version_new"
  "\<not> Version_must_recompute_storage_hash Version_new"
  by (simp_all add: Version_new_def Version_validate_def VALID_V1_VERSIONS_def ascii_def
      has_extended_header_fields_def Version_must_recompute_storage_hash_def)

lemma algorithm_try_from_as_u64 [simp]: "algorithm_try_from (algorithm_as_u64 alg) = Inr alg"
  by (cases alg) (simp_all add: algorithm_as_u64_def algorithm_try_from_def)

lemma length_instances [simp]:
  "length (CargoVersion_instance c) = 32" "length (GitDescribe_instance c) = 64"
  by (simp_all add: CargoVersion_instance_def GitDescribe_instance_def const_copy_eq min_def)

lemma NodeStoreHeader_new_wf: "length (area_sizes_hash b) = 32 \<Longrightarrow> header_wf (NodeStoreHeader_new b alg)"
  by (simp add: header_wf_def NodeStoreHeader_new_def FreeLists_new_def TrieHash_empty_def list_all_length)

lemma set_root_location_wf:
  "header_wf h \<Longrightarrow> pred_option (\<lambda>(a, r). a \<noteq> 0 \<and> length r = 32) loc \<Longrightarrow> header_wf (set_root_location loc h)"
  by (cases loc) (auto simp: header_wf_def set_root_location_def TrieHash_empty_def)

lemma rbind_unit: "rbind m (\<lambda>_ :: unit. k) = Inr y \<longleftrightarrow> m = Inr () \<and> k = Inr y"
  by (cases m) auto

text \<open>A header passes validation exactly if each field does.\<close>

lemma validate_iff:
  "validate b expected st_size h = Inr () \<longleftrightarrow>
     h_version h \<in> set VALID_V1_VERSIONS \<and> h_endian_test h = 1 \<and> h_area_size_hash h = area_sizes_hash b \<and>
     h_node_hash_algorithm h = algorithm_as_u64 expected \<and> unat (h_size h) mod 16 = 0 \<and>
     2048 \<le> unat (h_size h) \<and> unat (h_size h) < unat st_size + MAX_AREA_SIZE"
proof -
  have size: "validate_size st_size h = Inr () \<longleftrightarrow>
      unat (h_size h) mod 16 = 0 \<and> 2048 \<le> unat (h_size h) \<and> unat (h_size h) < unat st_size + MAX_AREA_SIZE"
    by (auto simp: validate_size_def Let_def saturating_sub_def HEADER_SIZE_def word_less_nat_alt
        word_le_nat_alt unat_sub)
  have alg: "validate_node_hash_algorithm expected h = Inr () \<longleftrightarrow> h_node_hash_algorithm h = algorithm_as_u64 expected"
    by (cases expected) (auto simp: validate_node_hash_algorithm_def algorithm_try_from_def algorithm_as_u64_def
        validate_open_def)
  show ?thesis
    unfolding validate_def rbind_unit size alg
    by (auto simp: Version_validate_def validate_endian_test_def validate_area_size_hash_def)
qed

subsection \<open>The header is read back\<close>

lemma reads_u64: "reads read_u64 (u64_to_ne_bytes w) w"
  unfolding read_u64_def by (rule reads_bind_return [OF reads_exact]) simp_all

lemma LinearAddress_new_opt [simp]: "m \<noteq> Some 0 \<Longrightarrow> LinearAddress_new (opt_address m) = m"
  by (cases m) (auto simp: LinearAddress_new_def opt_address_def)

lemma reads_opt_address: "m \<noteq> Some 0 \<Longrightarrow> reads read_opt_address (u64_to_ne_bytes (opt_address m)) m"
  unfolding read_opt_address_def by (rule reads_bind_return [OF reads_u64]) simp

lemma reads_many:
  assumes "\<And>x. x \<in> set xs \<Longrightarrow> reads p (enc x) x"
  shows "reads (read_many (length xs) p) (concat (map enc xs)) xs"
  using assms
proof (induction xs)
  case (Cons x xs)
  have "reads (pbind (read_many (length xs) p) (\<lambda>xs. preturn (x # xs))) (concat (map enc xs)) (x # xs)"
    by (rule reads_bind_return) (use Cons in auto)
  then show ?case using reads_bind [of p "enc x" x] Cons.prems by simp
qed (simp add: reads_return)

lemma reads_free_lists:
  "length fl = NUM_AREA_SIZES \<Longrightarrow> list_all (\<lambda>m. m \<noteq> Some 0) fl \<Longrightarrow>
   reads (read_many NUM_AREA_SIZES read_opt_address) (free_lists_bytes fl) fl"
  using reads_many [of fl read_opt_address "\<lambda>m. u64_to_ne_bytes (opt_address m)"]
  by (auto simp: free_lists_bytes_def list_all_iff reads_opt_address)

lemma reads_header: "header_wf h \<Longrightarrow> reads header_of_bytes (header_bytes h) h"
  unfolding header_of_bytes_def header_bytes_def header_wf_def
  by (elim conjE, intro reads_bind [OF reads_exact] reads_bind [OF reads_u64] reads_bind [OF reads_free_lists]
      reads_bind [OF reads_opt_address] reads_bind_return [OF reads_exact]) simp_all

lemma length_free_lists_bytes: "length (free_lists_bytes fl) = 8 * length fl"
  by (induction fl) (simp_all add: free_lists_bytes_def)

lemma length_header_bytes: "header_wf h \<Longrightarrow> length (header_bytes h) = 392"
  by (simp add: header_wf_def header_bytes_def length_free_lists_bytes)

end
