(* ===== verification/Alloc.thy ===== *)
theory Alloc
  imports Header
begin

section \<open>The allocator and its free lists\<close>

text \<open>
  \<open>storage/src/nodestore/alloc.rs\<close>: areas that are free are chained through their own bytes into one list
  per area size, whose heads are in the header; an allocation takes the head of the list of its size
  or, if that is empty, moves the high water mark; a deletion puts the area at the head of its list.
  The variable-length integer functions are the arguments \<open>enc\<close> and \<open>rdv\<close>, the cache's insertion is
  \<open>lput\<close>. Debug assertions, metrics and logging are not modelled.
\<close>

subsection \<open>Free areas\<close>

record free_area =
  next_free_block :: "laddr option"

definition FreeArea_new :: "laddr option \<Rightarrow> free_area" where
  "FreeArea_new m = \<lparr>next_free_block = m\<rparr>"

definition FreeArea_write_to :: "(nat \<Rightarrow> u8 list) \<Rightarrow> free_area \<Rightarrow> u8 list" where
  "FreeArea_write_to enc fa =
     255 # enc (case next_free_block fa of None \<Rightarrow> 0 | Some a \<Rightarrow> unat a)"

definition FreeArea_as_bytes :: "(nat \<Rightarrow> u8 list) \<Rightarrow> free_area \<Rightarrow> area_index \<Rightarrow> u8 list" where
  "FreeArea_as_bytes enc fa area_index = area_index # FreeArea_write_to enc fa"

definition read_bincode_varint_u64_le :: "u64 reader_fn" where
  "read_bincode_varint_u64_le =
     pbind read_byte (\<lambda>byte.
       if byte \<le> 250 then preturn (ucast byte)
       else if byte = 251 then pbind (read_exact 2) (\<lambda>buf. preturn (word_of_nat (nat_from_le_bytes buf)))
       else if byte = 252 then pbind (read_exact 4) (\<lambda>buf. preturn (word_of_nat (nat_from_le_bytes buf)))
       else if byte = 253 then pbind (read_exact 8) (\<lambda>buf. preturn (word_of_nat (nat_from_le_bytes buf)))
       else pfail InvalidData)"

definition FreeArea_from_reader :: "nat reader_fn \<Rightarrow> free_area reader_fn" where
  "FreeArea_from_reader rdv =
     pbind read_byte (\<lambda>marker.
       if marker = 1 then
         pbind read_byte (\<lambda>option_discriminant.
           if option_discriminant = 0 then preturn \<lparr>next_free_block = None\<rparr>
           else if option_discriminant = 1 then
             pbind read_bincode_varint_u64_le (\<lambda>w.
             pbind (pcheck InvalidData (LinearAddress_new w)) (\<lambda>addr.
             preturn \<lparr>next_free_block = Some addr\<rparr>))
           else pfail InvalidData)
       else if marker = 255 then
         pbind rdv (\<lambda>n. preturn \<lparr>next_free_block = LinearAddress_new (word_of_nat n)\<rparr>)
       else pfail InvalidData)"

definition FreeArea_from_storage_reader :: "nat reader_fn \<Rightarrow> (free_area \<times> area_index) reader_fn" where
  "FreeArea_from_storage_reader rdv =
     pbind read_byte (\<lambda>b.
     pbind (pcheck InvalidData (AreaIndex_new b)) (\<lambda>area_index.
     pbind (FreeArea_from_reader rdv) (\<lambda>free_area.
     preturn (free_area, area_index))))"

definition FreeArea_from_storage ::
  "nat reader_fn \<Rightarrow> storage \<Rightarrow> laddr \<Rightarrow> (free_area \<times> area_index) io_result" where
  "FreeArea_from_storage rdv st address =
     rbind (FreeArea_from_storage_reader rdv (stream_from st (unat address))) (\<lambda>(r, _). Inr r)"

datatype area_kind = Free | NodeArea

record stored_area_info =
  ai_kind :: area_kind
  ai_index :: area_index
  ai_size :: nat

definition read_stored_area_info_from_reader :: "nat reader_fn \<Rightarrow> stored_area_info reader_fn" where
  "read_stored_area_info_from_reader rdv =
     pbind read_byte (\<lambda>b.
     pbind (pcheck InvalidData (AreaIndex_new b)) (\<lambda>index.
     pbind read_byte (\<lambda>marker.
     pbind (if marker = 255 then pbind rdv (\<lambda>_. preturn Free) else preturn NodeArea) (\<lambda>kind.
     preturn \<lparr>ai_kind = kind, ai_index = index, ai_size = AREA_SIZES ! unat index\<rparr>))))"

definition read_stored_area_info :: "nat reader_fn \<Rightarrow> storage \<Rightarrow> laddr \<Rightarrow> stored_area_info io_result" where
  "read_stored_area_info rdv st address =
     rbind (read_stored_area_info_from_reader rdv (stream_from st (unat address))) (\<lambda>(r, _). Inr r)"

definition area_index_and_size :: "storage \<Rightarrow> laddr \<Rightarrow> (area_index \<times> nat) io_result" where
  "area_index_and_size st addr =
     (case read_byte (stream_from st (unat addr)) of
        Inl e \<Rightarrow> Inl InvalidData
      | Inr (b, _) \<Rightarrow> rbind (ok_or InvalidData (AreaIndex_new b)) (\<lambda>index. Inr (index, AREA_SIZES ! unat index)))"

subsection \<open>Allocating\<close>

record allocator =
  al_storage :: storage
  al_header :: node_store_header

definition get_head :: "area_index \<Rightarrow> allocator \<Rightarrow> laddr option" where
  "get_head index al = h_free_lists (al_header al) ! unat index"

definition set_head :: "area_index \<Rightarrow> laddr option \<Rightarrow> allocator \<Rightarrow> allocator" where
  "set_head index m al =
     al\<lparr>al_header := (al_header al)\<lparr>h_free_lists := (h_free_lists (al_header al))[unat index := m]\<rparr>\<rparr>"

definition allocate_from_freed :: "nat reader_fn \<Rightarrow> area_index \<Rightarrow> (allocator, laddr option) sresult" where
  "allocate_from_freed rdv index al =
     (case get_head index al of
        None \<Rightarrow> (Inr None, al)
      | Some address \<Rightarrow>
          let (cached, st) = free_list_cache address (al_storage al); al' = al\<lparr>al_storage := st\<rparr>
          in case cached of
               Some free_head \<Rightarrow> (Inr (Some address), set_head index free_head al')
             | None \<Rightarrow>
                 (case FreeArea_from_storage rdv st address of
                    Inl e \<Rightarrow> (Inl e, al')
                  | Inr (free_head, read_index) \<Rightarrow>
                      (Inr (Some address), set_head index (next_free_block free_head) al')))"

definition saturating_add :: "u64 \<Rightarrow> nat \<Rightarrow> u64" where
  "saturating_add w n = (if unat w + n < 2 ^ 64 then w + word_of_nat n else - 1)"

definition allocate_from_end :: "area_index \<Rightarrow> (allocator, laddr) sresult" where
  "allocate_from_end index al =
     (let area_size = AREA_SIZES ! unat index
      in case LinearAddress_new (h_size (al_header al)) of
           None \<Rightarrow> (Inl Panic, al)
         | Some addr \<Rightarrow>
             (Inr addr, al\<lparr>al_header := (al_header al)\<lparr>h_size := saturating_add (h_size (al_header al)) area_size\<rparr>\<rparr>))"

definition allocate_node :: "nat reader_fn \<Rightarrow> u8 list \<Rightarrow> (allocator, laddr \<times> area_index) sresult" where
  "allocate_node rdv node al =
     (case from_size (length node) of
        Inl e \<Rightarrow> (Inl e, al)
      | Inr area_index \<Rightarrow>
          sbind (allocate_from_freed rdv area_index) (\<lambda>freed.
          sbind (case freed of Some addr \<Rightarrow> sreturn addr | None \<Rightarrow> allocate_from_end area_index) (\<lambda>addr.
          sreturn (addr, area_index))) al)"

subsection \<open>Deleting\<close>

definition delete_area ::
  "(nat \<Rightarrow> u8 list) \<Rightarrow> free_put \<Rightarrow> maybe_persisted \<Rightarrow> (allocator, unit) sresult" where
  "delete_area enc lput node al =
     (case as_linear_address node of
        None \<Rightarrow> (Inr (), al)
      | Some addr \<Rightarrow>
          (case area_index_and_size (al_storage al) addr of
             Inl e \<Rightarrow> (Inl e, al)
           | Inr (area_size_index, _) \<Rightarrow>
               let head = get_head area_size_index al;
                   stored_area_bytes = FreeArea_as_bytes enc (FreeArea_new head) area_size_index
               in case storage_write (unat addr) stored_area_bytes (al_storage al) of
                    (Inl e, st) \<Rightarrow> (Inl e, al\<lparr>al_storage := st\<rparr>)
                  | (Inr _, st) \<Rightarrow>
                      (Inr (), set_head area_size_index (Some addr)
                                 (al\<lparr>al_storage := add_to_free_list_cache lput addr head st\<rparr>))))"

definition flush_freelist :: "(allocator, unit) sresult" where
  "flush_freelist al =
     (case storage_write free_lists_offset (free_lists_bytes (h_free_lists (al_header al))) (al_storage al) of
        (Inl e, st) \<Rightarrow> (Inl e, al\<lparr>al_storage := st\<rparr>)
      | (Inr _, st) \<Rightarrow> (Inr (), al\<lparr>al_storage := st\<rparr>))"

subsection \<open>Iterating over the free lists\<close>

datatype free_list_parent =
    FreeListHead area_index
  | PrevFreeArea area_index laddr

record free_list_iter =
  fi_id :: area_index
  fi_next_addr :: "laddr option"
  fi_parent :: free_list_parent

definition FreeListIterator_new ::
  "area_index \<Rightarrow> laddr option \<Rightarrow> free_list_parent \<Rightarrow> free_list_iter" where
  "FreeListIterator_new free_list_id next_addr src_ptr =
     \<lparr>fi_id = free_list_id, fi_next_addr = next_addr, fi_parent = src_ptr\<rparr>"

definition fi_next ::
  "nat reader_fn \<Rightarrow> storage \<Rightarrow> free_list_iter \<Rightarrow> (laddr \<times> area_index) io_result option \<times> free_list_iter" where
  "fi_next rdv st it =
     (case fi_next_addr it of
        None \<Rightarrow> (None, it)
      | Some next_addr \<Rightarrow>
          (case FreeArea_from_storage rdv st next_addr of
             Inl e \<Rightarrow> (Some (Inl e), it\<lparr>fi_next_addr := None\<rparr>)
           | Inr (free_area, stored_area_index) \<Rightarrow>
               (Some (Inr (next_addr, stored_area_index)),
                it\<lparr>fi_parent := PrevFreeArea stored_area_index next_addr,
                   fi_next_addr := next_free_block free_area\<rparr>)))"

record free_area_with_metadata =
  fm_addr :: laddr
  fm_area_index :: area_index
  fm_free_list_id :: area_index

definition fi_next_with_metadata ::
  "nat reader_fn \<Rightarrow> storage \<Rightarrow> free_list_iter \<Rightarrow>
   (free_area_with_metadata io_result \<times> free_list_parent) option \<times> free_list_iter" where
  "fi_next_with_metadata rdv st it =
     (let parent = fi_parent it
      in case fi_next rdv st it of
           (None, it') \<Rightarrow> (None, it')
         | (Some r, it') \<Rightarrow>
             (Some (rbind r (\<lambda>(addr, area_index).
                      Inr \<lparr>fm_addr = addr, fm_area_index = area_index, fm_free_list_id = fi_id it'\<rparr>), parent), it'))"

record free_lists_iter =
  fli_next_free_list_id :: "area_index option"
  fli_current :: "(area_index \<times> free_list_iter) option"

definition free_list_iterator :: "free_lists \<Rightarrow> area_index \<Rightarrow> area_index \<times> free_list_iter" where
  "free_list_iterator fl free_list_id =
     (free_list_id, FreeListIterator_new free_list_id (fl ! unat free_list_id) (FreeListHead free_list_id))"

definition next_area_index :: "area_index \<Rightarrow> area_index option" where
  "next_area_index index = (if index = 255 then None else AreaIndex_new (index + 1))"

definition FreeListsIterator_new :: "free_lists \<Rightarrow> area_index \<Rightarrow> free_lists_iter" where
  "FreeListsIterator_new fl start_area_index =
     \<lparr>fli_next_free_list_id = next_area_index start_area_index,
      fli_current = Some (free_list_iterator fl start_area_index)\<rparr>"

definition move_to_next_free_list :: "free_lists \<Rightarrow> free_lists_iter \<Rightarrow> free_lists_iter" where
  "move_to_next_free_list fl it =
     (case fli_next_free_list_id it of
        None \<Rightarrow> it\<lparr>fli_current := None\<rparr>
      | Some next_free_list_id \<Rightarrow>
          \<lparr>fli_next_free_list_id = next_area_index next_free_list_id,
           fli_current = Some (free_list_iterator fl next_free_list_id)\<rparr>)"

definition lists_left :: "free_lists_iter \<Rightarrow> nat" where
  "lists_left it =
     (if fli_current it = None then 0
      else case fli_next_free_list_id it of None \<Rightarrow> 1 | Some i \<Rightarrow> 2 + (255 - unat i))"

lemma lists_left_move [simp]:
  "fli_current it = Some c \<Longrightarrow>
   lists_left (move_to_next_free_list fl (it\<lparr>fli_current := Some c'\<rparr>)) < lists_left it"
proof (cases "fli_next_free_list_id it")
  case (Some i)
  have "unat (i + 1) = unat i + 1 \<and> unat i < 255" if "i \<noteq> 255"
    using that u8_less_256 [of i] by (simp add: unat_word_ariths word_unat_eq_iff)
  then show "fli_current it = Some c \<Longrightarrow> ?thesis" using Some
    by (auto simp: lists_left_def move_to_next_free_list_def next_area_index_def free_list_iterator_def
        split: option.splits)
qed (auto simp: lists_left_def move_to_next_free_list_def)

function next_inner ::
  "free_lists \<Rightarrow> (free_list_iter \<Rightarrow> 't option \<times> free_list_iter) \<Rightarrow> free_lists_iter \<Rightarrow> 't option \<times> free_lists_iter" where
  "next_inner fl next_fn it =
     (case fli_current it of
        None \<Rightarrow> (None, it)
      | Some (i, free_list_iter) \<Rightarrow>
          (case next_fn free_list_iter of
             (Some next, free_list_iter') \<Rightarrow> (Some next, it\<lparr>fli_current := Some (i, free_list_iter')\<rparr>)
           | (None, free_list_iter') \<Rightarrow>
               next_inner fl next_fn (move_to_next_free_list fl (it\<lparr>fli_current := Some (i, free_list_iter')\<rparr>))))"
  by pat_completeness auto
termination
  by (relation "measure (\<lambda>(_, _, it). lists_left it)") auto

declare next_inner.simps [simp del]

definition fli_next_with_metadata ::
  "nat reader_fn \<Rightarrow> storage \<Rightarrow> free_lists \<Rightarrow> free_lists_iter \<Rightarrow>
   (free_area_with_metadata io_result \<times> free_list_parent) option \<times> free_lists_iter" where
  "fli_next_with_metadata rdv st fl it = next_inner fl (fi_next_with_metadata rdv st) it"

definition fli_next ::
  "nat reader_fn \<Rightarrow> storage \<Rightarrow> free_lists \<Rightarrow> free_lists_iter \<Rightarrow>
   (laddr \<times> area_index) io_result option \<times> free_lists_iter" where
  "fli_next rdv st fl it = next_inner fl (fi_next rdv st) it"

subsection \<open>Truncating a free list\<close>

definition truncate_free_list ::
  "(nat \<Rightarrow> u8 list) \<Rightarrow> free_list_parent \<Rightarrow> storage \<times> free_lists \<Rightarrow> unit io_result \<times> storage \<times> free_lists" where
  "truncate_free_list enc parent s =
     (case s of (st, fl) \<Rightarrow>
        (case parent of
           FreeListHead area_size_index \<Rightarrow> (Inr (), st, fl[unat area_size_index := None])
         | PrevFreeArea area_size_idx parent_addr \<Rightarrow>
             (case storage_write (unat parent_addr)
                     (FreeArea_as_bytes enc (FreeArea_new None) area_size_idx) st of
                (Inl e, st') \<Rightarrow> (Inl e, st', fl)
              | (Inr _, st') \<Rightarrow> (Inr (), st', fl))))"

end
