(* ===== verification/Alloc_Safety.thy ===== *)
theory Alloc_Safety
  imports Alloc
begin

section \<open>The allocator never hands out an area in use\<close>

text \<open>
  The invariant of the allocator: every free list is a finite chain of free areas, and the areas of
  the free lists together with the areas in use are pairwise disjoint, aligned, and between the header
  and the high water mark. \<open>used\<close> is the set of areas in use; \<open>fl\<close> gives the addresses in each free list.
  Allocation and deletion keep it, so an allocated area overlaps no area in use, and deletion
  writes to the freed area only.
\<close>

subsection \<open>Areas\<close>

type_synonym area = "laddr \<times> area_index"

fun area_start :: "area \<Rightarrow> nat" where
  "area_start (a, i) = unat a"

fun area_end :: "area \<Rightarrow> nat" where
  "area_end (a, i) = unat a + AREA_SIZES ! unat i"

definition disjoint_areas :: "area \<Rightarrow> area \<Rightarrow> bool" where
  "disjoint_areas x y \<longleftrightarrow> area_end x \<le> area_start y \<or> area_end y \<le> area_start x"

fun area_ok :: "nat \<Rightarrow> area \<Rightarrow> bool" where
  "area_ok hwm (a, i) \<longleftrightarrow> i < 23 \<and> a \<noteq> 0 \<and> 16 dvd unat a \<and> 2048 \<le> unat a \<and> area_end (a, i) \<le> hwm"

lemma area_size_bounds:
  fixes i :: area_index
  assumes "i < 23"
  shows "16 \<le> AREA_SIZES ! unat i" "16 dvd AREA_SIZES ! unat i" "AREA_SIZES ! unat i \<le> MAX_AREA_SIZE"
proof -
  have "list_all (\<lambda>sz. 16 \<le> sz \<and> 16 dvd sz \<and> sz \<le> MAX_AREA_SIZE) AREA_SIZES"
    by (simp add: AREA_SIZES_def)
  then have "\<forall>j < 23. 16 \<le> AREA_SIZES ! j \<and> 16 dvd AREA_SIZES ! j \<and> AREA_SIZES ! j \<le> MAX_AREA_SIZE"
    unfolding list_all_length by simp
  then show "16 \<le> AREA_SIZES ! unat i" "16 dvd AREA_SIZES ! unat i" "AREA_SIZES ! unat i \<le> MAX_AREA_SIZE"
    using assms by (auto simp: u8_less_23)
qed

lemma disjoint_areas_sym: "disjoint_areas x y \<longleftrightarrow> disjoint_areas y x"
  by (auto simp: disjoint_areas_def)

lemma disjoint_areas_irrefl: "snd x < 23 \<Longrightarrow> \<not> disjoint_areas x x"
  using area_size_bounds(1) [of "snd x"] by (cases x) (auto simp: disjoint_areas_def)

subsection \<open>Chains of free areas\<close>

text \<open>\<open>free_at\<close>: a free area of size index \<open>i\<close> is stored at \<open>a\<close>, with \<open>m\<close> as the next one; the cache has no other link.\<close>

definition free_at :: "nat reader_fn \<Rightarrow> storage \<Rightarrow> area_index \<Rightarrow> laddr \<Rightarrow> laddr option \<Rightarrow> bool" where
  "free_at rdv st i a m \<longleftrightarrow>
     (\<exists>xs. holds (st_bytes st) (unat a) xs \<and> length xs \<le> 16 \<and>
           reads (FreeArea_from_storage_reader rdv) xs (\<lparr>next_free_block = m\<rparr>, i)) \<and>
     (st_free_cache st a = None \<or> st_free_cache st a = Some m)"

fun chain :: "nat reader_fn \<Rightarrow> storage \<Rightarrow> area_index \<Rightarrow> laddr option \<Rightarrow> laddr list \<Rightarrow> bool" where
  "chain rdv st i m [] \<longleftrightarrow> m = None"
| "chain rdv st i m (a # l) \<longleftrightarrow> m = Some a \<and> (\<exists>m'. free_at rdv st i a m' \<and> chain rdv st i m' l)"

definition free_areas :: "(area_index \<Rightarrow> laddr list) \<Rightarrow> area set" where
  "free_areas fl = {(a, i). i < 23 \<and> a \<in> set (fl i)}"

lemma free_at_read: "free_at rdv st i a m \<Longrightarrow> FreeArea_from_storage rdv st a = Inr (\<lparr>next_free_block = m\<rparr>, i)"
  unfolding free_at_def FreeArea_from_storage_def stream_from_def
  using reads_holds by fastforce

lemma free_at_mono:
  assumes "free_at rdv st i a m"
    "\<And>xs. holds (st_bytes st) (unat a) xs \<Longrightarrow> length xs \<le> 16 \<Longrightarrow> holds (st_bytes st') (unat a) xs"
    "st_free_cache st' a = None \<or> st_free_cache st' a = st_free_cache st a"
  shows "free_at rdv st' i a m"
  using assms unfolding free_at_def by metis

lemma chain_mono:
  assumes "chain rdv st i m l"
    "\<And>a xs. a \<in> set l \<Longrightarrow> holds (st_bytes st) (unat a) xs \<Longrightarrow> length xs \<le> 16 \<Longrightarrow> holds (st_bytes st') (unat a) xs"
    "\<And>a. a \<in> set l \<Longrightarrow> st_free_cache st' a = None \<or> st_free_cache st' a = st_free_cache st a"
  shows "chain rdv st' i m l"
  using assms
proof (induction l arbitrary: m)
  case (Cons a l)
  then obtain m' where m': "m = Some a" "free_at rdv st i a m'" "chain rdv st i m' l" by auto
  have "free_at rdv st' i a m'" by (rule free_at_mono [OF m'(2)]) (use Cons.prems in auto)
  moreover have "chain rdv st' i m' l" by (rule Cons.IH [OF m'(3)]) (use Cons.prems in auto)
  ultimately show ?case using m'(1) by auto
qed simp

lemma chain_None: "chain rdv st i None l \<longleftrightarrow> l = []"
  by (cases l) auto

subsection \<open>The invariant\<close>

definition heads_ok :: "nat reader_fn \<Rightarrow> allocator \<Rightarrow> (area_index \<Rightarrow> laddr list) \<Rightarrow> bool" where
  "heads_ok rdv al fl \<longleftrightarrow>
     (\<forall>i < 23. chain rdv (al_storage al) i (get_head i al) (fl i) \<and> distinct (fl i))"

definition areas_ok :: "nat \<Rightarrow> area set \<Rightarrow> bool" where
  "areas_ok hwm A \<longleftrightarrow> (\<forall>x \<in> A. area_ok hwm x) \<and> pairwise disjoint_areas A"

definition alloc_inv :: "nat reader_fn \<Rightarrow> allocator \<Rightarrow> area set \<Rightarrow> (area_index \<Rightarrow> laddr list) \<Rightarrow> bool" where
  "alloc_inv rdv al used fl \<longleftrightarrow>
     length (h_free_lists (al_header al)) = 23 \<and>
     2048 \<le> unat (h_size (al_header al)) \<and> 16 dvd unat (h_size (al_header al)) \<and>
     heads_ok rdv al fl \<and>
     used \<inter> free_areas fl = {} \<and> areas_ok (unat (h_size (al_header al))) (used \<union> free_areas fl)"

lemma get_set_head:
  "length (h_free_lists (al_header al)) = 23 \<Longrightarrow> i < 23 \<Longrightarrow> get_head j (set_head i m al) = (if j = i then m else get_head j al)"
  by (auto simp: get_head_def set_head_def u8_less_23 nth_list_update word_unat_eq_iff)

lemma set_head_simps [simp]:
  "al_storage (set_head i m al) = al_storage al"
  "h_size (al_header (set_head i m al)) = h_size (al_header al)"
  "length (h_free_lists (al_header (set_head i m al))) = length (h_free_lists (al_header al))"
  by (simp_all add: set_head_def)

lemma get_head_storage [simp]: "get_head i (al\<lparr>al_storage := st\<rparr>) = get_head i al"
  by (simp add: get_head_def)

lemma areas_ok_insert:
  "areas_ok hwm (insert x A) \<longleftrightarrow> area_ok hwm x \<and> (\<forall>y \<in> A - {x}. disjoint_areas x y) \<and> areas_ok hwm A"
  unfolding areas_ok_def pairwise_insert using disjoint_areas_sym by blast

lemma areas_ok_subset: "areas_ok hwm A \<Longrightarrow> B \<subseteq> A \<Longrightarrow> areas_ok hwm B"
  by (auto simp: areas_ok_def dest: pairwise_subset)

lemma areas_ok_grow: "areas_ok hwm A \<Longrightarrow> hwm \<le> hwm' \<Longrightarrow> areas_ok hwm' A"
  by (fastforce simp: areas_ok_def)

lemma areas_okD: "areas_ok hwm A \<Longrightarrow> x \<in> A \<Longrightarrow> area_ok hwm x"
  by (simp add: areas_ok_def)

lemma areas_ok_disjoint: "areas_ok hwm A \<Longrightarrow> x \<in> A \<Longrightarrow> y \<in> A \<Longrightarrow> x \<noteq> y \<Longrightarrow> disjoint_areas x y"
  by (auto simp: areas_ok_def dest: pairwiseD)

lemma alloc_inv_list:
  "alloc_inv rdv al used fl \<Longrightarrow> i < 23 \<Longrightarrow> chain rdv (al_storage al) i (get_head i al) (fl i)"
  "alloc_inv rdv al used fl \<Longrightarrow> i < 23 \<Longrightarrow> distinct (fl i)"
  by (simp_all add: alloc_inv_def heads_ok_def)

lemma free_areas_pop:
  assumes "fl i = a # l" "distinct (fl i)" "i < 23"
  shows "free_areas (fl(i := l)) = free_areas fl - {(a, i)}" "(a, i) \<in> free_areas fl"
  using assms by (auto simp: free_areas_def split: if_splits)

lemma free_areas_push: "i < 23 \<Longrightarrow> free_areas (fl(i := a # fl i)) = insert (a, i) (free_areas fl)"
  by (auto simp: free_areas_def split: if_splits)

subsection \<open>Allocation\<close>

lemma allocate_from_freed_pop:
  assumes "alloc_inv rdv al used fl" "i < 23" "fl i = a # l"
  obtains al' where "allocate_from_freed rdv i al = (Inr (Some a), al')"
    "alloc_inv rdv al' (insert (a, i) used) (fl(i := l))"
    "st_bytes (al_storage al') = st_bytes (al_storage al)" "h_size (al_header al') = h_size (al_header al)"
proof -
  define st where "st = (al_storage al)\<lparr>st_free_cache := (st_free_cache (al_storage al))(a := None)\<rparr>"
  obtain m where m: "get_head i al = Some a" "free_at rdv (al_storage al) i a m" "chain rdv (al_storage al) i m l"
    and d: "distinct (fl i)"
    using alloc_inv_list [OF assms(1,2)] assms(3) by auto
  have "free_at rdv st i a m" by (rule free_at_mono [OF m(2)]) (simp_all add: st_def)
  then have al': "allocate_from_freed rdv i al = (Inr (Some a), set_head i m (al\<lparr>al_storage := st\<rparr>))"
    using m(1,2) free_at_read unfolding free_at_def
    by (fastforce simp: allocate_from_freed_def free_list_cache_def st_def)
  have "alloc_inv rdv (set_head i m (al\<lparr>al_storage := st\<rparr>)) (insert (a, i) used) (fl(i := l))"
  proof -
    have "chain rdv st j (get_head j al) (fl j)" if "j < 23" for j
      by (rule chain_mono [of rdv "al_storage al"]) (use assms that in \<open>auto simp: alloc_inv_def heads_ok_def st_def\<close>)
    moreover have "chain rdv st i m l" by (rule chain_mono [OF m(3)]) (auto simp: st_def)
    ultimately have "heads_ok rdv (set_head i m (al\<lparr>al_storage := st\<rparr>)) (fl(i := l))"
      using assms d by (auto simp: heads_ok_def alloc_inv_def get_set_head)
    moreover have "insert (a, i) used \<union> free_areas (fl(i := l)) = used \<union> free_areas fl"
      "insert (a, i) used \<inter> free_areas (fl(i := l)) = {}"
      using free_areas_pop [of fl i a l] d assms by (auto simp: alloc_inv_def)
    ultimately show ?thesis using assms(1) by (simp add: alloc_inv_def)
  qed
  with al' that show thesis by (simp add: st_def)
qed

lemma allocate_from_freed_empty:
  assumes "alloc_inv rdv al used fl" "i < 23" "fl i = []"
  shows "allocate_from_freed rdv i al = (Inr None, al)"
proof -
  have "get_head i al = None" using alloc_inv_list(1) [OF assms(1,2)] assms(3) by simp
  then show ?thesis by (simp add: allocate_from_freed_def)
qed

lemma allocate_from_end_grow:
  assumes inv: "alloc_inv rdv al used fl" and i: "i < 23"
    and fits: "unat (h_size (al_header al)) + AREA_SIZES ! unat i < 2 ^ 64"
  obtains al' where "allocate_from_end i al = (Inr (h_size (al_header al)), al')"
    "alloc_inv rdv al' (insert (h_size (al_header al), i) used) fl"
    "(h_size (al_header al), i) \<notin> used \<union> free_areas fl"
    "al_storage al' = al_storage al"
    "unat (h_size (al_header al')) = unat (h_size (al_header al)) + AREA_SIZES ! unat i"
proof -
  define a where "a = h_size (al_header al)"
  define al' where "al' = al\<lparr>al_header := (al_header al)\<lparr>h_size := saturating_add a (AREA_SIZES ! unat i)\<rparr>\<rparr>"
  have a: "2048 \<le> unat a" "16 dvd unat a" using inv by (auto simp: alloc_inv_def a_def)
  then have "a \<noteq> 0" by auto
  then have 1: "allocate_from_end i al = (Inr a, al')"
    by (simp add: allocate_from_end_def LinearAddress_new_def al'_def flip: a_def)
  note sz = area_size_bounds [OF i]
  have u: "unat (word_of_nat (AREA_SIZES ! unat i) :: u64) = AREA_SIZES ! unat i"
    using sz(3) by (simp add: unat_word_of_nat_eq)
  have size: "unat (h_size (al_header al')) = unat a + AREA_SIZES ! unat i"
    using fits u by (simp add: al'_def saturating_add_def unat_word_ariths flip: a_def)
  have old: "areas_ok (unat a) (used \<union> free_areas fl)" using inv by (simp add: alloc_inv_def a_def)
  have new: "(a, i) \<notin> used \<union> free_areas fl" using areas_okD [OF old] sz(1) by fastforce
  have dis: "disjoint_areas (a, i) y" if "y \<in> used \<union> free_areas fl" for y
    using areas_okD [OF old that] by (cases y) (auto simp: disjoint_areas_def)
  have "areas_ok (unat (h_size (al_header al'))) (insert (a, i) (used \<union> free_areas fl))"
    unfolding areas_ok_insert using a \<open>a \<noteq> 0\<close> i size dis areas_ok_grow [OF old] by (auto simp: u8_less_23)
  moreover have "heads_ok rdv al' fl" using inv by (simp add: alloc_inv_def heads_ok_def al'_def get_head_def)
  ultimately have "alloc_inv rdv al' (insert (a, i) used) fl"
    using inv a new sz(2) size by (auto simp: alloc_inv_def al'_def simp flip: a_def)
  then show thesis using that 1 new size by (simp add: a_def al'_def)
qed

lemma allocate_node_inv:
  assumes inv: "alloc_inv rdv al used fl" and len: "length node \<le> MAX_AREA_SIZE"
    and fits: "unat (h_size (al_header al)) + MAX_AREA_SIZE < 2 ^ 64"
  obtains a i al' fl' where "allocate_node rdv node al = (Inr (a, i), al')"
    "i < 23" "length node \<le> AREA_SIZES ! unat i" "\<And>j. j < unat i \<Longrightarrow> AREA_SIZES ! j < length node"
    "alloc_inv rdv al' (insert (a, i) used) fl'" "(a, i) \<notin> used"
    "st_bytes (al_storage al') = st_bytes (al_storage al)"
    "case fl i of b # l \<Rightarrow> a = b \<and> fl' = fl(i := l) \<and> h_size (al_header al') = h_size (al_header al)
     | [] \<Rightarrow> a = h_size (al_header al) \<and> fl' = fl \<and>
         unat (h_size (al_header al')) = unat (h_size (al_header al)) + AREA_SIZES ! unat i"
proof -
  obtain i where i: "from_size (length node) = Inr i" "i < 23" "length node \<le> AREA_SIZES ! unat i"
    "\<And>j. j < unat i \<Longrightarrow> AREA_SIZES ! j < length node"
    using from_size_fits [OF len] by metis
  show thesis
  proof (cases "fl i")
    case Nil
    have "unat (h_size (al_header al)) + AREA_SIZES ! unat i < 2 ^ 64"
      using fits area_size_bounds(3) [OF i(2)] by simp
    then obtain al' where al': "allocate_from_end i al = (Inr (h_size (al_header al)), al')"
      "alloc_inv rdv al' (insert (h_size (al_header al), i) used) fl"
      "(h_size (al_header al), i) \<notin> used \<union> free_areas fl" "al_storage al' = al_storage al"
      "unat (h_size (al_header al')) = unat (h_size (al_header al)) + AREA_SIZES ! unat i"
      by (rule allocate_from_end_grow [OF inv i(2)])
    then have "allocate_node rdv node al = (Inr (h_size (al_header al), i), al')"
      using i(1) allocate_from_freed_empty [OF inv i(2) Nil] by (simp add: allocate_node_def sbind_def)
    then show thesis by (rule that) (use al' i Nil in auto)
  next
    case (Cons a l)
    obtain al' where al': "allocate_from_freed rdv i al = (Inr (Some a), al')"
      "alloc_inv rdv al' (insert (a, i) used) (fl(i := l))"
      "st_bytes (al_storage al') = st_bytes (al_storage al)" "h_size (al_header al') = h_size (al_header al)"
      by (rule allocate_from_freed_pop [OF inv i(2) Cons])
    have "(a, i) \<in> free_areas fl" using Cons i(2) by (simp add: free_areas_def)
    then have "(a, i) \<notin> used" using inv by (auto simp: alloc_inv_def)
    have "allocate_node rdv node al = (Inr (a, i), al')"
      using al'(1) i(1) by (simp add: allocate_node_def sbind_def)
    then show thesis by (rule that) (use al' i Cons \<open>(a, i) \<notin> used\<close> in auto)
  qed
qed

subsection \<open>Deletion\<close>

context varint begin

lemma reads_FreeArea:
  assumes "m \<noteq> Some 0" "i < 23"
  shows "reads (FreeArea_from_storage_reader read_varint) (FreeArea_as_bytes encode_var (FreeArea_new m) i)
    (\<lparr>next_free_block = m\<rparr>, i)"
    "length (FreeArea_as_bytes encode_var (FreeArea_new m) i) \<le> 16"
proof -
  define n where "n = unat (opt_address m)"
  have n: "n < 2 ^ 64" "LinearAddress_new (word_of_nat n) = m"
    using assms(1) unsigned_less [of "opt_address m"] by (simp_all add: n_def)
  have bytes: "FreeArea_as_bytes encode_var (FreeArea_new m) i = i # 255 # encode_var n"
    by (cases m) (simp_all add: FreeArea_as_bytes_def FreeArea_write_to_def FreeArea_new_def n_def opt_address_def)
  have "reads (pbind read_varint (\<lambda>n. preturn \<lparr>next_free_block = LinearAddress_new (word_of_nat n)\<rparr>))
      (encode_var n) \<lparr>next_free_block = m\<rparr>"
    using n by (intro reads_bind_return [OF reads_varint]) simp_all
  then have "reads (FreeArea_from_reader read_varint) (255 # encode_var n) \<lparr>next_free_block = m\<rparr>"
    unfolding FreeArea_from_reader_def by (intro reads_bind_Cons [OF reads_byte]) simp
  from reads_bind_return [OF this, of "(\<lparr>next_free_block = m\<rparr>, i)" "\<lambda>fa. (fa, i)"]
  show "reads (FreeArea_from_storage_reader read_varint) (FreeArea_as_bytes encode_var (FreeArea_new m) i)
    (\<lparr>next_free_block = m\<rparr>, i)"
    unfolding FreeArea_from_storage_reader_def bytes
    using assms(2) by (intro reads_bind_Cons [OF reads_byte] reads_check_bind [of _ i]) simp_all
  show "length (FreeArea_as_bytes encode_var (FreeArea_new m) i) \<le> 16"
    using encode_length [OF n(1)] by (simp add: bytes)
qed

end

text \<open>Writing at most 16 bytes into an area leaves every disjoint area and the header as they are.\<close>

lemma holds_write_area:
  assumes "disjoint_areas (a, i) (b, j)" "i < 23" "length obj \<le> 16" "length xs \<le> AREA_SIZES ! unat j"
    "holds bs (unat b) xs"
  shows "holds (write_bytes bs (unat a) obj) (unat b) xs"
  using assms area_size_bounds(1) [of i] by (intro holds_write_other) (auto simp: disjoint_areas_def)

lemma holds_write_header:
  assumes "2048 \<le> a" "length xs \<le> 2048" "holds bs 0 xs"
  shows "holds (write_bytes bs a obj) 0 xs"
  using assms by (intro holds_write_other) auto

lemma area_index_and_size_holds:
  assumes "holds (st_bytes st) (unat a) [i]" "i < 23"
  shows "area_index_and_size st a = Inr (i, AREA_SIZES ! unat i)"
proof -
  obtain rest where "read_byte (stream_from st (unat a)) = Inr (i, rest)"
    using reads_holds [OF reads_byte assms(1)] by (auto simp: stream_from_def)
  then show ?thesis using assms(2) by (simp add: area_index_and_size_def AreaIndex_new_def)
qed

lemma delete_area_inv:
  assumes codec: "varint enc rdv" and cache: "lru_cache lput"
    and inv: "alloc_inv rdv al used fl" and used: "(a, i) \<in> used"
    and idx: "holds (st_bytes (al_storage al)) (unat a) [i]"
    and m: "as_linear_address m = Some a"
  obtains al' where "delete_area enc lput m al = (Inr (), al')"
    "alloc_inv rdv al' (used - {(a, i)}) (fl(i := a # fl i))"
    "\<And>b j xs. (b, j) \<in> used - {(a, i)} \<Longrightarrow> length xs \<le> AREA_SIZES ! unat j \<Longrightarrow>
       holds (st_bytes (al_storage al)) (unat b) xs \<Longrightarrow> holds (st_bytes (al_storage al')) (unat b) xs"
    "\<And>xs. length xs \<le> 2048 \<Longrightarrow> holds (st_bytes (al_storage al)) 0 xs \<Longrightarrow> holds (st_bytes (al_storage al')) 0 xs"
    "h_size (al_header al') = h_size (al_header al)"
proof -
  let ?A = "used \<union> free_areas fl"
  let ?bs = "st_bytes (al_storage al)"
  define head where "head = get_head i al"
  define obj where "obj = FreeArea_as_bytes enc (FreeArea_new head) i"
  define st where "st = (al_storage al)\<lparr>st_bytes := write_bytes ?bs (unat a) obj,
    st_free_cache := lput (st_free_cache (al_storage al)) a head\<rparr>"
  define al' where "al' = set_head i (Some a) (al\<lparr>al_storage := st\<rparr>)"
  have ok: "areas_ok (unat (h_size (al_header al))) ?A" using inv by (simp add: alloc_inv_def)
  have a: "i < 23" "a \<noteq> 0" "2048 \<le> unat a" using areas_okD [OF ok, of "(a, i)"] used by auto
  have dis: "disjoint_areas (a, i) x" if "x \<in> ?A" "x \<noteq> (a, i)" for x
    using areas_ok_disjoint [OF ok, of "(a, i)" x] used that by auto
  have nf: "(a, i) \<notin> free_areas fl" using inv used by (auto simp: alloc_inv_def)
  note ch = alloc_inv_list [OF inv]
  have head0: "head \<noteq> Some 0"
    using ch(1) [OF a(1)] areas_okD [OF ok, of "(0, i)"] a(1)
    by (cases "fl i") (auto simp: head_def free_areas_def)
  note fa = varint.reads_FreeArea [OF codec head0 a(1), folded obj_def]
  have frame: "holds (write_bytes ?bs (unat a) obj) (unat b) xs"
    if "(b, j) \<in> ?A" "(b, j) \<noteq> (a, i)" "length xs \<le> AREA_SIZES ! unat j" "holds ?bs (unat b) xs" for b j xs
    by (rule holds_write_area [OF dis [OF that(1,2)] a(1) fa(2) that(3,4)])
  have res: "delete_area enc lput m al = (Inr (), al')"
    unfolding delete_area_def
    by (simp add: m area_index_and_size_holds [OF idx a(1)] storage_write_def add_to_free_list_cache_def
        al'_def st_def obj_def head_def Let_def)
  have keep: "chain rdv st j (get_head j al) (fl j)" if j: "j < 23" for j
  proof (rule chain_mono [OF ch(1) [OF j]])
    fix b xs assume b: "b \<in> set (fl j)" and xs: "holds ?bs (unat b) xs" "length xs \<le> 16"
    then have "(b, j) \<in> free_areas fl" "(b, j) \<noteq> (a, i)" using j nf by (auto simp: free_areas_def)
    then show "holds (st_bytes st) (unat b) xs"
      using frame [of b j xs] xs area_size_bounds(1) [OF j] by (simp add: st_def)
  next
    fix b assume "b \<in> set (fl j)"
    then have "(b, j) \<in> free_areas fl" using j by (simp add: free_areas_def)
    then have "b \<noteq> a"
      using dis [of "(b, j)"] nf area_size_bounds(1) [OF j] area_size_bounds(1) [OF a(1)]
      by (cases "j = i") (auto simp: disjoint_areas_def)
    then show "st_free_cache st b = None \<or> st_free_cache st b = st_free_cache (al_storage al) b"
      using lru_cache.put_cases [OF cache, of "st_free_cache (al_storage al)" a head b] by (cases "st_free_cache st b") (auto simp: st_def)
  qed
  have "free_at rdv st i a head"
    unfolding free_at_def
  proof
    show "\<exists>xs. holds (st_bytes st) (unat a) xs \<and> length xs \<le> 16 \<and>
        reads (FreeArea_from_storage_reader rdv) xs (\<lparr>next_free_block = head\<rparr>, i)"
      using holds_write_same fa by (auto simp: st_def)
    show "st_free_cache st a = None \<or> st_free_cache st a = Some head"
      using lru_cache.put_cases [OF cache, of _ a head a] by (cases "st_free_cache st a") (auto simp: st_def)
  qed
  then have "chain rdv st i (Some a) (a # fl i)" using keep [OF a(1)] by (auto simp: head_def)
  moreover have "a \<notin> set (fl i)" using nf a(1) by (auto simp: free_areas_def)
  ultimately have "heads_ok rdv al' (fl(i := a # fl i))"
    using keep ch(2) a(1) inv by (auto simp: heads_ok_def al'_def alloc_inv_def get_set_head)
  moreover have "(used - {(a, i)}) \<union> free_areas (fl(i := a # fl i)) = ?A"
    "(used - {(a, i)}) \<inter> free_areas (fl(i := a # fl i)) = {}"
    using free_areas_push [OF a(1)] used inv by (auto simp: alloc_inv_def)
  ultimately have "alloc_inv rdv al' (used - {(a, i)}) (fl(i := a # fl i))"
    using inv by (simp add: alloc_inv_def al'_def)
  then show thesis
    by (rule that [OF res]) (use frame holds_write_header [OF a(3)] in \<open>auto simp: al'_def st_def\<close>)
qed

subsection \<open>Flushing the free lists\<close>

lemma write_bytes_within:
  "length ys = length obj \<Longrightarrow> length xs = off \<Longrightarrow>
   holds bs 0 (xs @ ys @ zs) \<Longrightarrow> holds (write_bytes bs off obj) 0 (xs @ obj @ zs)"
  by (auto simp: holds_nth nth_write_bytes nth_append)

lemma flush_freelist_header:
  assumes "holds (st_bytes (al_storage al)) 0 (header_bytes h)" "header_wf h" "length (h_free_lists (al_header al)) = 23"
    and res: "flush_freelist al = (r, al')"
  shows "r = Inr ()" "al_header al' = al_header al" "st_free_cache (al_storage al') = st_free_cache (al_storage al)"
    "holds (st_bytes (al_storage al')) 0 (header_bytes (h\<lparr>h_free_lists := h_free_lists (al_header al)\<rparr>))"
    "\<And>b xs. 2048 \<le> b \<Longrightarrow> holds (st_bytes (al_storage al)) b xs \<Longrightarrow> holds (st_bytes (al_storage al')) b xs"
proof -
  let ?fl = "free_lists_bytes (h_free_lists (al_header al))"
  have r: "r = Inr ()"
    "al' = al\<lparr>al_storage := (al_storage al)\<lparr>st_bytes := write_bytes (st_bytes (al_storage al)) free_lists_offset ?fl\<rparr>\<rparr>"
    using res by (auto simp: flush_freelist_def storage_write_def)
  then show "r = Inr ()" "al_header al' = al_header al" "st_free_cache (al_storage al') = st_free_cache (al_storage al)"
    by simp_all
  show "holds (st_bytes (al_storage al')) b xs" if "2048 \<le> b" "holds (st_bytes (al_storage al)) b xs" for b xs
    unfolding r(2) using that assms(3)
    by (simp add: holds_write_other free_lists_offset_def length_free_lists_bytes)
  let ?pre = "h_version h @ u64_to_ne_bytes (h_endian_test h) @ u64_to_ne_bytes (h_size h)"
  let ?post = "u64_to_ne_bytes (opt_address (h_root_address h)) @
     h_area_size_hash h @ u64_to_ne_bytes (h_node_hash_algorithm h) @ h_root_hash h @
     h_cargo_version h @ h_git_describe h"
  have "holds (write_bytes (st_bytes (al_storage al)) free_lists_offset ?fl) 0 (?pre @ ?fl @ ?post)"
    using assms(1,2,3)
    by (intro write_bytes_within [of "free_lists_bytes (h_free_lists h)"])
      (simp_all add: header_bytes_def header_wf_def length_free_lists_bytes free_lists_offset_def)
  then show "holds (st_bytes (al_storage al')) 0 (header_bytes (h\<lparr>h_free_lists := h_free_lists (al_header al)\<rparr>))"
    by (simp add: r(2) header_bytes_def)
qed

subsection \<open>The iterator yields the free lists\<close>

text \<open>The items of a number of calls of \<open>next\<close>.\<close>

fun fli_take :: "nat \<Rightarrow> nat reader_fn \<Rightarrow> storage \<Rightarrow> free_lists \<Rightarrow> free_lists_iter \<Rightarrow>
  (laddr \<times> area_index) io_result option list" where
  "fli_take 0 rdv st heads it = []"
| "fli_take (Suc n) rdv st heads it =
     (case fli_next rdv st heads it of (r, it') \<Rightarrow> r # fli_take n rdv st heads it')"

definition lists_from :: "area_index \<Rightarrow> area_index list" where
  "lists_from i = map word_of_nat [unat i ..< 23]"

definition free_items :: "(area_index \<Rightarrow> laddr list) \<Rightarrow> area_index list \<Rightarrow> (laddr \<times> area_index) list" where
  "free_items fl is = concat (map (\<lambda>i. map (\<lambda>a. (a, i)) (fl i)) is)"

text \<open>The iterator \<open>it\<close> still has the items \<open>xs\<close> before it ends.\<close>

definition iter_at :: "nat reader_fn \<Rightarrow> storage \<Rightarrow> (area_index \<Rightarrow> laddr list) \<Rightarrow> free_lists_iter \<Rightarrow>
  area_index \<Rightarrow> laddr list \<Rightarrow> bool" where
  "iter_at rdv st fl it i l \<longleftrightarrow> i < 23 \<and> fli_next_free_list_id it = next_area_index i \<and>
     (\<exists>fi. fli_current it = Some (i, fi) \<and> chain rdv st i (fi_next_addr fi) l)"

lemma next_area_index_Some: "i < 23 \<Longrightarrow> next_area_index i = (if unat i = 22 then None else Some (i + 1))"
  by (auto simp: next_area_index_def AreaIndex_new_def word_less_nat_alt word_unat_eq_iff unat_word_ariths
      split: if_splits)

lemma lists_from_Cons: "i < 23 \<Longrightarrow> lists_from i = i # (if unat i = 22 then [] else lists_from (i + 1))"
  by (auto simp: lists_from_def word_less_nat_alt unat_word_ariths upt_rec [of "unat i"])

definition items_left :: "(area_index \<Rightarrow> laddr list) \<Rightarrow> area_index \<Rightarrow> laddr list \<Rightarrow> (laddr \<times> area_index) list" where
  "items_left fl i l = map (\<lambda>a. (a, i)) l @ free_items fl (tl (lists_from i))"

lemma items_left_Nil:
  "i < 23 \<Longrightarrow> items_left fl i [] = (if unat i = 22 then [] else items_left fl (i + 1) (fl (i + 1)))"
proof -
  assume "i < 23"
  then have "unat i \<noteq> 22 \<Longrightarrow> i + 1 < 23" by (auto simp: word_less_nat_alt unat_word_ariths)
  then show ?thesis using \<open>i < 23\<close>
    by (auto simp: items_left_def lists_from_Cons free_items_def)
qed

lemma fli_next_item:
  assumes "iter_at rdv st fl it i (a # l)"
  shows "\<exists>it'. fli_next rdv st heads it = (Some (Inr (a, i)), it') \<and> iter_at rdv st fl it' i l"
proof -
  obtain fi m where fi: "fli_current it = Some (i, fi)" "fi_next_addr fi = Some a" "free_at rdv st i a m" "chain rdv st i m l"
    using assms by (auto simp: iter_at_def)
  then have "fi_next rdv st fi = (Some (Inr (a, i)), fi\<lparr>fi_parent := PrevFreeArea i a, fi_next_addr := m\<rparr>)"
    by (simp add: fi_next_def free_at_read)
  then show ?thesis using fi assms by (simp add: fli_next_def next_inner.simps iter_at_def)
qed

lemma fli_next_empty:
  assumes "iter_at rdv st fl it i []" "\<And>j. j < 23 \<Longrightarrow> chain rdv st j (heads ! unat j) (fl j)"
  shows "\<exists>it'. fli_next rdv st heads it = fli_next rdv st heads it' \<and>
    (if unat i = 22 then fli_current it' = None else iter_at rdv st fl it' (i + 1) (fl (i + 1)))"
proof -
  obtain fi where fi: "fli_current it = Some (i, fi)" "fi_next_addr fi = None" and i: "i < 23"
    "fli_next_free_list_id it = next_area_index i"
    using assms(1) by (auto simp: iter_at_def)
  have succ: "unat i \<noteq> 22 \<Longrightarrow> i + 1 < 23" using i(1) by (auto simp: word_less_nat_alt unat_word_ariths)
  have same: "it\<lparr>fli_current := Some (i, fi)\<rparr> = it" using fi(1) by (cases it) simp
  have "fli_next rdv st heads it = fli_next rdv st heads (move_to_next_free_list heads it)"
    using fi by (subst fli_next_def, subst next_inner.simps) (simp add: fi_next_def fli_next_def same)
  then show ?thesis
    using succ i assms(2) next_area_index_Some [OF i(1)]
    by (intro exI [of _ "move_to_next_free_list heads it"])
      (auto simp: move_to_next_free_list_def iter_at_def free_list_iterator_def FreeListIterator_new_def)
qed

lemma fli_next_None: "fli_current it = None \<Longrightarrow> fli_next rdv st heads it = (None, it)"
  by (simp add: fli_next_def next_inner.simps)

lemma fli_next_items:
  assumes "iter_at rdv st fl it i l" "\<And>j. j < 23 \<Longrightarrow> chain rdv st j (heads ! unat j) (fl j)"
  shows "case items_left fl i l of
      [] \<Rightarrow> \<exists>it'. fli_next rdv st heads it = (None, it') \<and> fli_current it' = None
    | x # xs \<Rightarrow> \<exists>it' j l'. fli_next rdv st heads it = (Some (Inr x), it') \<and> iter_at rdv st fl it' j l' \<and> xs = items_left fl j l'"
  using assms(1)
proof (induction "22 - unat i" arbitrary: it i l rule: less_induct)
  case less
  have i: "i < 23" using less.prems by (simp add: iter_at_def)
  show ?case
  proof (cases l)
    case (Cons a l')
    then show ?thesis using fli_next_item [of rdv st fl it i a l' heads] less.prems
      by (auto simp: items_left_def)
  next
    case Nil
    obtain it' where it': "fli_next rdv st heads it = fli_next rdv st heads it'"
      "if unat i = 22 then fli_current it' = None else iter_at rdv st fl it' (i + 1) (fl (i + 1))"
      using fli_next_empty [OF less.prems [unfolded Nil] assms(2)] by blast
    show ?thesis
    proof (cases "unat i = 22")
      case True
      then show ?thesis using it' i by (simp add: Nil items_left_Nil fli_next_None)
    next
      case False
      then have "22 - unat (i + 1) < 22 - unat i" using i by (auto simp: word_less_nat_alt unat_word_ariths)
      moreover have "items_left fl i l = items_left fl (i + 1) (fl (i + 1))"
        using False i by (simp add: Nil items_left_Nil)
      ultimately show ?thesis
        using less.hyps [of "i + 1" it' "fl (i + 1)"] it'(2) False unfolding it'(1) by simp
    qed
  qed
qed

lemma fli_take_items:
  assumes "iter_at rdv st fl it i l" "\<And>j. j < 23 \<Longrightarrow> chain rdv st j (heads ! unat j) (fl j)"
  shows "fli_take (length (items_left fl i l) + k) rdv st heads it =
    map (\<lambda>x. Some (Inr x)) (items_left fl i l) @ replicate k None"
  using assms(1)
proof (induction "items_left fl i l" arbitrary: it i l)
  case Nil
  have stop: "fli_current it' = None \<Longrightarrow> fli_take n rdv st heads it' = replicate n None" for n it'
    by (induction n) (simp_all add: fli_next_None)
  show ?case
  proof (cases k)
    case (Suc n)
    obtain it' where "fli_next rdv st heads it = (None, it')" "fli_current it' = None"
      using fli_next_items [OF Nil(2) assms(2)] Nil(1) by (auto simp flip: Nil(1))
    then show ?thesis using Suc stop by (simp flip: Nil(1))
  qed (simp flip: Nil(1))
next
  case (Cons x xs)
  obtain it' j l' where "fli_next rdv st heads it = (Some (Inr x), it')" "iter_at rdv st fl it' j l'" "xs = items_left fl j l'"
    using fli_next_items [OF Cons(3) assms(2)] by (auto simp flip: Cons(2))
  then show ?case using Cons(1) [of j l' it'] by (simp flip: Cons(2))
qed

end
