(* ===== verification/Alloc_Reach.thy ===== *)
theory Alloc_Reach
  imports Alloc_Safety
begin

section \<open>Every sequence of allocations and deletions\<close>

text \<open>
  The states the allocator can reach from a new database: allocating an area for a node and writing the
  node there, and deleting a node. The ghost component maps every area in use to the bytes last written
  to it. In every reachable state the invariant of the allocator holds and all these bytes are in place.
\<close>

type_synonym contents = "area \<rightharpoonup> u8 list"

inductive alloc_reach ::
  "(nat \<Rightarrow> u8 list) \<Rightarrow> nat reader_fn \<Rightarrow> free_put \<Rightarrow> allocator \<Rightarrow> contents \<Rightarrow> bool"
  for enc :: "nat \<Rightarrow> u8 list" and rdv :: "nat reader_fn" and lput :: free_put where
  start: "alloc_reach enc rdv lput
     \<lparr>al_storage = \<lparr>st_bytes = header_bytes (NodeStoreHeader_new b alg), st_free_cache = Map.empty\<rparr>,
      al_header = NodeStoreHeader_new b alg\<rparr> Map.empty"
| persist: "alloc_reach enc rdv lput al C \<Longrightarrow>
     unat (h_size (al_header al)) + MAX_AREA_SIZE < 2 ^ 64 \<Longrightarrow>
     from_size (length (i # body)) = Inr i \<Longrightarrow>
     allocate_node rdv (i # body) al = (Inr (a, i), al') \<Longrightarrow>
     storage_write (unat a) (i # body) (al_storage al') = (Inr n, st) \<Longrightarrow>
     alloc_reach enc rdv lput (al'\<lparr>al_storage := st\<rparr>) (C((a, i) \<mapsto> i # body))"
| delete: "alloc_reach enc rdv lput al C \<Longrightarrow> (a, i) \<in> dom C \<Longrightarrow> as_linear_address m = Some a \<Longrightarrow>
     delete_area enc lput m al = (Inr (), al') \<Longrightarrow>
     alloc_reach enc rdv lput al' (C((a, i) := None))"

inductive_cases alloc_reachE: "alloc_reach enc rdv lput al C"

text \<open>The bytes of the areas in use are in the storage, each with its area index first.\<close>

definition contents_ok :: "u8 list \<Rightarrow> contents \<Rightarrow> bool" where
  "contents_ok bs C \<longleftrightarrow>
     (\<forall>a i xs. C (a, i) = Some xs \<longrightarrow>
        holds bs (unat a) xs \<and> length xs \<le> AREA_SIZES ! unat i \<and> xs \<noteq> [] \<and> hd xs = i)"

lemma contents_okD:
  "contents_ok bs C \<Longrightarrow> C (a, i) = Some xs \<Longrightarrow> holds bs (unat a) xs"
  "contents_ok bs C \<Longrightarrow> C (a, i) = Some xs \<Longrightarrow> holds bs (unat a) [i]"
proof -
  assume "contents_ok bs C" "C (a, i) = Some xs"
  then have "holds bs (unat a) xs" "xs = i # tl xs" unfolding contents_ok_def by (metis list.collapse)+
  moreover from this(2) have "prefix [i] xs" by (metis Cons_prefix_Cons Nil_prefix)
  ultimately show "holds bs (unat a) xs" "holds bs (unat a) [i]" by (auto intro: holds_prefix)
qed

lemma new_alloc_inv:
  "alloc_inv rdv \<lparr>al_storage = st, al_header = NodeStoreHeader_new b alg\<rparr> {} (\<lambda>_. [])"
  by (simp add: alloc_inv_def NodeStoreHeader_new_def HEADER_SIZE_def FreeLists_new_def heads_ok_def
      get_head_def free_areas_def areas_ok_def u8_less_23)

text \<open>Writing to an area in use keeps the invariant.\<close>

lemma alloc_inv_write:
  assumes inv: "alloc_inv rdv al used fl" and used: "(a, i) \<in> used" and len: "length obj \<le> AREA_SIZES ! unat i"
  defines "st \<equiv> (al_storage al)\<lparr>st_bytes := write_bytes (st_bytes (al_storage al)) (unat a) obj\<rparr>"
  shows "alloc_inv rdv (al\<lparr>al_storage := st\<rparr>) used fl"
proof -
  have ok: "areas_ok (unat (h_size (al_header al))) (used \<union> free_areas fl)" using inv by (simp add: alloc_inv_def)
  have "chain rdv st j (get_head j al) (fl j)" if j: "j < 23" for j
  proof (rule chain_mono [OF alloc_inv_list(1) [OF inv j]])
    fix b xs assume b: "b \<in> set (fl j)" and xs: "holds (st_bytes (al_storage al)) (unat b) xs" "length xs \<le> 16"
    then have "(b, j) \<in> free_areas fl" using j by (simp add: free_areas_def)
    then have "disjoint_areas (a, i) (b, j)"
      using areas_ok_disjoint [OF ok, of "(a, i)" "(b, j)"] used inv by (auto simp: alloc_inv_def)
    then show "holds (st_bytes st) (unat b) xs"
      using xs len area_size_bounds(1) [OF j] unfolding st_def
      by (auto simp: disjoint_areas_def intro: holds_write_other)
  qed (simp add: st_def)
  then show ?thesis using inv by (simp add: alloc_inv_def heads_ok_def)
qed

lemma contents_ok_write:
  assumes ok: "areas_ok hwm (insert (a, i) (dom C))" and fresh: "C (a, i) = None"
    and c: "contents_ok bs C" and len: "length (i # body) \<le> AREA_SIZES ! unat i"
  shows "contents_ok (write_bytes bs (unat a) (i # body)) (C((a, i) \<mapsto> i # body))"
  unfolding contents_ok_def
proof (intro allI impI)
  fix b j xs assume *: "(C((a, i) \<mapsto> i # body)) (b, j) = Some xs"
  show "holds (write_bytes bs (unat a) (i # body)) (unat b) xs \<and> length xs \<le> AREA_SIZES ! unat j \<and> xs \<noteq> [] \<and> hd xs = j"
  proof (cases "(b, j) = (a, i)")
    case True
    then show ?thesis using * len holds_write_same by auto
  next
    case False
    then have C: "C (b, j) = Some xs" using * by (metis fun_upd_other)
    then have "disjoint_areas (a, i) (b, j)" using areas_ok_disjoint [OF ok] False by blast
    moreover have xs: "holds bs (unat b) xs" "length xs \<le> AREA_SIZES ! unat j" "xs \<noteq> []" "hd xs = j"
      using C c unfolding contents_ok_def by auto
    ultimately have "holds (write_bytes bs (unat a) (i # body)) (unat b) xs"
      using len by (intro holds_write_other) (auto simp: disjoint_areas_def)
    then show ?thesis using xs by blast
  qed
qed

text \<open>No address between the header and the high water mark is lost: areas cover it.\<close>

definition tiled :: "nat \<Rightarrow> area set \<Rightarrow> bool" where
  "tiled hwm A \<longleftrightarrow> (\<Union>x \<in> A. {area_start x ..< area_end x}) = {2048 ..< hwm}"

lemma tiled_grow: "tiled hwm A \<Longrightarrow> unat a = hwm \<Longrightarrow> 2048 \<le> hwm \<Longrightarrow> tiled (hwm + AREA_SIZES ! unat i) (insert (a, i) A)"
  by (auto simp: tiled_def)

lemma alloc_reach_tiled:
  assumes "varint enc rdv" "lru_cache lput" "alloc_reach enc rdv lput al C"
  shows "\<exists>fl. alloc_inv rdv al (dom C) fl \<and> contents_ok (st_bytes (al_storage al)) C \<and>
    tiled (unat (h_size (al_header al))) (dom C \<union> free_areas fl)"
  using assms(3)
proof (induction rule: alloc_reach.induct)
  case (start b alg)
  have "unat (h_size (NodeStoreHeader_new b alg)) = 2048" by (simp add: NodeStoreHeader_new_def HEADER_SIZE_def)
  then show ?case by (intro exI [of _ "\<lambda>_. []"] conjI) (simp_all add: new_alloc_inv contents_ok_def tiled_def free_areas_def)
next
  case (persist al C i body a al' n st)
  then obtain fl where inv: "alloc_inv rdv al (dom C) fl" and c: "contents_ok (st_bytes (al_storage al)) C"
    and tiles: "tiled (unat (h_size (al_header al))) (dom C \<union> free_areas fl)" by blast
  have "length (i # body) \<le> MAX_AREA_SIZE" using persist.hyps(3) by (auto simp: from_size_def split: if_splits)
  then obtain a' i' al'' fl' where al'': "allocate_node rdv (i # body) al = (Inr (a', i'), al'')"
    "length (i # body) \<le> AREA_SIZES ! unat i'" "alloc_inv rdv al'' (insert (a', i') (dom C)) fl'" "(a', i') \<notin> dom C"
    "st_bytes (al_storage al'') = st_bytes (al_storage al)" "i' < 23"
    "case fl i' of b # l \<Rightarrow> a' = b \<and> fl' = fl(i' := l) \<and> h_size (al_header al'') = h_size (al_header al)
     | [] \<Rightarrow> a' = h_size (al_header al) \<and> fl' = fl \<and>
         unat (h_size (al_header al'')) = unat (h_size (al_header al)) + AREA_SIZES ! unat i'"
    using allocate_node_inv [OF inv _ persist.hyps(2)] by metis
  then have eq: "a' = a" "i' = i" "al'' = al'" using persist.hyps(4) by simp_all
  have st: "st = (al_storage al')\<lparr>st_bytes := write_bytes (st_bytes (al_storage al')) (unat a) (i # body)\<rparr>"
    using persist.hyps(5) by (simp add: storage_write_def)
  have "alloc_inv rdv (al'\<lparr>al_storage := st\<rparr>) (insert (a, i) (dom C)) fl'"
    unfolding st by (rule alloc_inv_write [of _ _ _ _ a i]) (use al'' eq in auto)
  moreover have "areas_ok (unat (h_size (al_header al'))) (insert (a, i) (dom C))"
    using al''(3) unfolding eq alloc_inv_def by (blast intro: areas_ok_subset)
  then have "contents_ok (st_bytes st) (C((a, i) \<mapsto> i # body))"
    using contents_ok_write [OF _ _ c, of _ a i body] al'' by (auto simp: st eq)
  moreover have "tiled (unat (h_size (al_header al'))) (insert (a, i) (dom C) \<union> free_areas fl')"
  proof (cases "fl i")
    case Nil
    then show ?thesis using tiled_grow [OF tiles, of a i] al''(6,7) eq inv by (simp add: alloc_inv_def)
  next
    case (Cons b l)
    then have "b = a" "fl' = fl(i := l)" "h_size (al_header al') = h_size (al_header al)" using al''(7) by (simp_all add: eq)
    moreover from this Cons have "insert (a, i) (dom C) \<union> free_areas fl' = dom C \<union> free_areas fl"
      using free_areas_pop [of fl i a l] alloc_inv_list(2) [OF inv, of i] al''(6) eq by auto
    ultimately show ?thesis using tiles by simp
  qed
  moreover have "dom (C((a, i) \<mapsto> i # body)) = insert (a, i) (dom C)"
    by (simp only: dom_fun_upd option.distinct if_False)
  moreover have "al_storage (al'\<lparr>al_storage := st\<rparr>) = st" "al_header (al'\<lparr>al_storage := st\<rparr>) = al_header al'" by simp_all
  ultimately show ?case by metis
next
  case (delete al C a i m al')
  then obtain fl where inv: "alloc_inv rdv al (dom C) fl" and c: "contents_ok (st_bytes (al_storage al)) C"
    and tiles: "tiled (unat (h_size (al_header al))) (dom C \<union> free_areas fl)" by blast
  have idx: "holds (st_bytes (al_storage al)) (unat a) [i]" using contents_okD(2) [OF c] delete.hyps(2) by blast
  obtain al'' where al'': "delete_area enc lput m al = (Inr (), al'')"
    "alloc_inv rdv al'' (dom C - {(a, i)}) (fl(i := a # fl i))"
    "\<And>b j xs. (b, j) \<in> dom C - {(a, i)} \<Longrightarrow> length xs \<le> AREA_SIZES ! unat j \<Longrightarrow>
       holds (st_bytes (al_storage al)) (unat b) xs \<Longrightarrow> holds (st_bytes (al_storage al'')) (unat b) xs"
    "h_size (al_header al'') = h_size (al_header al)"
    using delete_area_inv [OF assms(1,2) inv delete.hyps(2) idx delete.hyps(3)] by metis
  have "i < 23" using inv delete.hyps(2) by (auto simp: alloc_inv_def dest!: areas_okD [of _ _ "(a, i)"])
  then have "dom C - {(a, i)} \<union> free_areas (fl(i := a # fl i)) = dom C \<union> free_areas fl"
    using free_areas_push delete.hyps(2) by auto
  then have "tiled (unat (h_size (al_header al''))) (dom C - {(a, i)} \<union> free_areas (fl(i := a # fl i)))"
    using tiles al''(4) by simp
  moreover have "contents_ok (st_bytes (al_storage al'')) (C((a, i) := None))"
    unfolding contents_ok_def
  proof (intro allI impI)
    fix b j xs assume "(C((a, i) := None)) (b, j) = Some xs"
    then have b: "(b, j) \<in> dom C - {(a, i)}" and xs: "C (b, j) = Some xs" by (auto split: if_splits)
    from c xs have "holds (st_bytes (al_storage al)) (unat b) xs" "length xs \<le> AREA_SIZES ! unat j"
      "xs \<noteq> [] \<and> hd xs = j"
      by (auto simp: contents_ok_def)
    with al''(3) [OF b] show "holds (st_bytes (al_storage al'')) (unat b) xs \<and> length xs \<le> AREA_SIZES ! unat j \<and>
        xs \<noteq> [] \<and> hd xs = j"
      by blast
  qed
  moreover have "dom (C((a, i) := None)) = dom C - {(a, i)}" by (simp only: dom_fun_upd if_True refl)
  moreover have "al' = al''" using al''(1) delete.hyps(4) by simp
  ultimately show ?case using al''(2) by metis
qed

lemma alloc_reach_inv:
  assumes "varint enc rdv" "lru_cache lput" "alloc_reach enc rdv lput al C"
  shows "\<exists>fl. alloc_inv rdv al (dom C) fl \<and> contents_ok (st_bytes (al_storage al)) C"
  using alloc_reach_tiled [OF assms] by blast

end
