(* ===== verification/Storage_Properties.thy ===== *)
theory Storage_Properties
  imports Alloc_Reach
begin

section \<open>What storage, header and allocator guarantee\<close>

text \<open>
  The properties of \<open>NodeStoreHeader\<close>, \<open>NodeAllocator\<close>, the free-list iterators and \<open>PredictiveReader\<close>,
  with a small concrete database for the witnesses.
\<close>

definition sample_build :: build_info where
  "sample_build = \<lparr>area_sizes_hash = replicate 32 7, cargo_pkg_version = ascii ''0.1.0'', git_describe_output = []\<rparr>"

definition sample_allocator :: allocator where
  "sample_allocator =
     \<lparr>al_storage = \<lparr>st_bytes = header_bytes (NodeStoreHeader_new sample_build MerkleDB), st_free_cache = Map.empty\<rparr>,
      al_header = NodeStoreHeader_new sample_build MerkleDB\<rparr>"

lemma sample_header_simps [simp]:
  "h_size (al_header sample_allocator) = 2048"
  "h_free_lists (al_header sample_allocator) = replicate 23 None"
  by (simp_all add: sample_allocator_def NodeStoreHeader_new_def HEADER_SIZE_def FreeLists_new_def)

lemma sample_header_wf: "header_wf (NodeStoreHeader_new sample_build alg)"
  by (rule NodeStoreHeader_new_wf) (simp add: sample_build_def)

lemma sample_inv: "alloc_inv rdv sample_allocator {} (\<lambda>_. [])"
  unfolding sample_allocator_def by (rule new_alloc_inv)

lemma sample_allocate:
  "allocate_node rdv [0, 1] sample_allocator =
     (Inr (2048, 0), sample_allocator\<lparr>al_header := (al_header sample_allocator)\<lparr>h_size := 2064\<rparr>\<rparr>)"
  by (simp add: allocate_node_def from_size_def partition_point_def AREA_SIZES_def sbind_def allocate_from_freed_def
      get_head_def allocate_from_end_def LinearAddress_new_def saturating_add_def)

definition sample_used :: allocator where
  "sample_used =
     sample_allocator\<lparr>al_header := (al_header sample_allocator)\<lparr>h_size := 2064\<rparr>,
       al_storage := (al_storage sample_allocator)\<lparr>st_bytes :=
         write_bytes (st_bytes (al_storage sample_allocator)) 2048 [0, 1]\<rparr>\<rparr>"

lemma sample_reach: "alloc_reach enc rdv lput sample_used [(2048, 0) \<mapsto> [0, 1]]"
proof -
  have "alloc_reach enc rdv lput sample_allocator Map.empty" unfolding sample_allocator_def by (rule start)
  from persist [OF this _ _ sample_allocate [of rdv], of 2 "(al_storage sample_allocator)\<lparr>st_bytes :=
         write_bytes (st_bytes (al_storage sample_allocator)) 2048 [0, 1]\<rparr>"]
  show ?thesis
    by (simp add: sample_used_def storage_write_def from_size_def partition_point_def AREA_SIZES_def)
qed

lemma sample_used_inv: "alloc_inv rdv sample_used {(2048, 0)} (\<lambda>_. [])"
proof -
  have "length (h_free_lists (al_header sample_used)) = 23" "h_size (al_header sample_used) = 2064"
    "get_head i sample_used = None" if "i < 23" for i
    using that by (simp_all add: sample_used_def get_head_def u8_less_23)
  from this [of 0] this(3) show ?thesis
    by (simp add: alloc_inv_def heads_ok_def free_areas_def areas_ok_def AREA_SIZES_def)
qed

lemma sample_used_holds: "holds (st_bytes (al_storage sample_used)) (unat (2048 :: u64)) [0]"
  unfolding sample_used_def using holds_prefix [OF holds_write_same, of "[0]" "[0, 1]"] by simp

subsection \<open>The allocator\<close>

text \<open>
  C15. In every state that allocations, writes and deletions can reach from a new database, the areas in
  use are pairwise disjoint, aligned and below the high water mark, and each still holds the bytes
  that were written to it. No deletion, write or reuse of another area overwrites a live node.
\<close>

theorem live_nodes_are_intact:
  assumes "varint enc rdv" "lru_cache lput" "alloc_reach enc rdv lput al C"
  shows "(\<forall>x \<in> dom C. \<forall>y \<in> dom C. x \<noteq> y \<longrightarrow> disjoint_areas x y) \<and>
    (\<forall>a i xs. C (a, i) = Some xs \<longrightarrow>
       holds (st_bytes (al_storage al)) (unat a) xs \<and> length xs \<le> AREA_SIZES ! unat i \<and>
       LinearAddress_is_aligned a \<and> unat a + AREA_SIZES ! unat i \<le> unat (h_size (al_header al)))"
proof -
  obtain fl where inv: "alloc_inv rdv al (dom C) fl" and c: "contents_ok (st_bytes (al_storage al)) C"
    using alloc_reach_inv [OF assms] by blast
  then have ok: "areas_ok (unat (h_size (al_header al))) (dom C)"
    unfolding alloc_inv_def by (blast intro: areas_ok_subset)
  have "LinearAddress_is_aligned a \<and> unat a + AREA_SIZES ! unat i \<le> unat (h_size (al_header al))"
    if "C (a, i) = Some xs" for a i xs
    using areas_okD [OF ok, of "(a, i)"] domI [of C, OF that] by (auto simp: LinearAddress_is_aligned_def)
  then show ?thesis using areas_ok_disjoint [OF ok] c unfolding contents_ok_def by blast
qed

theorem live_nodes_are_intact_witness:
  "holds (st_bytes (al_storage sample_used)) (unat (2048 :: u64)) [0, 1]"
  using live_nodes_are_intact [OF leb128.varint_axioms uncached.lru_cache_axioms sample_reach]
  by (auto dest: spec [of _ "2048 :: u64"])

text \<open>
  C16. An allocation succeeds for every node up to the largest area size. It returns the smallest area
  that holds the node, disjoint from every area in use and inside the new high water mark, taken from the
  head of its free list or, if that is empty, from the end; no byte of the storage changes.
\<close>

theorem allocate_node_fresh:
  assumes "alloc_inv rdv al used fl" "length node \<le> MAX_AREA_SIZE"
    "unat (h_size (al_header al)) + MAX_AREA_SIZE < 2 ^ 64"
  shows "\<exists>a i al' fl'. allocate_node rdv node al = (Inr (a, i), al') \<and>
    alloc_inv rdv al' (insert (a, i) used) fl' \<and> (\<forall>x \<in> used. disjoint_areas (a, i) x) \<and>
    length node \<le> AREA_SIZES ! unat i \<and> (\<forall>j < unat i. AREA_SIZES ! j < length node) \<and>
    st_bytes (al_storage al') = st_bytes (al_storage al) \<and>
    (case fl i of b # l \<Rightarrow> a = b \<and> fl' = fl(i := l) \<and> h_size (al_header al') = h_size (al_header al)
     | [] \<Rightarrow> a = h_size (al_header al) \<and> fl' = fl \<and>
         unat (h_size (al_header al')) = unat (h_size (al_header al)) + AREA_SIZES ! unat i)"
proof -
  obtain a i al' fl' where r: "allocate_node rdv node al = (Inr (a, i), al')" "i < 23"
    "length node \<le> AREA_SIZES ! unat i" "\<And>j. j < unat i \<Longrightarrow> AREA_SIZES ! j < length node"
    "alloc_inv rdv al' (insert (a, i) used) fl'" "(a, i) \<notin> used"
    "st_bytes (al_storage al') = st_bytes (al_storage al)"
    "case fl i of b # l \<Rightarrow> a = b \<and> fl' = fl(i := l) \<and> h_size (al_header al') = h_size (al_header al)
     | [] \<Rightarrow> a = h_size (al_header al) \<and> fl' = fl \<and>
         unat (h_size (al_header al')) = unat (h_size (al_header al)) + AREA_SIZES ! unat i"
    using allocate_node_inv [OF assms] by metis
  moreover have "areas_ok (unat (h_size (al_header al'))) (insert (a, i) used)"
    using r(5) unfolding alloc_inv_def by (blast intro: areas_ok_subset)
  then have "\<forall>x \<in> used. disjoint_areas (a, i) x" using areas_ok_disjoint r(6) by blast
  ultimately show ?thesis by blast
qed

theorem allocate_node_fresh_witness:
  "\<exists>a i al' fl'. allocate_node (leb128_read 10) [0, 1] sample_allocator = (Inr (a, i), al') \<and>
     alloc_inv (leb128_read 10) al' {(a, i)} fl'"
  using allocate_node_fresh [OF sample_inv [of "leb128_read 10"], of "[0, 1]"] by auto

text \<open>
  C17. Deleting a node in use puts its area at the head of the free list of its size and keeps the
  allocator's invariant. The bytes of all other areas in use and of the header stay as they are.
\<close>

theorem delete_area_safe:
  assumes "varint enc rdv" "lru_cache lput" "alloc_inv rdv al used fl" "(a, i) \<in> used"
    "holds (st_bytes (al_storage al)) (unat a) [i]" "as_linear_address m = Some a"
  shows "\<exists>al'. delete_area enc lput m al = (Inr (), al') \<and>
    alloc_inv rdv al' (used - {(a, i)}) (fl(i := a # fl i)) \<and>
    get_head i al' = Some a \<and>
    (\<forall>b j xs. (b, j) \<in> used - {(a, i)} \<and> length xs \<le> AREA_SIZES ! unat j \<and>
       holds (st_bytes (al_storage al)) (unat b) xs \<longrightarrow> holds (st_bytes (al_storage al')) (unat b) xs) \<and>
    (\<forall>xs. length xs \<le> 2048 \<and> holds (st_bytes (al_storage al)) 0 xs \<longrightarrow> holds (st_bytes (al_storage al')) 0 xs)"
proof -
  obtain al' where r: "delete_area enc lput m al = (Inr (), al')"
    "alloc_inv rdv al' (used - {(a, i)}) (fl(i := a # fl i))"
    "\<And>b j xs. (b, j) \<in> used - {(a, i)} \<Longrightarrow> length xs \<le> AREA_SIZES ! unat j \<Longrightarrow>
       holds (st_bytes (al_storage al)) (unat b) xs \<Longrightarrow> holds (st_bytes (al_storage al')) (unat b) xs"
    "\<And>xs. length xs \<le> 2048 \<Longrightarrow> holds (st_bytes (al_storage al)) 0 xs \<Longrightarrow> holds (st_bytes (al_storage al')) 0 xs"
    "h_size (al_header al') = h_size (al_header al)"
    using delete_area_inv [OF assms] by metis
  have "area_ok (unat (h_size (al_header al))) (a, i)"
    using assms(3,4) areas_okD unfolding alloc_inv_def by blast
  then have "i < 23" by simp
  then have "get_head i al' = Some a" using alloc_inv_list(1) [OF r(2), of i] by simp
  then show ?thesis using r by blast
qed

theorem delete_area_safe_witness:
  "\<exists>al'. delete_area leb128_encode uncached_put (Persisted 2048) sample_used = (Inr (), al') \<and>
     get_head 0 al' = Some 2048"
  using delete_area_safe [OF leb128.varint_axioms uncached.lru_cache_axioms sample_used_inv _ sample_used_holds,
    of "Persisted 2048"]
  by auto



text \<open>
  C21. The iterator over the free lists, started at an area size, yields exactly the areas of that and
  all larger free lists, in order, and then ends.
\<close>

theorem free_list_iter_complete:
  assumes "alloc_inv rdv al used fl" "start < 23"
  defines "items \<equiv> free_items fl (lists_from start)"
  shows "fli_take (length items + k) rdv (al_storage al) (h_free_lists (al_header al))
      (FreeListsIterator_new (h_free_lists (al_header al)) start) =
    map (\<lambda>x. Some (Inr x)) items @ replicate k None"
proof -
  let ?heads = "h_free_lists (al_header al)"
  have ch: "chain rdv (al_storage al) j (?heads ! unat j) (fl j)" if "j < 23" for j
    using alloc_inv_list(1) [OF assms(1) that] by (simp add: get_head_def)
  have "iter_at rdv (al_storage al) fl (FreeListsIterator_new ?heads start) start (fl start)"
    using ch [OF assms(2)] assms(2)
    by (simp add: iter_at_def FreeListsIterator_new_def free_list_iterator_def FreeListIterator_new_def)
  moreover have "items_left fl start (fl start) = items"
    using assms(2) by (simp add: items_left_def items_def lists_from_Cons free_items_def)
  ultimately show ?thesis using fli_take_items [OF _ ch] by metis
qed

theorem free_list_iter_complete_witness:
  "\<exists>al'. delete_area leb128_encode uncached_put (Persisted 2048) sample_used = (Inr (), al') \<and>
     fli_take 2 (leb128_read 10) (al_storage al') (h_free_lists (al_header al'))
       (FreeListsIterator_new (h_free_lists (al_header al')) 0) = [Some (Inr (2048, 0)), None]"
proof -
  obtain al' where al': "delete_area leb128_encode uncached_put (Persisted 2048) sample_used = (Inr (), al')"
    "alloc_inv (leb128_read 10) al' ({(2048, 0)} - {(2048, 0)}) ((\<lambda>_. [])(0 := [2048]))"
    using delete_area_inv [OF leb128.varint_axioms uncached.lru_cache_axioms sample_used_inv _ sample_used_holds, of "Persisted 2048"]
    by auto
  have "free_items ((\<lambda>_. [])(0 := [2048])) (lists_from 0) = [(2048, 0)]"
    by (simp add: free_items_def lists_from_def upt_rec)
  moreover have "(0 :: area_index) < 23" by simp
  ultimately show ?thesis
    using free_list_iter_complete [OF al'(2), of 0 1] al'(1) by (simp add: numeral_2_eq_2 del: fli_take.simps)
qed

subsection \<open>The header\<close>

text \<open>
  A header at the start of the storage that is valid for the scheme and the length of the storage
  is read back as it was written, and is then the header that opening the database sees.
\<close>

lemma header_roundtrip:
  assumes "header_wf h" "holds (st_bytes st) 0 (header_bytes h)"
  shows "read_from_storage b alg st =
    rbind (validate b alg (word_of_nat (storage_size st)) h) (\<lambda>_. Inr h)"
proof -
  obtain rest where "header_of_bytes (stream_from st 0) = Inr (h, rest)"
    using reads_holds [OF reads_header [OF assms(1)] assms(2)] by (auto simp: stream_from_def)
  then show ?thesis by (simp add: read_from_storage_def)
qed

text \<open>
  C22. A header is accepted exactly if its version is known, its byte order and area sizes are those of
  this build, it was made for the requested hash algorithm, and its high water mark is aligned,
  not below the header and less than one largest area beyond the end of the storage.
\<close>

theorem header_validation:
  "validate b expected st_size h = Inr () \<longleftrightarrow>
     h_version h \<in> set VALID_V1_VERSIONS \<and> h_endian_test h = 1 \<and> h_area_size_hash h = area_sizes_hash b \<and>
     h_node_hash_algorithm h = algorithm_as_u64 expected \<and> unat (h_size h) mod MIN_AREA_SIZE = 0 \<and>
     HEADER_SIZE \<le> h_size h \<and> unat (h_size h) < unat st_size + MAX_AREA_SIZE"
  by (simp add: validate_iff HEADER_SIZE_def word_le_nat_alt)

text \<open>
  After \<open>flush_freelist\<close> the header on storage is the one written before with the allocator's
  current free lists; everything outside the header is untouched.
\<close>

lemma flush_freelist_persists:
  assumes "holds (st_bytes (al_storage al)) 0 (header_bytes h)" "header_wf h" "header_wf (al_header al)"
  shows "\<exists>al'. flush_freelist al = (Inr (), al') \<and> al_header al' = al_header al \<and>
    (\<exists>rest. header_of_bytes (stream_from (al_storage al') 0) = Inr (h\<lparr>h_free_lists := h_free_lists (al_header al)\<rparr>, rest)) \<and>
    (\<forall>a xs. 2048 \<le> a \<and> holds (st_bytes (al_storage al)) a xs \<longrightarrow> holds (st_bytes (al_storage al')) a xs)"
proof -
  obtain r al' where r: "flush_freelist al = (r, al')" by fastforce
  have "length (h_free_lists (al_header al)) = 23" using assms(3) by (simp add: header_wf_def)
  note f = flush_freelist_header [OF assms(1,2) this r]
  have "header_wf (h\<lparr>h_free_lists := h_free_lists (al_header al)\<rparr>)" using assms(2,3) by (simp add: header_wf_def)
  from reads_holds [OF reads_header [OF this] f(4)] show ?thesis
    using f(1,2,5) r by (auto simp: stream_from_def)
qed

text \<open>
  For a database created by a build without \<open>git describe\<close> output, the reported version string
  is empty: the recorded cargo version is not used, because the \<open>git describe\<close> field is present
  (and empty) in every header that has the extended fields.
\<close>

lemma firewood_version_str_empty:
  "git_describe_output b = [] \<Longrightarrow> firewood_version_str (NodeStoreHeader_new b alg) = Some []"
  by (simp add: firewood_version_str_def header_git_describe_def NodeStoreHeader_new_def padded_str_def
      padded_len_def GitDescribe_instance_def const_copy_eq numeral_eq_Suc)

subsection \<open>Reading a file\<close>

text \<open>
  C23. Reading through the 1024-byte buffer of \<open>PredictiveReader\<close> is reading the file: \<open>read_exact\<close>
  returns the next bytes of the file or, if there are not enough, \<open>UnexpectedEof\<close>; the reported
  offset moves by what was read.
\<close>

theorem predictive_reader_exact:
  assumes "pr_ok fd r"
  shows "\<exists>r'. pr_read_exact fd n r = (map_sum id fst (read_exact n (drop (pr_stream_offset r) fd)), r') \<and>
    pr_ok fd r' \<and> (n \<le> length fd - pr_stream_offset r \<longrightarrow> pr_stream_offset r' = pr_stream_offset r + n)"
  by (rule pr_read_exact_ok [OF assms])

theorem predictive_reader_exact_witness:
  "\<exists>r'. pr_read_exact [1, 2, 3, 4] 2 (pr_new 1) = (Inr [2, 3], r') \<and> pr_stream_offset r' = 3"
  using predictive_reader_exact [OF pr_ok_new, of "[1, 2, 3, 4]" 2 1] by (auto simp: read_exact_def)

end
