(* ===== verification/Rlp.thy ===== *)
theory Rlp
  imports Nodes
begin

section \<open>Recursive length prefix encoding\<close>

text \<open>
  The encoder and decoder of \<open>storage/src/rlp.rs\<close>: flat lists of byte strings, the strict parser of
  item headers, and the splice of one field of a list. Then the hex-prefix encoding of
  \<open>storage/src/eth_encoding.rs\<close>.

  A \<open>usize\<close> is a natural number. Where the source adds with overflow check the bound \<open>2 ^ 64\<close> is
  written out; where it wraps on the lengths of buffers that are in memory the sum is that of the
  naturals, since these lengths are below \<open>isize::MAX\<close>.

  The lemmas show that the decoder accepts exactly the output of the encoder, and that a splice
  changes the field it names and nothing else.
\<close>

subsection \<open>Items and headers\<close>

datatype rlp_error =
    Truncated
  | RlpOverflow
  | ExpectedBytes
  | ExpectedList
  | IndexOutOfRange nat
  | TrailingBytes
  | NonMinimalLength
  | TooLong nat nat
  | WrongLength nat nat

datatype rlp_item = RlpBytes "u8 list" | RlpRaw "u8 list" | RlpEmpty

datatype item_kind = KBytes | KList

record item_header =
  ih_kind :: item_kind
  ih_header_len :: nat
  ih_payload_len :: nat

definition NULL_RLP :: "u8 list" where
  "NULL_RLP = [0x80]"

definition EMPTY_TRIE_ROOT :: "u8 list" where
  "EMPTY_TRIE_ROOT =
     [0x56, 0xe8, 0x1f, 0x17, 0x1b, 0xcc, 0x55, 0xa6, 0xff, 0x83, 0x45, 0xe6, 0x92, 0xc0, 0xf8, 0x6e,
      0x5b, 0x48, 0xe0, 0x1b, 0x99, 0x6c, 0xad, 0xc0, 0x01, 0x62, 0x2f, 0xb5, 0xe3, 0x63, 0xb4, 0x21]"

definition ih_total_len :: "item_header \<Rightarrow> rlp_error + nat" where
  "ih_total_len h =
     (if ih_header_len h + ih_payload_len h < 2 ^ 64 then Inr (ih_header_len h + ih_payload_len h)
      else Inl RlpOverflow)"

text \<open>The bits of a number up to the highest one set: the width less \<open>leading_zeros\<close>.\<close>

fun nonzero_bits :: "nat \<Rightarrow> nat" where
  "nonzero_bits n = (if n = 0 then 0 else Suc (nonzero_bits (n div 2)))"

definition minimal_be_len :: "nat \<Rightarrow> nat" where
  "minimal_be_len n = (if n = 0 then 0 else (nonzero_bits n + 7) div 8)"

definition usize_to_be_bytes :: "nat \<Rightarrow> u8 list" where
  "usize_to_be_bytes n = map (\<lambda>i. word_of_nat (n div 256 ^ i)) (rev [0 ..< 8])"

definition read_be_usize :: "u8 list \<Rightarrow> nat" where
  "read_be_usize bytes = fold (\<lambda>b acc. acc * 256 + unat b) bytes 0"

definition rlp_header_len :: "nat \<Rightarrow> nat" where
  "rlp_header_len payload_len = (if payload_len < 56 then 1 else 1 + minimal_be_len payload_len)"

definition write_header :: "nat \<Rightarrow> u8 \<Rightarrow> u8 list" where
  "write_header payload_len short_base =
     (if payload_len < 56 then [short_base + word_of_nat payload_len]
      else let bytes = usize_to_be_bytes payload_len;
               start = length bytes - minimal_be_len payload_len;
               len_bytes = drop start bytes
           in (short_base + 55 + word_of_nat (length len_bytes)) # len_bytes)"

definition is_single_byte :: "u8 list \<Rightarrow> bool" where
  "is_single_byte b \<longleftrightarrow> length b = 1 \<and> (case b of v # _ \<Rightarrow> v < 0x80 | [] \<Rightarrow> False)"

definition rlp_write_bytes :: "u8 list \<Rightarrow> u8 list" where
  "rlp_write_bytes b = (if is_single_byte b then b else write_header (length b) 0x80 @ b)"

definition bytes_encoded_len :: "u8 list \<Rightarrow> nat" where
  "bytes_encoded_len b = (if is_single_byte b then 1 else rlp_header_len (length b) + length b)"

fun encoded_len :: "rlp_item \<Rightarrow> nat" where
  "encoded_len (RlpBytes b) = bytes_encoded_len b"
| "encoded_len (RlpRaw r) = length r"
| "encoded_len RlpEmpty = 1"

fun write_into :: "rlp_item \<Rightarrow> u8 list" where
  "write_into (RlpBytes b) = rlp_write_bytes b"
| "write_into (RlpRaw r) = r"
| "write_into RlpEmpty = [0x80]"

definition encode_list :: "rlp_item list \<Rightarrow> u8 list" where
  "encode_list items =
     (let payload_len = sum_list (map encoded_len items)
      in write_header payload_len 0xc0 @ concat (map write_into items))"

subsection \<open>The parser\<close>

definition parse_long_header :: "u8 list \<Rightarrow> nat \<Rightarrow> item_kind \<Rightarrow> rlp_error + item_header" where
  "parse_long_header input len_of_len kind =
     (if len_of_len > 8 then Inl RlpOverflow
      else
        let header_len = 1 + len_of_len
        in if length input < header_len then Inl Truncated
           else
             let len_bytes = drop 1 (take header_len input)
             in if (case len_bytes of b # _ \<Rightarrow> b = 0 | [] \<Rightarrow> False) then Inl NonMinimalLength
                else
                  let payload_len = read_be_usize len_bytes
                  in if payload_len < 56 then Inl NonMinimalLength
                     else Inr \<lparr>ih_kind = kind, ih_header_len = header_len, ih_payload_len = payload_len\<rparr>)"

definition parse_header :: "u8 list \<Rightarrow> rlp_error + item_header" where
  "parse_header input =
     (case input of
        [] \<Rightarrow> Inl Truncated
      | first # rest \<Rightarrow>
          if first \<le> 0x7f then Inr \<lparr>ih_kind = KBytes, ih_header_len = 0, ih_payload_len = 1\<rparr>
          else if first \<le> 0xb7 then
            let payload_len = unat (first - 0x80)
            in if payload_len = 1 \<and> (case rest of b # _ \<Rightarrow> b < 0x80 | [] \<Rightarrow> False) then Inl NonMinimalLength
               else Inr \<lparr>ih_kind = KBytes, ih_header_len = 1, ih_payload_len = payload_len\<rparr>
          else if first \<le> 0xbf then parse_long_header input (unat (first - 0xb7)) KBytes
          else if first \<le> 0xf7 then
            Inr \<lparr>ih_kind = KList, ih_header_len = 1, ih_payload_len = unat (first - 0xc0)\<rparr>
          else parse_long_header input (unat (first - 0xf7)) KList)"

text \<open>\<open>RlpList::parse\<close>: the payload of a buffer that is one list.\<close>

definition rlp_parse :: "u8 list \<Rightarrow> rlp_error + u8 list" where
  "rlp_parse bytes =
     rbind (parse_header bytes) (\<lambda>header.
     if ih_kind header \<noteq> KList then Inl ExpectedList
     else rbind (ih_total_len header) (\<lambda>total.
       if total > length bytes then Inl Truncated
       else if total < length bytes then Inl TrailingBytes
       else Inr (drop (ih_header_len header) (take total bytes))))"

definition next_field :: "u8 list \<Rightarrow> rlp_error + u8 list \<times> u8 list" where
  "next_field payload =
     rbind (parse_header payload) (\<lambda>header.
     rbind (ih_total_len header) (\<lambda>total.
     if length payload < total then Inl Truncated
     else if ih_kind header \<noteq> KBytes then Inl ExpectedBytes
     else Inr (drop (ih_header_len header) (take total payload), drop total payload)))"

lemma parse_long_header_total:
  "parse_long_header input n kind = Inr h \<Longrightarrow> ih_header_len h = 1 + n \<and> 56 \<le> ih_payload_len h \<and> ih_kind h = kind"
  by (auto simp: parse_long_header_def Let_def split: if_splits)

lemma parse_header_total: "parse_header input = Inr h \<Longrightarrow> 0 < ih_header_len h + ih_payload_len h"
  by (auto simp: parse_header_def Let_def dest!: parse_long_header_total split: list.splits if_splits)

lemma next_field_shorter: "next_field rest = Inr (field, after) \<Longrightarrow> length after < length rest"
  using parse_header_total [of rest]
  by (auto simp: next_field_def ih_total_len_def rbind_def split: sum.splits if_splits)

function fields_loop :: "u8 list \<Rightarrow> u8 list list \<Rightarrow> rlp_error + u8 list list" where
  "fields_loop rest out =
     (if rest = [] then Inr out
      else case next_field rest of
             Inl e \<Rightarrow> Inl e
           | Inr (field, after) \<Rightarrow> fields_loop after (out @ [field]))"
  by auto
termination
  by (relation "measure (length \<circ> fst)") (auto simp: next_field_shorter)

declare fields_loop.simps [simp del]

definition rlp_fields :: "u8 list \<Rightarrow> rlp_error + u8 list list" where
  "rlp_fields payload = fields_loop payload []"

fun nth_bytes_loop :: "nat \<Rightarrow> nat \<Rightarrow> u8 list \<Rightarrow> rlp_error + u8 list" where
  "nth_bytes_loop i 0 rest =
     (if rest = [] then Inl (IndexOutOfRange i) else rbind (next_field rest) (\<lambda>(field, _). Inr field))"
| "nth_bytes_loop i (Suc n) rest =
     (if rest = [] then Inl (IndexOutOfRange i)
      else rbind (next_field rest) (\<lambda>(_, after). nth_bytes_loop i n after))"

definition nth_bytes :: "u8 list \<Rightarrow> nat \<Rightarrow> rlp_error + u8 list" where
  "nth_bytes payload i = nth_bytes_loop i i payload"

subsection \<open>Replacing a field\<close>

text \<open>The loop of \<open>replace_list_field\<close>: the bounds of the item with the given index.\<close>

function locate_field :: "u8 list \<Rightarrow> nat \<Rightarrow> nat \<Rightarrow> nat \<Rightarrow> rlp_error + nat \<times> nat" where
  "locate_field payload field_index offset idx =
     (if offset > length payload then Inl Truncated
      else
        let rest = drop offset payload
        in if rest = [] then Inl (IndexOutOfRange field_index)
           else case parse_header rest of
             Inl e \<Rightarrow> Inl e
           | Inr item \<Rightarrow>
               (case ih_total_len item of
                  Inl e \<Rightarrow> Inl e
                | Inr item_total \<Rightarrow>
                    if item_total > length rest then Inl Truncated
                    else
                      let next_off = offset + item_total
                      in if idx = field_index
                         then if ih_kind item \<noteq> KBytes then Inl ExpectedBytes else Inr (offset, next_off)
                         else if idx + 1 < 2 ^ 64 then locate_field payload field_index next_off (idx + 1)
                         else Inl RlpOverflow))"
  by auto
termination
  by (relation "measure (\<lambda>(payload, _, offset, _). length payload - offset)")
    (auto simp: ih_total_len_def dest!: parse_header_total split: if_splits)

declare locate_field.simps [simp del]

definition replace_list_field :: "u8 list \<Rightarrow> nat \<Rightarrow> u8 list \<Rightarrow> rlp_error + u8 list" where
  "replace_list_field input field_index replacement =
     rbind (parse_header input) (\<lambda>outer.
     if ih_kind outer \<noteq> KList then Inl ExpectedList
     else rbind (ih_total_len outer) (\<lambda>total.
       if total > length input then Inl Truncated
       else if total < length input then Inl TrailingBytes
       else
         let payload = drop (ih_header_len outer) (take total input)
         in rbind (locate_field payload field_index 0 0) (\<lambda>(item_start, item_end).
            let old_field_encoded_len = item_end - item_start;
                new_field_encoded_len = bytes_encoded_len replacement;
                new_payload_len = length payload - old_field_encoded_len + new_field_encoded_len
            in Inr (write_header new_payload_len 0xc0 @ take item_start payload @
                    rlp_write_bytes replacement @ drop item_end payload))))"

definition parse_be_uint :: "nat \<Rightarrow> u8 list \<Rightarrow> rlp_error + u8 list" where
  "parse_be_uint N bytes =
     (if length bytes > N then Inl (TooLong (length bytes) N)
      else Inr (replicate (N - length bytes) 0 @ bytes))"

definition parse_fixed :: "nat \<Rightarrow> u8 list \<Rightarrow> rlp_error + u8 list" where
  "parse_fixed N bytes = (if length bytes = N then Inr bytes else Inl (WrongLength (length bytes) N))"

subsection \<open>Hex-prefix encoding\<close>

text \<open>\<open>as_rchunks\<close> by two: what is left over at the front, and the pairs.\<close>

fun pairs2 :: "'a list \<Rightarrow> ('a \<times> 'a) list" where
  "pairs2 (hi # lo # ns) = (hi, lo) # pairs2 ns"
| "pairs2 _ = []"

definition as_rchunks2 :: "'a list \<Rightarrow> 'a list \<times> ('a \<times> 'a) list" where
  "as_rchunks2 ns = (take (length ns mod 2) ns, pairs2 (drop (length ns mod 2) ns))"

definition nibbles_to_eth_compact :: "pc list \<Rightarrow> bool \<Rightarrow> u8 list" where
  "nibbles_to_eth_compact nibs is_leaf =
     (let (maybe_low_nibble, nibble_pairs) = as_rchunks2 nibs;
          first_byte0 = (if is_leaf then 0x20 else 0);
          first_byte = (case maybe_low_nibble of
                          [low_nibble] \<Rightarrow> first_byte0 OR 0x10 OR as_u8 low_nibble
                        | _ \<Rightarrow> first_byte0)
      in first_byte # map (\<lambda>(hi, lo). join hi lo) nibble_pairs)"

subsection \<open>Lengths in base 256\<close>

lemma nonzero_bits_bounds: "0 < n \<Longrightarrow> 2 ^ (nonzero_bits n - 1) \<le> n \<and> n < 2 ^ nonzero_bits n \<and> 0 < nonzero_bits n"
proof (induction n rule: nonzero_bits.induct)
  case (1 n)
  show ?case
  proof (cases "n = 1")
    case True then show ?thesis by (simp add: nonzero_bits.simps)
  next
    case False
    then have "0 < n div 2" using 1 by simp
    then have IH: "2 ^ (nonzero_bits (n div 2) - 1) \<le> n div 2" "n div 2 < 2 ^ nonzero_bits (n div 2)" "0 < nonzero_bits (n div 2)"
      using 1 by auto
    obtain b where b: "nonzero_bits (n div 2) = Suc b" using IH(3) gr0_implies_Suc by blast
    have "nonzero_bits n = Suc (Suc b)" using 1 b by (simp add: nonzero_bits.simps [of n])
    then show ?thesis using IH(1,2) unfolding b by auto
  qed
qed

declare nonzero_bits.simps [simp del]

lemma minimal_be_len_bounds:
  assumes "0 < n"
  shows "0 < minimal_be_len n" "256 ^ (minimal_be_len n - 1) \<le> n" "n < 256 ^ minimal_be_len n"
proof -
  note b = nonzero_bits_bounds [OF assms]
  define k where "k = minimal_be_len n"
  have k: "k = (nonzero_bits n + 7) div 8" using assms by (simp add: k_def minimal_be_len_def)
  have k: "8 * (k - 1) \<le> nonzero_bits n - 1" "nonzero_bits n \<le> 8 * k" "0 < k"
    using conjunct2 [OF conjunct2 [OF b]] unfolding k by linarith+
  have "(256 :: nat) ^ j = 2 ^ (8 * j)" for j by (simp add: power_mult)
  moreover have "(2 :: nat) ^ (8 * (k - 1)) \<le> 2 ^ (nonzero_bits n - 1)" using k(1) by (intro power_increasing) auto
  moreover have "(2 :: nat) ^ nonzero_bits n \<le> 2 ^ (8 * k)" using k(2) by (intro power_increasing) auto
  ultimately show "0 < minimal_be_len n" "256 ^ (minimal_be_len n - 1) \<le> n" "n < 256 ^ minimal_be_len n"
    using b k(3) unfolding k_def [symmetric] by (metis k(3), metis le_trans, metis less_le_trans)
qed

lemma minimal_be_len_unique:
  assumes "256 ^ j \<le> n" "n < 256 ^ Suc j"
  shows "minimal_be_len n = Suc j"
proof -
  have n: "0 < n" by (rule less_le_trans [OF _ assms(1)]) simp
  note b = minimal_be_len_bounds [OF n]
  have mono: "(256 :: nat) ^ a < 256 ^ b \<Longrightarrow> a < b" for a b
    by (rule power_less_imp_less_exp [of 256]) simp_all
  have "(256 :: nat) ^ (minimal_be_len n - 1) < 256 ^ Suc j" "(256 :: nat) ^ j < 256 ^ minimal_be_len n"
    using le_less_trans [OF b(2) assms(2)] le_less_trans [OF assms(1) b(3)] .
  then have "minimal_be_len n - 1 < Suc j" "j < minimal_be_len n"
    using mono by blast+
  then show ?thesis by linarith
qed

definition be_bytes :: "nat \<Rightarrow> nat \<Rightarrow> u8 list" where
  "be_bytes k n = map (\<lambda>i. word_of_nat (n div 256 ^ i)) (rev [0 ..< k])"

lemma length_be_bytes [simp]: "length (be_bytes k n) = k"
  by (simp add: be_bytes_def)

lemma be_bytes_Suc: "be_bytes (Suc k) n = word_of_nat (n div 256 ^ k) # be_bytes k n"
  by (simp add: be_bytes_def)

lemma drop_usize_to_be_bytes: "k \<le> 8 \<Longrightarrow> drop (8 - k) (usize_to_be_bytes n) = be_bytes k n"
  by (simp add: usize_to_be_bytes_def be_bytes_def drop_map rev_drop [symmetric] drop_rev take_upt del: upt_Suc)

lemma unat_word_of_nat_u8: "unat (word_of_nat m :: u8) = m mod 256"
  by (simp add: unat_of_nat take_bit_eq_mod)

lemma fold_be_bytes: "fold (\<lambda>b acc. acc * 256 + unat b) (be_bytes k n) acc = acc * 256 ^ k + n mod 256 ^ k"
proof (induction k arbitrary: acc)
  case (Suc k)
  have "n mod 256 ^ Suc k = 256 ^ k * (n div 256 ^ k mod 256) + n mod 256 ^ k"
    using mod_mult2_eq [of n "256 ^ k" 256] by (simp add: mult.commute)
  then show ?case using Suc by (simp add: be_bytes_Suc unat_word_of_nat_u8 algebra_simps)
qed (simp add: be_bytes_def)

lemma read_be_bytes: "n < 256 ^ k \<Longrightarrow> read_be_usize (be_bytes k n) = n"
  by (simp add: read_be_usize_def fold_be_bytes)

lemma read_be_usize_snoc: "read_be_usize (bs @ [b]) = read_be_usize bs * 256 + unat b"
  by (simp add: read_be_usize_def)

lemma be_bytes_read: "be_bytes (length bs) (read_be_usize bs) = bs"
proof (induction bs rule: rev_induct)
  case (snoc b bs)
  have b: "unat b < 256" using unsigned_less [of b, where 'a = nat] by simp
  have "(read_be_usize bs * 256 + unat b) div 256 ^ Suc i = read_be_usize bs div 256 ^ i" for i
    using b by (simp add: div_mult2_eq)
  moreover have "rev [0 ..< Suc k] = map Suc (rev [0 ..< k]) @ [0]" for k
    by (simp add: rev_map [symmetric] map_Suc_upt upt_conv_Cons del: upt_Suc)
  ultimately have "be_bytes (Suc k) (read_be_usize (bs @ [b])) =
      be_bytes k (read_be_usize bs) @ [word_of_nat (read_be_usize bs * 256 + unat b)]" for k
    by (simp add: be_bytes_def read_be_usize_snoc del: upt_Suc power_Suc)
  moreover have "word_of_nat (read_be_usize bs * 256 + unat b) = b"
    by (rule unsigned_word_eqI [where 'a = nat], unfold unat_word_of_nat_u8) (use b in simp)
  ultimately show ?case using snoc by simp
qed (simp add: be_bytes_def)

lemma read_be_usize_bound: "read_be_usize bs < 256 ^ length bs"
proof (induction bs rule: rev_induct)
  case (snoc b bs)
  have "unat b < 256" using unsigned_less [of b, where 'a = nat] by simp
  then show ?case using snoc by (simp add: read_be_usize_snoc)
qed (simp add: read_be_usize_def)

lemma read_be_usize_lower: "b \<noteq> 0 \<Longrightarrow> 256 ^ length bs \<le> read_be_usize (b # bs)"
proof (induction bs rule: rev_induct)
  case Nil
  then have "0 < unat b" by (simp add: unat_gt_0)
  then show ?case by (simp add: read_be_usize_def)
next
  case (snoc c bs)
  then show ?case using read_be_usize_snoc [of "b # bs" c] by simp
qed

lemma minimal_be_len_read: "b \<noteq> 0 \<Longrightarrow> minimal_be_len (read_be_usize (b # bs)) = length (b # bs)"
  using read_be_usize_lower [of b bs] read_be_usize_bound [of "b # bs"] minimal_be_len_unique [of "length bs"] by simp

subsection \<open>Headers\<close>

definition kind_base :: "item_kind \<Rightarrow> u8" where
  "kind_base k = (case k of KBytes \<Rightarrow> 0x80 | KList \<Rightarrow> 0xc0)"

lemma minimal_be_len_le: "n < 2 ^ 64 \<Longrightarrow> minimal_be_len n \<le> 8"
proof (cases "n = 0")
  case False
  assume "n < 2 ^ 64"
  then have "(256 :: nat) ^ (minimal_be_len n - 1) < 256 ^ 8"
    using minimal_be_len_bounds(2) [of n] False by (simp add: le_less_trans)
  then have "minimal_be_len n - 1 < 8" by (rule power_less_imp_less_exp [rotated]) simp
  then show ?thesis by simp
qed (simp add: minimal_be_len_def)

lemma write_header_long:
  assumes "56 \<le> n" "n < 2 ^ 64"
  shows "write_header n base = (base + 55 + word_of_nat (minimal_be_len n)) # be_bytes (minimal_be_len n) n"
  using assms minimal_be_len_le [OF assms(2)] drop_usize_to_be_bytes [of "minimal_be_len n" n]
  by (simp add: write_header_def Let_def usize_to_be_bytes_def)

lemma length_write_header: "n < 2 ^ 64 \<Longrightarrow> length (write_header n base) = rlp_header_len n"
  by (cases "n < 56") (simp_all add: write_header_long rlp_header_len_def, simp add: write_header_def)

lemma length_rlp_write_bytes: "length b < 2 ^ 64 \<Longrightarrow> length (rlp_write_bytes b) = bytes_encoded_len b"
  by (simp add: rlp_write_bytes_def bytes_encoded_len_def length_write_header) (simp add: is_single_byte_def)

lemma parse_long_header_write:
  assumes "56 \<le> n" "n < 2 ^ 64"
  shows "parse_long_header (c # be_bytes (minimal_be_len n) n @ rest) (minimal_be_len n) kind =
    Inr \<lparr>ih_kind = kind, ih_header_len = 1 + minimal_be_len n, ih_payload_len = n\<rparr>"
proof -
  have n: "0 < n" using assms by simp
  note b = minimal_be_len_bounds [OF n]
  obtain j where j: "minimal_be_len n = Suc j" using b(1) gr0_implies_Suc by blast
  have "0 < n div 256 ^ j" "n div 256 ^ j < 256"
    using b(2,3) by (simp_all add: j div_greater_zero_iff less_mult_imp_div_less mult.commute)
  then have "unat (word_of_nat (n div 256 ^ j) :: u8) \<noteq> 0" by (simp add: unat_word_of_nat_u8)
  then have ne: "(word_of_nat (n div 256 ^ j) :: u8) \<noteq> 0" by (metis unat_0)
  have "read_be_usize (be_bytes (Suc j) n) = n" by (rule read_be_bytes) (use b(3) j in simp)
  moreover have "Suc j \<le> 8" using minimal_be_len_le [OF assms(2)] j by simp
  ultimately show ?thesis using assms(1) ne unfolding j
    by (simp add: parse_long_header_def Let_def be_bytes_Suc)
qed

lemma unat_add_u8: "unat c + n < 256 \<Longrightarrow> unat (c + word_of_nat n :: u8) = unat c + n"
  by (simp add: unat_word_ariths unat_word_of_nat_u8)

lemma unat_sub_u8: "unat c + n < 256 \<Longrightarrow> unat ((c + word_of_nat n :: u8) - c) = n"
  by (simp add: unat_word_of_nat_u8)

text \<open>The header of an item is read back, unless it is the long form of a single byte.\<close>

lemma parse_header_write:
  assumes n: "n < 2 ^ 64" and single: "kind = KBytes \<Longrightarrow> n = 1 \<Longrightarrow> rest \<noteq> [] \<Longrightarrow> 0x80 \<le> hd rest"
  shows "parse_header (write_header n (kind_base kind) @ rest) =
    Inr \<lparr>ih_kind = kind, ih_header_len = rlp_header_len n, ih_payload_len = n\<rparr>"
proof (cases "n < 56")
  case True
  then have w: "write_header n (kind_base kind) = [kind_base kind + word_of_nat n]" by (simp add: write_header_def)
  show ?thesis
  proof (cases kind)
    case KBytes
    have "unat ((0x80 :: u8) + word_of_nat n) = 128 + n" "unat (((0x80 :: u8) + word_of_nat n) - 0x80) = n"
      using True unat_add_u8 [of "0x80" n] unat_sub_u8 [of "0x80" n] by simp_all
    then show ?thesis unfolding w using True single KBytes
      by (cases rest) (auto simp: kind_base_def parse_header_def rlp_header_len_def Let_def word_le_nat_alt word_less_nat_alt)
  next
    case KList
    have "unat ((0xc0 :: u8) + word_of_nat n) = 192 + n" "unat (((0xc0 :: u8) + word_of_nat n) - 0xc0) = n"
      using True unat_add_u8 [of "0xc0" n] unat_sub_u8 [of "0xc0" n] by simp_all
    then show ?thesis unfolding w using True KList
      by (simp add: kind_base_def parse_header_def rlp_header_len_def Let_def word_le_nat_alt)
  qed
next
  case False
  define m where "m = minimal_be_len n"
  have m: "0 < m" "m \<le> 8" using False minimal_be_len_le [OF n] minimal_be_len_bounds [of n] by (simp_all add: m_def)
  have w: "write_header n (kind_base kind) @ rest = (kind_base kind + 55 + word_of_nat m) # be_bytes m n @ rest"
    using False n by (simp add: write_header_long m_def)
  have long: "parse_long_header (c # be_bytes m n @ rest) m kind =
      Inr \<lparr>ih_kind = kind, ih_header_len = 1 + m, ih_payload_len = n\<rparr>" for c
    unfolding m_def by (rule parse_long_header_write) (use False n in simp_all)
  show ?thesis
  proof (cases kind)
    case KBytes
    have "unat ((0xb7 :: u8) + word_of_nat m) = 183 + m" "unat (((0xb7 :: u8) + word_of_nat m) - 0xb7) = m"
      using m unat_add_u8 [of "0xb7" m] unat_sub_u8 [of "0xb7" m] by simp_all
    then show ?thesis unfolding w using False m long KBytes
      by (simp add: kind_base_def parse_header_def rlp_header_len_def m_def [symmetric] word_le_nat_alt)
  next
    case KList
    have "unat ((0xf7 :: u8) + word_of_nat m) = 247 + m" "unat (((0xf7 :: u8) + word_of_nat m) - 0xf7) = m"
      using m unat_add_u8 [of "0xf7" m] unat_sub_u8 [of "0xf7" m] by simp_all
    then show ?thesis unfolding w using False m long KList
      by (simp add: kind_base_def parse_header_def rlp_header_len_def m_def [symmetric] word_le_nat_alt)
  qed
qed

text \<open>Only the minimal header is read.\<close>

lemma parse_long_header_canon:
  assumes p: "parse_long_header (first # rest) m kind = Inr h" and m: "0 < m"
    and first: "first = kind_base kind + 55 + word_of_nat m"
  shows "ih_kind h = kind \<and> ih_payload_len h < 2 ^ 64 \<and> ih_header_len h = rlp_header_len (ih_payload_len h) \<and>
    first # rest = write_header (ih_payload_len h) (kind_base kind) @ drop (ih_header_len h) (first # rest)"
proof -
  define bs where "bs = take m rest"
  have le: "m \<le> 8" "m \<le> length rest" and nz: "\<not> (case bs of b # _ \<Rightarrow> b = 0 | [] \<Rightarrow> False)"
    and h: "h = \<lparr>ih_kind = kind, ih_header_len = 1 + m, ih_payload_len = read_be_usize bs\<rparr>" "56 \<le> read_be_usize bs"
    using p by (auto simp: parse_long_header_def Let_def bs_def split: if_splits)
  obtain b bt where b: "bs = b # bt" "b \<noteq> 0" using nz le m by (cases bs) (auto simp: bs_def)
  have len: "length bs = m" using le by (simp add: bs_def)
  have min: "minimal_be_len (read_be_usize bs) = m" using minimal_be_len_read [OF b(2), of bt] len by (simp add: b)
  have "read_be_usize bs < 256 ^ m" using read_be_usize_bound [of bs] len by simp
  also have "(256 :: nat) ^ m \<le> 256 ^ 8" using le by (intro power_increasing) simp_all
  finally have lt: "read_be_usize bs < 2 ^ 64" by simp
  have "be_bytes m (read_be_usize bs) = bs" using be_bytes_read [of bs] len by simp
  then have "write_header (read_be_usize bs) (kind_base kind) = first # bs"
    using write_header_long [OF h(2) lt, of "kind_base kind"] by (simp add: min first)
  then show ?thesis using lt h min by (simp add: rlp_header_len_def bs_def)
qed

definition short_single :: "u8 list \<Rightarrow> item_header \<Rightarrow> bool" where
  "short_single input h \<longleftrightarrow> (\<exists>b rest. input = b # rest \<and> b < 0x80 \<and> h = \<lparr>ih_kind = KBytes, ih_header_len = 0, ih_payload_len = 1\<rparr>)"

definition canon_header :: "u8 list \<Rightarrow> item_header \<Rightarrow> bool" where
  "canon_header input h \<longleftrightarrow>
     ih_payload_len h < 2 ^ 64 \<and> ih_header_len h = rlp_header_len (ih_payload_len h) \<and>
     input = write_header (ih_payload_len h) (kind_base (ih_kind h)) @ drop (ih_header_len h) input \<and>
     (ih_kind h = KBytes \<and> ih_payload_len h = 1 \<and> drop (ih_header_len h) input \<noteq> [] \<longrightarrow>
        0x80 \<le> hd (drop (ih_header_len h) input))"

lemma word_of_unat_diff: "c \<le> (b :: u8) \<Longrightarrow> b = c + word_of_nat (unat (b - c))"
  by simp

lemma parse_header_canon:
  assumes "parse_header input = Inr h"
  shows "short_single input h \<or> canon_header input h"
proof (cases input)
  case Nil
  with assms show ?thesis by (simp add: parse_header_def)
next
  case (Cons b rest)
  have short: "unat (b - c) < 56" if "c \<le> b" "b \<le> c + 55" "unat c + 55 < 256" for c
    using that unat_add_u8 [of c 55] by (simp add: word_le_nat_alt unat_sub_if_size word_size split: if_splits)
  have long: "0 < unat (b - c)" if "c < b" for c
    using that by (simp add: unat_gt_0)
  consider "b \<le> 0x7f" | "0x80 \<le> b" "b \<le> 0xb7" | "0xb7 < b" "b \<le> 0xbf" | "0xc0 \<le> b" "b \<le> 0xf7" | "0xf7 < b"
    by (cases "b \<le> 0x7f"; cases "b \<le> 0xb7"; cases "b \<le> 0xbf"; cases "b \<le> 0xf7")
      (auto simp: word_le_nat_alt word_less_nat_alt)
  then show ?thesis
  proof cases
    case 1
    then show ?thesis using assms
      by (auto simp: Cons parse_header_def short_single_def word_le_nat_alt word_less_nat_alt)
  next
    case 2
    have n7f: "\<not> b \<le> 0x7f" using 2(1) by (simp add: word_le_nat_alt)
    have h: "h = \<lparr>ih_kind = KBytes, ih_header_len = 1, ih_payload_len = unat (b - 0x80)\<rparr>"
      "\<not> (unat (b - 0x80) = 1 \<and> (case rest of c # _ \<Rightarrow> c < 0x80 | [] \<Rightarrow> False))"
      using assms 2 n7f by (auto simp: Cons parse_header_def Let_def split: if_splits)
    then have "canon_header input h" using short [of "0x80"] 2 h(2)
      by (auto simp: Cons canon_header_def write_header_def rlp_header_len_def kind_base_def split: list.splits)
    then show ?thesis by simp
  next
    case 3
    then have n: "\<not> b \<le> 0x7f" "\<not> b \<le> 0xb7" by (auto simp: word_le_nat_alt word_less_nat_alt)
    have "parse_long_header (b # rest) (unat (b - 0xb7)) KBytes = Inr h"
      using assms 3 n by (simp add: Cons parse_header_def)
    then have "canon_header input h"
      using parse_long_header_canon [of b rest "unat (b - 0xb7)" KBytes h] long [OF 3(1)] parse_long_header_total
      by (fastforce simp: Cons canon_header_def kind_base_def)
    then show ?thesis by simp
  next
    case 4
    have n: "\<not> b \<le> 0x7f" "\<not> b \<le> 0xb7" "\<not> b \<le> 0xbf" using 4(1) by (auto simp: word_le_nat_alt)
    have h: "h = \<lparr>ih_kind = KList, ih_header_len = 1, ih_payload_len = unat (b - 0xc0)\<rparr>"
      using assms 4 n by (simp add: Cons parse_header_def)
    then have "canon_header input h" using short [of "0xc0"] 4
      by (auto simp: Cons canon_header_def write_header_def rlp_header_len_def kind_base_def)
    then show ?thesis by simp
  next
    case 5
    then have n: "\<not> b \<le> 0x7f" "\<not> b \<le> 0xb7" "\<not> b \<le> 0xbf" "\<not> b \<le> 0xf7"
      by (auto simp: word_le_nat_alt word_less_nat_alt)
    have "parse_long_header (b # rest) (unat (b - 0xf7)) KList = Inr h"
      using assms n by (simp add: Cons parse_header_def)
    then have "canon_header input h"
      using parse_long_header_canon [of b rest "unat (b - 0xf7)" KList h] long [OF 5]
      by (auto simp: Cons canon_header_def kind_base_def)
    then show ?thesis by simp
  qed
qed

subsection \<open>The decoder accepts exactly what the encoder writes\<close>

lemma rlp_header_len_pos: "0 < rlp_header_len n"
  by (simp add: rlp_header_len_def)

lemma rlp_write_bytes_nonempty: "rlp_write_bytes b \<noteq> []"
  by (auto simp: rlp_write_bytes_def is_single_byte_def write_header_def Let_def split: list.splits)

lemma is_single_byteE: "is_single_byte b \<Longrightarrow> \<exists>v. b = [v] \<and> v < 0x80"
  by (auto simp: is_single_byte_def length_Suc_conv)

lemma parse_header_write_bytes:
  assumes "length (rlp_write_bytes b) < 2 ^ 64"
  shows "\<exists>h. parse_header (rlp_write_bytes b @ rest) = Inr h \<and> ih_kind h = KBytes \<and>
    ih_total_len h = Inr (length (rlp_write_bytes b)) \<and> drop (ih_header_len h) (rlp_write_bytes b) = b"
proof (cases "is_single_byte b")
  case True
  then obtain v where "b = [v]" "v < 0x80" using is_single_byteE by blast
  moreover from this have "v \<le> 0x7f" by (simp add: word_less_nat_alt word_le_nat_alt)
  ultimately show ?thesis using True by (simp add: rlp_write_bytes_def parse_header_def ih_total_len_def)
next
  case False
  then have len: "length b < 2 ^ 64" using assms by (simp add: rlp_write_bytes_def)
  have total: "length (write_header (length b) 0x80) = rlp_header_len (length b)"
    using len by (rule length_write_header)
  have "parse_header (write_header (length b) 0x80 @ b @ rest) =
      Inr \<lparr>ih_kind = KBytes, ih_header_len = rlp_header_len (length b), ih_payload_len = length b\<rparr>"
    using parse_header_write [of "length b" KBytes "b @ rest"] len False
    by (cases b) (auto simp: kind_base_def is_single_byte_def not_less)
  then show ?thesis using False assms total by (simp add: rlp_write_bytes_def ih_total_len_def)
qed

lemma canon_header_item:
  assumes c: "canon_header input h" and k: "ih_kind h = KBytes" and t: "ih_total_len h = Inr tot" and fit: "tot \<le> length input"
  shows "take tot input = rlp_write_bytes (drop (ih_header_len h) (take tot input))"
proof -
  let ?n = "ih_payload_len h"
  define body where "body = drop (ih_header_len h) input"
  have input: "input = write_header ?n 0x80 @ body" and hl: "ih_header_len h = rlp_header_len ?n" and n: "?n < 2 ^ 64"
    and single: "?n = 1 \<Longrightarrow> body \<noteq> [] \<Longrightarrow> 0x80 \<le> hd body"
    using c unfolding canon_header_def body_def k kind_base_def item_kind.case by blast+
  have wl: "length (write_header ?n 0x80) = rlp_header_len ?n" using n by (rule length_write_header)
  have tot: "tot = rlp_header_len ?n + ?n" using t hl by (auto simp: ih_total_len_def split: if_splits)
  have field: "drop (ih_header_len h) (take tot input) = take ?n body"
    by (simp add: tot body_def hl drop_take)
  have "\<not> is_single_byte (take ?n body)"
  proof
    assume "is_single_byte (take ?n body)"
    then obtain v where v: "take ?n body = [v]" "v < 0x80" using is_single_byteE by blast
    have "length body = length input - rlp_header_len ?n" using hl by (simp add: body_def)
    then have "?n \<le> length body" using fit by (simp add: tot)
    moreover have "length (take ?n body) = 1" using v(1) by simp
    ultimately have "?n = 1" by simp
    then show False using v single by (cases body) (auto simp: not_less [symmetric])
  qed
  moreover have "length (take ?n body) = ?n"
    using fit hl by (simp add: body_def tot) 
  moreover have "take tot input = write_header ?n 0x80 @ take ?n body"
    unfolding tot by (subst input) (simp add: wl)
  ultimately show ?thesis unfolding field by (simp add: rlp_write_bytes_def)
qed

lemma next_field_iff:
  assumes "length payload < 2 ^ 64"
  shows "next_field payload = Inr (field, after) \<longleftrightarrow> payload = rlp_write_bytes field @ after"
proof
  assume "next_field payload = Inr (field, after)"
  then obtain h tot where h: "parse_header payload = Inr h" "ih_total_len h = Inr tot" "tot \<le> length payload"
    "ih_kind h = KBytes" "field = drop (ih_header_len h) (take tot payload)" "after = drop tot payload"
    by (auto simp: next_field_def rbind_def not_less split: sum.splits if_splits)
  from parse_header_canon [OF h(1)] have "take tot payload = rlp_write_bytes field"
  proof
    assume "short_single payload h"
    then show ?thesis using h
      by (auto simp: short_single_def rlp_write_bytes_def ih_total_len_def is_single_byte_def)
  next
    assume "canon_header payload h"
    then show ?thesis using canon_header_item [OF _ h(4,2,3)] h(5) by simp
  qed
  then show "payload = rlp_write_bytes field @ after" using h(6) by (metis append_take_drop_id)
next
  assume p: "payload = rlp_write_bytes field @ after"
  then show "next_field payload = Inr (field, after)"
    using parse_header_write_bytes [of field after] assms by (auto simp: next_field_def)
qed

lemma fields_loop_acc: "fields_loop rest out = rbind (fields_loop rest []) (\<lambda>xs. Inr (out @ xs))"
proof (induction rest arbitrary: out rule: measure_induct_rule [of length])
  case (less rest)
  show ?case
  proof (cases "next_field rest")
    case (Inr r)
    then show ?thesis
      using less [of "snd r" "out @ [fst r]"] less [of "snd r" "[fst r]"] next_field_shorter [of rest "fst r" "snd r"]
      by (cases r) (auto simp: fields_loop.simps [of rest] rbind_def split: sum.splits)
  qed (simp add: fields_loop.simps [of rest])
qed

lemma rlp_fields_step:
  "rlp_fields rest =
     (if rest = [] then Inr []
      else rbind (next_field rest) (\<lambda>(field, after). rbind (rlp_fields after) (\<lambda>xs. Inr (field # xs))))"
  using fields_loop_acc [of _ "[_]"] by (auto simp: rlp_fields_def fields_loop.simps [of rest] rbind_def split: sum.splits)

lemma rlp_fields_Nil [simp]: "rlp_fields [] = Inr []"
  by (simp add: rlp_fields_step)

lemma rlp_fields_iff:
  "length payload < 2 ^ 64 \<Longrightarrow> rlp_fields payload = Inr xs \<longleftrightarrow> payload = concat (map rlp_write_bytes xs)"
proof (induction payload arbitrary: xs rule: measure_induct_rule [of length])
  case (less payload)
  show ?case
  proof (cases "payload = []")
    case True
    then show ?thesis by (cases xs) (auto simp: rlp_write_bytes_nonempty)
  next
    case False
    have IH: "rlp_fields after = Inr ys \<longleftrightarrow> after = concat (map rlp_write_bytes ys)"
      if "payload = rlp_write_bytes x @ after" for x after ys
      using less.IH [of after ys] less.prems that rlp_write_bytes_nonempty [of x] by simp
    have step: "rlp_fields payload = Inr xs \<longleftrightarrow>
        (\<exists>x after ys. next_field payload = Inr (x, after) \<and> rlp_fields after = Inr ys \<and> xs = x # ys)"
      using False by (auto simp: rlp_fields_step [of payload] rbind_def split: sum.splits)
    also have "\<dots> \<longleftrightarrow> (\<exists>x after ys. payload = rlp_write_bytes x @ after \<and> after = concat (map rlp_write_bytes ys) \<and> xs = x # ys)"
      unfolding next_field_iff [OF less.prems] using IH by blast
    also have "\<dots> \<longleftrightarrow> payload = concat (map rlp_write_bytes xs)" using False by (cases xs) auto
    finally show ?thesis .
  qed
qed

lemma rlp_parse_iff:
  assumes "length bytes < 2 ^ 64"
  shows "rlp_parse bytes = Inr payload \<longleftrightarrow> bytes = write_header (length payload) 0xc0 @ payload"
proof
  assume "rlp_parse bytes = Inr payload"
  then obtain h where h: "parse_header bytes = Inr h" "ih_kind h = KList" "ih_total_len h = Inr (length bytes)"
    "payload = drop (ih_header_len h) bytes"
    by (auto simp: rlp_parse_def rbind_def not_less split: sum.splits if_splits)
  then have "canon_header bytes h" using parse_header_canon [OF h(1)] by (auto simp: short_single_def)
  moreover have "length payload = ih_payload_len h"
    using h(3,4) by (auto simp: ih_total_len_def split: if_splits)
  ultimately show "bytes = write_header (length payload) 0xc0 @ payload"
    using h(2,4) by (auto simp: canon_header_def kind_base_def)
next
  assume b: "bytes = write_header (length payload) 0xc0 @ payload"
  then have n: "length payload < 2 ^ 64" using assms by simp
  have "parse_header bytes = Inr \<lparr>ih_kind = KList, ih_header_len = rlp_header_len (length payload), ih_payload_len = length payload\<rparr>"
    using parse_header_write [OF n, of KList payload] by (simp add: b kind_base_def)
  then show "rlp_parse bytes = Inr payload"
    using assms length_write_header [OF n, of "0xc0"] by (simp add: b rlp_parse_def ih_total_len_def)
qed

lemma encoded_len_write_into: "length (write_into item) < 2 ^ 64 \<Longrightarrow> encoded_len item = length (write_into item)"
proof (cases item)
  case (RlpBytes b)
  assume "length (write_into item) < 2 ^ 64"
  then have "length b < 2 ^ 64" by (simp add: RlpBytes rlp_write_bytes_def split: if_splits)
  then show ?thesis using length_rlp_write_bytes by (simp add: RlpBytes)
qed simp_all

lemma encode_list_eq:
  assumes "length (concat (map write_into items)) < 2 ^ 64"
  shows "encode_list items =
    write_header (length (concat (map write_into items))) 0xc0 @ concat (map write_into items)"
proof -
  have "sum_list (map encoded_len items) = length (concat (map write_into items))"
    using assms by (induction items) (auto simp: encoded_len_write_into)
  then show ?thesis by (simp add: encode_list_def)
qed

lemma encode_list_bound:
  assumes "length (encode_list items) < 2 ^ 64"
  shows "length (concat (map write_into items)) < 2 ^ 64"
  using assms by (simp add: encode_list_def Let_def)

lemma rlp_fields_encode:
  assumes "length (encode_list (map RlpBytes xs)) < 2 ^ 64"
  shows "rbind (rlp_parse (encode_list (map RlpBytes xs))) rlp_fields = Inr xs"
proof -
  let ?p = "concat (map rlp_write_bytes xs)"
  have m: "map write_into (map RlpBytes xs) = map rlp_write_bytes xs" by simp
  have p: "length ?p < 2 ^ 64" using encode_list_bound [OF assms] unfolding m .
  have "encode_list (map RlpBytes xs) = write_header (length ?p) 0xc0 @ ?p"
    using encode_list_eq [of "map RlpBytes xs"] p unfolding m by blast
  then have "rlp_parse (encode_list (map RlpBytes xs)) = Inr ?p" using rlp_parse_iff [OF assms] by simp
  then show ?thesis using rlp_fields_iff [OF p] by simp
qed

lemma rlp_fields_canonical:
  assumes "rbind (rlp_parse bytes) rlp_fields = Inr xs" "length bytes < 2 ^ 64"
  shows "bytes = encode_list (map RlpBytes xs)"
proof -
  obtain payload where p: "rlp_parse bytes = Inr payload" "rlp_fields payload = Inr xs"
    using assms(1) by (cases "rlp_parse bytes") auto
  then have b: "bytes = write_header (length payload) 0xc0 @ payload" using rlp_parse_iff [OF assms(2)] by simp
  then have len: "length payload < 2 ^ 64" using assms(2) by simp
  then have "payload = concat (map write_into (map RlpBytes xs))"
    using iffD1 [OF rlp_fields_iff [OF len] p(2)] by (simp add: comp_def)
  then show ?thesis using b encode_list_eq [of "map RlpBytes xs"] len by simp
qed

lemma nth_bytes_fields:
  assumes "rlp_fields payload = Inr xs"
  shows "nth_bytes_loop i n payload = (if n < length xs then Inr (xs ! n) else Inl (IndexOutOfRange i))"
  using assms
proof (induction n arbitrary: payload xs)
  case 0
  then show ?case by (auto simp: rlp_fields_step [of payload] rbind_def split: sum.splits if_splits)
next
  case (Suc n)
  then show ?case
    by (cases "payload = []"; cases "next_field payload")
      (auto simp: rlp_fields_step [of payload] rbind_def split: sum.splits if_splits)
qed

subsection \<open>The splice\<close>

text \<open>What the search for a field splits the payload into.\<close>

primrec split_field :: "nat \<Rightarrow> nat \<Rightarrow> u8 list \<Rightarrow> rlp_error + u8 list \<times> u8 list \<times> u8 list" where
  "split_field i 0 rest =
     (if rest = [] then Inl (IndexOutOfRange i)
      else rbind (parse_header rest) (\<lambda>h. rbind (ih_total_len h) (\<lambda>n.
        if n > length rest then Inl Truncated
        else if ih_kind h \<noteq> KBytes then Inl ExpectedBytes else Inr ([], take n rest, drop n rest))))"
| "split_field i (Suc k) rest =
     (if rest = [] then Inl (IndexOutOfRange i)
      else rbind (parse_header rest) (\<lambda>h. rbind (ih_total_len h) (\<lambda>n.
        if n > length rest then Inl Truncated
        else rbind (split_field i k (drop n rest)) (\<lambda>(pre, item, suf). Inr (take n rest @ pre, item, suf)))))"

lemma locate_field_split:
  assumes "offset \<le> length payload" "idx + k = i" "i < 2 ^ 64"
  shows "locate_field payload i offset idx =
    rbind (split_field i k (drop offset payload)) (\<lambda>(pre, item, suf).
      Inr (offset + length pre, offset + length pre + length item))"
  using assms
proof (induction k arbitrary: offset idx)
  case 0
  then show ?case
    by (auto simp: locate_field.simps [of payload] Let_def rbind_def not_le split: sum.splits)
next
  case (Suc k)
  let ?rest = "drop offset payload"
  show ?case
  proof (cases "parse_header ?rest")
    case (Inr h)
    show ?thesis
    proof (cases "ih_total_len h")
      case total: (Inr n)
      have "locate_field payload i (offset + n) (idx + 1) =
          rbind (split_field i k (drop n ?rest)) (\<lambda>(pre, item, suf).
            Inr (offset + n + length pre, offset + n + length pre + length item))"
        if "n \<le> length ?rest" "?rest \<noteq> []"
        using Suc.IH [of "offset + n" "idx + 1"] that Suc.prems by (simp add: add.commute [of n offset])
      then show ?thesis using Inr total Suc.prems
        by (auto simp: locate_field.simps [of payload i offset] Let_def rbind_def not_le split: sum.splits)
    qed (use Inr Suc.prems in \<open>auto simp: locate_field.simps [of payload] Let_def\<close>)
  qed (use Suc.prems in \<open>auto simp: locate_field.simps [of payload] Let_def\<close>)
qed

lemma split_field_append:
  "split_field i k rest = Inr (pre, item, suf) \<Longrightarrow> rest = pre @ item @ suf"
proof (induction k arbitrary: rest pre)
  case 0
  then show ?case by (auto simp: rbind_def split: sum.splits if_splits)
next
  case (Suc k)
  then show ?case
    by (auto simp: rbind_def split: sum.splits if_splits prod.splits)
qed

lemma replace_list_field_eq:
  assumes p: "rlp_parse input = Inr payload" and i: "i < 2 ^ 64"
  shows "replace_list_field input i r =
    rbind (split_field i i payload) (\<lambda>(pre, item, suf).
      Inr (write_header (length pre + length suf + bytes_encoded_len r) 0xc0 @ pre @ rlp_write_bytes r @ suf))"
proof -
  obtain h tot where h: "parse_header input = Inr h" "ih_kind h = KList" "ih_total_len h = Inr tot" "tot = length input"
    "payload = drop (ih_header_len h) (take tot input)"
    using p by (auto simp: rlp_parse_def rbind_def not_less split: sum.splits if_splits)
  have "replace_list_field input i r =
      rbind (locate_field payload i 0 0) (\<lambda>(item_start, item_end).
        Inr (write_header (length payload - (item_end - item_start) + bytes_encoded_len r) 0xc0 @ take item_start payload @
             rlp_write_bytes r @ drop item_end payload))"
    using h by (simp add: replace_list_field_def Let_def)
  also have "locate_field payload i 0 0 = rbind (split_field i i payload) (\<lambda>(pre, item, suf).
      Inr (length pre, length pre + length item))"
    using locate_field_split [of 0 payload 0 i i] i by simp
  also have "rbind \<dots> (\<lambda>(item_start, item_end).
        Inr (write_header (length payload - (item_end - item_start) + bytes_encoded_len r) 0xc0 @ take item_start payload @
             rlp_write_bytes r @ drop item_end payload)) =
      rbind (split_field i i payload) (\<lambda>(pre, item, suf).
      Inr (write_header (length pre + length suf + bytes_encoded_len r) 0xc0 @ pre @ rlp_write_bytes r @ suf))"
    by (cases "split_field i i payload") (auto dest!: split_field_append)
  finally show ?thesis .
qed

lemma replace_list_field_not_list:
  "rlp_parse input = Inl e \<Longrightarrow> replace_list_field input i r = Inl e"
  by (auto simp: rlp_parse_def replace_list_field_def rbind_def split: sum.splits if_splits)

lemma parse_header_take:
  assumes p: "parse_header rest = Inr h" and t: "ih_total_len h = Inr n" and fit: "n \<le> length rest"
  shows "parse_header (take n rest @ ys) = Inr h"
  using parse_header_canon [OF p]
proof
  assume "short_single rest h"
  then show ?thesis using t by (auto simp: short_single_def ih_total_len_def parse_header_def word_less_nat_alt word_le_nat_alt)
next
  assume c: "canon_header rest h"
  define body where "body = drop (ih_header_len h) rest"
  have rest: "rest = write_header (ih_payload_len h) (kind_base (ih_kind h)) @ body" and hl: "ih_header_len h = rlp_header_len (ih_payload_len h)"
    and pl: "ih_payload_len h < 2 ^ 64"
    and single: "ih_kind h = KBytes \<Longrightarrow> ih_payload_len h = 1 \<Longrightarrow> body \<noteq> [] \<Longrightarrow> 0x80 \<le> hd body"
    using c unfolding canon_header_def body_def by blast+
  have n: "n = rlp_header_len (ih_payload_len h) + ih_payload_len h" using t hl by (auto simp: ih_total_len_def split: if_splits)
  have "take n rest = write_header (ih_payload_len h) (kind_base (ih_kind h)) @ take (ih_payload_len h) body"
    unfolding n by (subst rest) (simp add: length_write_header [OF pl])
  moreover have "length body = length rest - rlp_header_len (ih_payload_len h)" by (simp add: body_def hl)
  then have "0x80 \<le> hd (take (ih_payload_len h) body @ ys)" if "ih_kind h = KBytes" "ih_payload_len h = 1"
    using single [OF that] fit by (cases body) (auto simp: n that(2))
  ultimately have "parse_header (take n rest @ ys) =
      Inr \<lparr>ih_kind = ih_kind h, ih_header_len = rlp_header_len (ih_payload_len h), ih_payload_len = ih_payload_len h\<rparr>"
    using parse_header_write [OF pl, of "ih_kind h" "take (ih_payload_len h) body @ ys"] by simp
  then show ?thesis using hl by simp
qed

lemma split_field_replace:
  assumes "split_field i k rest = Inr (pre, item, suf)" "length (rlp_write_bytes r) < 2 ^ 64"
  shows "split_field i k (pre @ rlp_write_bytes r @ suf') = Inr (pre, rlp_write_bytes r, suf')"
  using assms(1)
proof (induction k arbitrary: rest pre)
  case 0
  then have "pre = []" by (auto simp: rbind_def split: sum.splits if_splits)
  then show ?case using parse_header_write_bytes [OF assms(2), of suf'] rlp_write_bytes_nonempty [of r] by auto
next
  case (Suc k)
  then obtain h n pre' where h: "rest \<noteq> []" "parse_header rest = Inr h" "ih_total_len h = Inr n" "n \<le> length rest"
    "split_field i k (drop n rest) = Inr (pre', item, suf)" "pre = take n rest @ pre'"
    by (auto simp: rbind_def not_less split: sum.splits if_splits prod.splits)
  have "0 < n" using parse_header_total [OF h(2)] h(3) by (auto simp: ih_total_len_def split: if_splits)
  moreover have "parse_header (take n rest @ pre' @ rlp_write_bytes r @ suf') = Inr h"
    using parse_header_take [OF h(2-4)] .
  ultimately show ?case using h(1,3,4,6) Suc.IH [OF h(5)] by simp
qed

lemma split_field_fields:
  assumes "length (concat (map rlp_write_bytes xs)) < 2 ^ 64"
  shows "split_field i k (concat (map rlp_write_bytes xs)) =
    (if k < length xs
     then Inr (concat (map rlp_write_bytes (take k xs)), rlp_write_bytes (xs ! k), concat (map rlp_write_bytes (drop (Suc k) xs)))
     else Inl (IndexOutOfRange i))"
  using assms
proof (induction k arbitrary: xs)
  case 0
  then show ?case using parse_header_write_bytes [of "hd xs" "concat (map rlp_write_bytes (tl xs))"]
    by (cases xs) (auto simp: rlp_write_bytes_nonempty)
next
  case (Suc k)
  show ?case
  proof (cases xs)
    case (Cons x ys)
    then obtain h where h: "parse_header (rlp_write_bytes x @ concat (map rlp_write_bytes ys)) = Inr h"
      "ih_total_len h = Inr (length (rlp_write_bytes x))"
      using parse_header_write_bytes [of x "concat (map rlp_write_bytes ys)"] Suc.prems by auto
    have "split_field i k (concat (map rlp_write_bytes ys)) = (if k < length ys
     then Inr (concat (map rlp_write_bytes (take k ys)), rlp_write_bytes (ys ! k), concat (map rlp_write_bytes (drop (Suc k) ys)))
     else Inl (IndexOutOfRange i))" by (rule Suc.IH) (use Suc.prems Cons in simp)
    then show ?thesis using h Cons by (simp add: rlp_write_bytes_nonempty)
  qed simp
qed

lemma replace_field_encode:
  assumes "length (encode_list (map RlpBytes xs)) < 2 ^ 64" "i < 2 ^ 64"
    "i < length xs \<Longrightarrow> length (encode_list (map RlpBytes (xs[i := r]))) < 2 ^ 64"
  shows "replace_list_field (encode_list (map RlpBytes xs)) i r =
    (if i < length xs then Inr (encode_list (map RlpBytes (xs[i := r]))) else Inl (IndexOutOfRange i))"
proof -
  let ?p = "concat (map rlp_write_bytes xs)"
  have m: "map write_into (map RlpBytes ys) = map rlp_write_bytes ys" for ys by simp
  have p: "length ?p < 2 ^ 64" using encode_list_bound [OF assms(1)] unfolding m .
  have "encode_list (map RlpBytes xs) = write_header (length ?p) 0xc0 @ ?p"
    using encode_list_eq [of "map RlpBytes xs"] p unfolding m by blast
  then have "rlp_parse (encode_list (map RlpBytes xs)) = Inr ?p" using rlp_parse_iff [OF assms(1)] by simp
  note eq = replace_list_field_eq [OF this assms(2)]
  show ?thesis
  proof (cases "i < length xs")
    case True
    let ?q = "concat (map rlp_write_bytes (xs[i := r]))"
    have q: "length ?q < 2 ^ 64" using encode_list_bound [OF assms(3) [OF True]] unfolding m .
    have q_eq: "?q = concat (map rlp_write_bytes (take i xs)) @ rlp_write_bytes r @ concat (map rlp_write_bytes (drop (Suc i) xs))"
      using True by (simp add: upd_conv_take_nth_drop)
    have "length r \<le> length (rlp_write_bytes r)" by (simp add: rlp_write_bytes_def)
    then have "bytes_encoded_len r = length (rlp_write_bytes r)"
      using q by (simp add: q_eq length_rlp_write_bytes)
    then have "length (concat (map rlp_write_bytes (take i xs))) + length (concat (map rlp_write_bytes (drop (Suc i) xs))) +
        bytes_encoded_len r = length ?q" by (simp add: q_eq)
    moreover have "encode_list (map RlpBytes (xs[i := r])) = write_header (length ?q) 0xc0 @ ?q"
      using encode_list_eq [of "map RlpBytes (xs[i := r])"] q unfolding m by blast
    ultimately show ?thesis using True unfolding eq split_field_fields [OF p] by (simp add: q_eq add.commute add.left_commute)
  next
    case False
    then show ?thesis unfolding eq split_field_fields [OF p] by simp
  qed
qed

lemma replace_replace_field:
  assumes r: "replace_list_field input i r = Inr out" and i: "i < 2 ^ 64" and len: "length out < 2 ^ 64" "length input < 2 ^ 64"
  shows "replace_list_field out i r' = replace_list_field input i r'"
proof -
  obtain payload where p: "rlp_parse input = Inr payload"
    using r replace_list_field_not_list by (cases "rlp_parse input") auto
  note eq = replace_list_field_eq [OF p i]
  obtain pre item suf where s: "split_field i i payload = Inr (pre, item, suf)"
    and out: "out = write_header (length pre + length suf + bytes_encoded_len r) 0xc0 @ pre @ rlp_write_bytes r @ suf"
    using r unfolding eq by (cases "split_field i i payload") auto
  have rl: "length (rlp_write_bytes r) < 2 ^ 64" using len by (simp add: out)
  moreover have "length r \<le> length (rlp_write_bytes r)" by (simp add: rlp_write_bytes_def)
  ultimately have "bytes_encoded_len r = length (rlp_write_bytes r)" by (simp add: length_rlp_write_bytes)
  then have "out = write_header (length (pre @ rlp_write_bytes r @ suf)) 0xc0 @ pre @ rlp_write_bytes r @ suf"
    by (simp add: out add.commute add.left_commute)
  then have "rlp_parse out = Inr (pre @ rlp_write_bytes r @ suf)" using rlp_parse_iff [OF len(1)] by blast
  from replace_list_field_eq [OF this i] show ?thesis
    unfolding eq by (simp add: s split_field_replace [OF s rl])
qed

lemma replace_list_field_length:
  assumes "replace_list_field input i r = Inr out" "i < 2 ^ 64" "length input + length r + 20 < 2 ^ 64"
  shows "length out < 2 ^ 64"
proof -
  obtain payload where p: "rlp_parse input = Inr payload"
    using assms(1) replace_list_field_not_list by (cases "rlp_parse input") auto
  then have le: "length payload \<le> length input" by (auto simp: rlp_parse_def rbind_def split: sum.splits if_splits)
  note eq = replace_list_field_eq [OF p assms(2)]
  obtain pre item suf where s: "split_field i i payload = Inr (pre, item, suf)"
    and out: "out = write_header (length pre + length suf + bytes_encoded_len r) 0xc0 @ pre @ rlp_write_bytes r @ suf"
    using assms(1) unfolding eq by (cases "split_field i i payload") auto
  have hl: "rlp_header_len n \<le> 9" if "n < 2 ^ 64" for n
    using that minimal_be_len_le [OF that] by (simp add: rlp_header_len_def)
  have rl: "length (rlp_write_bytes r) = bytes_encoded_len r" using assms(3) by (simp add: length_rlp_write_bytes)
  have b: "bytes_encoded_len r \<le> length r + 9" using hl [of "length r"] assms(3) by (simp add: bytes_encoded_len_def)
  have ps: "length pre + length suf \<le> length input" using split_field_append [OF s] le by simp
  have "length pre + length suf + bytes_encoded_len r < 2 ^ 64" using ps b assms(3) by simp
  then show ?thesis using hl [of "length pre + length suf + bytes_encoded_len r"] b assms(3) ps
    by (simp add: out length_write_header rl)
qed

end
