(* ===== verification/Hashing.thy ===== *)
theory Hashing
  imports Rlp Byte_Readers Iterators Trie_Spec
begin

section \<open>Hashing of nodes\<close>

text \<open>
  The two hashing schemes, \<open>MerkleDbHash\<close> and \<open>EthHash\<close> (\<open>storage/src/hashers/\<close>), the data they hash
  (\<open>hashednode.rs\<close>, \<open>hashedshunt.rs\<close>), and the recursive hashing of a changed trie with the splice of
  storage roots into Ethereum accounts (\<open>nodestore/hash.rs\<close>).

  The digests of the crates \<open>sha2\<close> and \<open>sha3\<close> and the varint encoder of \<open>integer-encoding\<close> are the fields
  of a record of functions that every definition takes. A \<open>usize\<close> count of nibbles is a natural number;
  the length of a key in bits is taken modulo \<open>2 ^ 64\<close>, as the multiplication of the source computes it.
\<close>

subsection \<open>What is hashed\<close>

record hash_fns =
  hf_sha256 :: "u8 list \<Rightarrow> trie_hash"
  hf_keccak256 :: "u8 list \<Rightarrow> trie_hash"
  hf_encode_var :: "nat \<Rightarrow> u8 list"

datatype value_digest = VdValue "u8 list" | VdHash hash_type

fun vd_verify :: "hash_fns \<Rightarrow> value_digest \<Rightarrow> u8 list \<Rightarrow> bool" where
  "vd_verify hf (VdValue got_value) expected = (got_value = expected)"
| "vd_verify hf (VdHash got_hash) expected = HashType_eq_TrieHash (hf_keccak256 hf) got_hash (hf_sha256 hf expected)"

fun vd_value :: "value_digest \<Rightarrow> u8 list option" where
  "vd_value (VdValue v) = Some v"
| "vd_value (VdHash _) = None"

fun make_hash :: "hash_fns \<Rightarrow> node_hash_algorithm \<Rightarrow> value_digest \<Rightarrow> value_digest" where
  "make_hash hf algorithm (VdValue v) =
     (if length v \<ge> 32 \<and> \<not> is_ethereum algorithm then VdHash (Hash (hf_sha256 hf v)) else VdValue v)"
| "make_hash hf algorithm (VdHash h) = VdHash h"

fun vd_map :: "(u8 list \<Rightarrow> u8 list) \<Rightarrow> value_digest \<Rightarrow> value_digest" where
  "vd_map f (VdValue v) = VdValue (f v)"
| "vd_map f (VdHash h) = VdHash h"

fun vd_as_ref :: "value_digest \<Rightarrow> u8 list" where
  "vd_as_ref (VdValue v) = v"
| "vd_as_ref (VdHash h) = HashType_as_ref h"

record hashable_shunt =
  sh_parent_prefix :: "pc list"
  sh_partial_path :: "pc list"
  sh_value :: "value_digest option"
  sh_child_hashes :: "hash_type option children"

definition shunt_new :: "pc list \<Rightarrow> pc list \<Rightarrow> value_digest option \<Rightarrow> hash_type option children \<Rightarrow> hashable_shunt" where
  "shunt_new parent_prefix ppath v child_hashes =
     \<lparr>sh_parent_prefix = parent_prefix, sh_partial_path = ppath, sh_value = v, sh_child_hashes = child_hashes\<rparr>"

definition sh_full_path :: "hashable_shunt \<Rightarrow> pc list" where
  "sh_full_path n = sh_parent_prefix n @ sh_partial_path n"

fun from_node :: "pc list \<Rightarrow> node \<Rightarrow> hashable_shunt io_result" where
  "from_node pfx (Branch p v cs) =
     rbind (as_components p) (\<lambda>ppath. Inr (shunt_new pfx ppath (map_option VdValue v) (children_hashes cs)))"
| "from_node pfx (Leaf p v) =
     rbind (as_components p) (\<lambda>ppath. Inr (shunt_new pfx ppath (Some (VdValue v)) children_new))"

subsection \<open>The MerkleDB scheme\<close>

definition add_len_and_value_to_buf :: "u8 list \<Rightarrow> u8 list" where
  "add_len_and_value_to_buf v = word_of_nat (length v) # v"

fun add_value_digest_to_buf :: "hash_fns \<Rightarrow> value_digest option \<Rightarrow> u8 list" where
  "add_value_digest_to_buf hf None = [0]"
| "add_value_digest_to_buf hf (Some vd) = 1 # add_len_and_value_to_buf (vd_as_ref (make_hash hf MerkleDB vd))"

definition BITS_PER_NIBBLE :: nat where
  "BITS_PER_NIBBLE = 4"

definition merkledb_write_preimage :: "hash_fns \<Rightarrow> hashable_shunt \<Rightarrow> u8 list" where
  "merkledb_write_preimage hf n =
     (let children = sh_child_hashes n;
          key = sh_full_path n;
          key_bit_len = BITS_PER_NIBBLE * length key mod 2 ^ 64
      in hf_encode_var hf (children_count children) @
         concat (map (\<lambda>(index, hash). case hash of
                        Some hash \<Rightarrow> hf_encode_var hf (unat index) @ HashType_as_ref hash
                      | None \<Rightarrow> []) (children_iter children)) @
         add_value_digest_to_buf hf (sh_value n) @
         hf_encode_var hf key_bit_len @
         pack key)"

definition merkledb_to_hash :: "hash_fns \<Rightarrow> hashable_shunt \<Rightarrow> hash_type" where
  "merkledb_to_hash hf n = Hash (hf_sha256 hf (merkledb_write_preimage hf n))"

subsection \<open>The Ethereum scheme\<close>

definition child_to_rlp_item :: "hash_type option \<Rightarrow> rlp_item" where
  "child_to_rlp_item child =
     (case child of
        Some (Hash hash) \<Rightarrow> RlpBytes hash
      | Some (Rlp rlp_bytes) \<Rightarrow> RlpRaw rlp_bytes
      | None \<Rightarrow> RlpEmpty)"

definition ok_option :: "'e + 'a \<Rightarrow> 'a option" where
  "ok_option r = (case r of Inl _ \<Rightarrow> None | Inr x \<Rightarrow> Some x)"

definition eth_leaf_preimage :: "bool \<Rightarrow> hashable_shunt \<Rightarrow> u8 list" where
  "eth_leaf_preimage is_account n =
     (let path = nibbles_to_eth_compact (sh_partial_path n) True;
          value_bytes = Option.bind (sh_value n) (\<lambda>vd. case vd of VdValue bytes \<Rightarrow> Some bytes | VdHash _ \<Rightarrow> None);
          account_value = (if is_account
                           then Option.bind value_bytes (\<lambda>bytes. ok_option (replace_list_field bytes 2 EMPTY_TRIE_ROOT))
                           else None);
          value_item = (case (account_value, value_bytes) of
                          (Some updated, _) \<Rightarrow> RlpBytes updated
                        | (None, Some bytes) \<Rightarrow> RlpBytes bytes
                        | (None, None) \<Rightarrow> RlpEmpty)
      in encode_list [RlpBytes path, value_item])"

definition eth_branch_items :: "bool \<Rightarrow> hashable_shunt \<Rightarrow> rlp_item list" where
  "eth_branch_items is_account n =
     map (\<lambda>(_, child). child_to_rlp_item child) (children_iter (sh_child_hashes n)) @
     [if is_account then RlpEmpty
      else case sh_value n of Some (VdValue digest) \<Rightarrow> RlpBytes digest | _ \<Rightarrow> RlpEmpty]"

definition eth_updated_bytes :: "hash_fns \<Rightarrow> bool \<Rightarrow> hashable_shunt \<Rightarrow> u8 list \<Rightarrow> u8 list" where
  "eth_updated_bytes hf is_account n bytes =
     (if is_account then
        (case sh_value n of
           Some (VdValue rlp_encoded_bytes) \<Rightarrow>
             (let replacement_hash =
                    (if children_count (sh_child_hashes n) = 1
                     then into_triehash (hf_keccak256 hf) (snd (hd (iter_present (sh_child_hashes n))))
                     else hf_keccak256 hf bytes)
              in case replace_list_field rlp_encoded_bytes 2 replacement_hash of
                   Inr updated \<Rightarrow> updated
                 | Inl _ \<Rightarrow> rlp_encoded_bytes)
         | _ \<Rightarrow> bytes)
      else bytes)"

definition eth_write_preimage :: "hash_fns \<Rightarrow> hashable_shunt \<Rightarrow> u8 list" where
  "eth_write_preimage hf n =
     (let is_account = (length (sh_full_path n) = 64)
      in if children_count (sh_child_hashes n) = 0 then eth_leaf_preimage is_account n
         else
           let bytes = encode_list (eth_branch_items is_account n);
               updated_bytes = eth_updated_bytes hf is_account n bytes
           in if sh_partial_path n = [] then updated_bytes
              else
                let path = nibbles_to_eth_compact (sh_partial_path n) is_account
                in if length updated_bytes > 31 \<and> \<not> is_account
                   then encode_list [RlpBytes path, RlpBytes (hf_keccak256 hf updated_bytes)]
                   else encode_list [RlpBytes path, RlpBytes updated_bytes])"

definition eth_to_hash :: "hash_fns \<Rightarrow> hashable_shunt \<Rightarrow> hash_type" where
  "eth_to_hash hf n =
     (let collector = eth_write_preimage hf n
      in if length collector \<ge> 32 then Hash (hf_keccak256 hf collector) else Rlp collector)"

subsection \<open>The scheme of a database\<close>

fun default_root_hash :: "node_hash_algorithm \<Rightarrow> trie_hash option" where
  "default_root_hash MerkleDB = None"
| "default_root_hash Ethereum = Some EMPTY_TRIE_ROOT"

fun is_valid_key :: "node_hash_algorithm \<Rightarrow> path \<Rightarrow> bool" where
  "is_valid_key MerkleDB key = (length key mod 2 = 0)"
| "is_valid_key Ethereum key = (length key = 64 \<or> length key = 128)"

fun to_hash :: "hash_fns \<Rightarrow> node_hash_algorithm \<Rightarrow> hashable_shunt \<Rightarrow> hash_type" where
  "to_hash hf MerkleDB n = merkledb_to_hash hf n"
| "to_hash hf Ethereum n = eth_to_hash hf n"

fun write_preimage :: "hash_fns \<Rightarrow> node_hash_algorithm \<Rightarrow> hashable_shunt \<Rightarrow> u8 list" where
  "write_preimage hf MerkleDB n = merkledb_write_preimage hf n"
| "write_preimage hf Ethereum n = eth_write_preimage hf n"

definition hash_node :: "hash_fns \<Rightarrow> node_hash_algorithm \<Rightarrow> node \<Rightarrow> path \<Rightarrow> hash_type io_result" where
  "hash_node hf alg node path_prefix =
     rbind (as_components path_prefix) (\<lambda>pfx.
     rbind (from_node pfx node) (\<lambda>shunt. Inr (to_hash hf alg shunt)))"

definition hash_preimage :: "hash_fns \<Rightarrow> node_hash_algorithm \<Rightarrow> node \<Rightarrow> path \<Rightarrow> u8 list io_result" where
  "hash_preimage hf alg node path_prefix =
     rbind (as_components path_prefix) (\<lambda>pfx.
     rbind (from_node pfx node) (\<lambda>shunt. Inr (write_preimage hf alg shunt)))"

subsection \<open>Storage tries of accounts\<close>

definition compute_storage_trie_root :: "hash_fns \<Rightarrow> hash_type option children \<Rightarrow> trie_hash" where
  "compute_storage_trie_root hf child_hashes =
     (if children_count child_hashes = 0 then EMPTY_TRIE_ROOT
      else case fst (take_only_child child_hashes) of
             Some (_, child) \<Rightarrow> into_triehash (hf_keccak256 hf) child
           | None \<Rightarrow>
               hf_keccak256 hf (encode_list
                 (map (\<lambda>(_, child). child_to_rlp_item child) (children_iter child_hashes) @ [RlpEmpty])))"

definition fix_account_storage_root_value :: "hash_fns \<Rightarrow> u8 list \<Rightarrow> hash_type option children \<Rightarrow> u8 list option" where
  "fix_account_storage_root_value hf v child_hashes =
     ok_option (replace_list_field v 2 (compute_storage_trie_root hf child_hashes))"

fun update_account_storage_root :: "hash_fns \<Rightarrow> node \<Rightarrow> path \<Rightarrow> node" where
  "update_account_storage_root hf (Branch p v cs) path_prefix =
     (if length path_prefix + length p \<noteq> 64 then Branch p v cs
      else case v of
             None \<Rightarrow> Branch p v cs
           | Some old_value \<Rightarrow>
               (case fix_account_storage_root_value hf old_value (children_hashes cs) of
                  Some new_value \<Rightarrow> Branch p (Some new_value) cs
                | None \<Rightarrow> Branch p v cs))"
| "update_account_storage_root hf (Leaf p v) path_prefix =
     (if length path_prefix + length p \<noteq> 64 then Leaf p v
      else case fix_account_storage_root_value hf v children_new of
             Some new_value \<Rightarrow> Leaf p new_value
           | None \<Rightarrow> Leaf p v)"

definition hash_node_as_storage_trie_root_parts ::
  "hash_fns \<Rightarrow> node_hash_algorithm \<Rightarrow> pc list \<Rightarrow> pc \<Rightarrow> pc list \<Rightarrow> value_digest option \<Rightarrow>
   hash_type option children \<Rightarrow> hash_type" where
  "hash_node_as_storage_trie_root_parts hf alg account_full_prefix branch_nibble ppath vd children =
     to_hash hf alg (shunt_new account_full_prefix (branch_nibble # ppath) vd children)"

fun hash_node_as_storage_trie_root_for_node ::
  "hash_fns \<Rightarrow> node_hash_algorithm \<Rightarrow> pc list \<Rightarrow> pc \<Rightarrow> node \<Rightarrow> hash_type io_result" where
  "hash_node_as_storage_trie_root_for_node hf alg account_full_prefix branch_nibble (Branch p v cs) =
     rbind (as_components p) (\<lambda>ppath.
     Inr (hash_node_as_storage_trie_root_parts hf alg account_full_prefix branch_nibble ppath
            (map_option VdValue v) (children_hashes cs)))"
| "hash_node_as_storage_trie_root_for_node hf alg account_full_prefix branch_nibble (Leaf p v) =
     rbind (as_components p) (\<lambda>ppath.
     Inr (hash_node_as_storage_trie_root_parts hf alg account_full_prefix branch_nibble ppath
            (Some (VdValue v)) children_new))"

definition compute_node_ethhash ::
  "hash_fns \<Rightarrow> node_hash_algorithm \<Rightarrow> node \<Rightarrow> path \<Rightarrow> bool \<Rightarrow> hash_type io_result" where
  "compute_node_ethhash hf alg node path_prefix have_peers =
     rbind (as_components path_prefix) (\<lambda>components.
     if is_ethereum alg \<and> length components = 65 \<and> \<not> have_peers
     then hash_node_as_storage_trie_root_for_node hf alg (butlast components) (last components) node
     else hash_node hf alg node path_prefix)"

subsection \<open>Hashing a changed trie\<close>

record classified_children =
  cc_unhashed :: "pc list"
  cc_hashed :: "(pc \<times> maybe_persisted) list"

definition ethhash_classify_children :: "child option children \<Rightarrow> classified_children" where
  "ethhash_classify_children children =
     fold (\<lambda>(idx, child) acc.
             case child of
               None \<Rightarrow> acc
             | Some (AddressWithHash a h) \<Rightarrow> acc\<lparr>cc_hashed := cc_hashed acc @ [(idx, Persisted a)]\<rparr>
             | Some (ChildNode _) \<Rightarrow> acc\<lparr>cc_unhashed := cc_unhashed acc @ [idx]\<rparr>
             | Some (ChildMaybePersisted m h) \<Rightarrow> acc\<lparr>cc_hashed := cc_hashed acc @ [(idx, m)]\<rparr>)
       (children_iter children) \<lparr>cc_unhashed = [], cc_hashed = []\<rparr>"

fun set_child_hash :: "child \<Rightarrow> hash_type \<Rightarrow> child" where
  "set_child_hash (AddressWithHash a _) h = AddressWithHash a h"
| "set_child_hash (ChildMaybePersisted m _) h = ChildMaybePersisted m h"
| "set_child_hash (ChildNode n) _ = ChildNode n"

text \<open>
  The special case for the branch of an Ethereum account: the hash of an only hashed child is computed
  again, as that of a storage root or not; the only child, when it is not hashed, is returned.
\<close>

definition account_children ::
  "hash_fns \<Rightarrow> node_hash_algorithm \<Rightarrow> reader \<Rightarrow> path \<Rightarrow> path \<Rightarrow> child option children \<Rightarrow>
   (pc option \<times> child option children) io_result" where
  "account_children hf alg rd path_prefix p children =
     (if is_ethereum alg \<and> length path_prefix + length p = 64 then
        let cc = ethhash_classify_children children
        in rbind
             (case cc_hashed cc of
                [(child_idx, child_node)] \<Rightarrow>
                  rbind (as_shared_node child_node rd) (\<lambda>shared.
                  rbind
                    (if cc_unhashed cc = []
                     then rbind (as_components (path_prefix @ p)) (\<lambda>components.
                          hash_node_as_storage_trie_root_for_node hf alg components child_idx shared)
                     else hash_node hf alg shared (path_prefix @ p @ [as_u8 child_idx])) (\<lambda>hash.
                  Inr (children(child_idx := map_option (\<lambda>c. set_child_hash c hash) (children child_idx)))))
              | _ \<Rightarrow> Inr children) (\<lambda>children'.
           Inr (if cc_hashed cc = [] \<and> length (cc_unhashed cc) = 1 then Some (last (cc_unhashed cc)) else None,
                children'))
      else Inr (None, children))"

text \<open>The loop over the children that are not hashed yet.\<close>

fun hash_children_loop ::
  "(pc \<Rightarrow> (path \<Rightarrow> pc option \<Rightarrow> (maybe_persisted \<times> hash_type) io_result) option) \<Rightarrow> node_hash_algorithm \<Rightarrow>
   path \<Rightarrow> pc option \<Rightarrow> pc list \<Rightarrow> child option children \<Rightarrow> child option children io_result" where
  "hash_children_loop hashers alg child_prefix make_fake_root [] children = Inr children"
| "hash_children_loop hashers alg child_prefix make_fake_root (nibble # ns) children =
     (case hashers nibble of
        None \<Rightarrow> hash_children_loop hashers alg child_prefix make_fake_root ns children
      | Some hasher \<Rightarrow>
          rbind (hasher (if is_ethereum alg \<and> make_fake_root \<noteq> None then child_prefix
                         else child_prefix @ [as_u8 nibble]) make_fake_root) (\<lambda>(child_node, child_hash).
          hash_children_loop hashers alg child_prefix make_fake_root ns
            (children(nibble := Some (ChildMaybePersisted child_node child_hash)))))"

definition hash_updated_node ::
  "hash_fns \<Rightarrow> node_hash_algorithm \<Rightarrow> node \<Rightarrow> path \<Rightarrow> pc option \<Rightarrow> (maybe_persisted \<times> hash_type) io_result" where
  "hash_updated_node hf alg node path_prefix fake_root_extra_nibble =
     (let node' = (if is_ethereum alg then update_account_storage_root hf node path_prefix else node)
      in rbind
           (case fake_root_extra_nibble of
              Some nibble \<Rightarrow>
                if is_ethereum alg
                then rbind (as_components path_prefix) (\<lambda>components.
                     hash_node_as_storage_trie_root_for_node hf alg components nibble node')
                else hash_node hf alg node' path_prefix
            | None \<Rightarrow> hash_node hf alg node' path_prefix) (\<lambda>hash.
         Inr (Unpersisted node', hash)))"

primrec hash_helper_inner ::
  "hash_fns \<Rightarrow> node_hash_algorithm \<Rightarrow> reader \<Rightarrow> node \<Rightarrow> path \<Rightarrow> pc option \<Rightarrow> (maybe_persisted \<times> hash_type) io_result"
and hash_child ::
  "hash_fns \<Rightarrow> node_hash_algorithm \<Rightarrow> reader \<Rightarrow> child \<Rightarrow>
   (path \<Rightarrow> pc option \<Rightarrow> (maybe_persisted \<times> hash_type) io_result) option" where
  "hash_helper_inner hf alg rd (Branch p v cs) =
     (\<lambda>path_prefix fake_root_extra_nibble.
        rbind (account_children hf alg rd path_prefix p cs) (\<lambda>(make_fake_root, cs').
        rbind (hash_children_loop (\<lambda>i. Option.bind ((map_option (hash_child hf alg rd) \<circ> cs) i) id) alg
                 (path_prefix @ p) make_fake_root pc_ALL cs') (\<lambda>cs''.
        hash_updated_node hf alg (Branch p v cs'') path_prefix fake_root_extra_nibble)))"
| "hash_helper_inner hf alg rd (Leaf p v) =
     (\<lambda>path_prefix fake_root_extra_nibble. hash_updated_node hf alg (Leaf p v) path_prefix fake_root_extra_nibble)"
| "hash_child hf alg rd (ChildNode n) = Some (hash_helper_inner hf alg rd n)"
| "hash_child hf alg rd (AddressWithHash a h) = None"
| "hash_child hf alg rd (ChildMaybePersisted m h) = None"

definition hash_helper ::
  "hash_fns \<Rightarrow> node_hash_algorithm \<Rightarrow> reader \<Rightarrow> node \<Rightarrow> path \<Rightarrow> (maybe_persisted \<times> hash_type) io_result" where
  "hash_helper hf alg rd node root_path = hash_helper_inner hf alg rd node root_path None"

end
