(* ===== verification/Hash_Laws.thy ===== *)
theory Hash_Laws
  imports Hashing Batch Codec_Properties
begin

section \<open>The hash of a trie\<close>

text \<open>
  The reference for the MerkleDB scheme: the hash of a trie, computed from the root down with nothing
  stored. The lemmas show that \<open>hash_helper\<close>, which skips every subtrie whose hash its parent holds,
  computes it, that every update of the trie keeps the stored hashes right, and that the pre-image of a
  node determines the node.
\<close>

subsection \<open>Path components\<close>

definition comps :: "path \<Rightarrow> pc list" where
  "comps p = map ucast p"

lemma as_components_comps: "valid_path p \<Longrightarrow> as_components p = Inr (comps p)"
proof -
  assume "valid_path p"
  then obtain cs where "p = map as_u8 cs" using valid_path_iff_map by blast
  then show ?thesis by (simp add: comps_def comp_def)
qed

lemma comps_append [simp]: "comps (p @ q) = comps p @ comps q"
  by (simp add: comps_def)

lemma comps_as_u8 [simp]: "comps [as_u8 c] = [c]" "comps [] = []"
  by (simp_all add: comps_def)

lemma comps_inject: "valid_path p \<Longrightarrow> valid_path q \<Longrightarrow> comps p = comps q \<Longrightarrow> p = q"
  using as_components_comps [of p] as_components_comps [of q]
  by (auto simp: valid_path_iff_map comps_def comp_def)

lemma length_comps [simp]: "length (comps p) = length p"
  by (simp add: comps_def)

subsection \<open>The reference\<close>

primrec merkledb_trie_hash :: "hash_fns \<Rightarrow> trie \<Rightarrow> path \<Rightarrow> hash_type" where
  "merkledb_trie_hash hf (TLeaf p v) =
     (\<lambda>pfx. merkledb_to_hash hf (shunt_new (comps pfx) (comps p) (Some (VdValue v)) children_new))"
| "merkledb_trie_hash hf (TBranch p v ts) =
     (\<lambda>pfx. merkledb_to_hash hf (shunt_new (comps pfx) (comps p) (map_option VdValue v)
        (\<lambda>c. map_option (\<lambda>f. f (pfx @ p @ [as_u8 c])) ((map_option (merkledb_trie_hash hf) \<circ> ts) c))))"

lemma merkledb_trie_hash_TBranch:
  "merkledb_trie_hash hf (TBranch p v ts) pfx =
     merkledb_to_hash hf (shunt_new (comps pfx) (comps p) (map_option VdValue v)
       (\<lambda>c. map_option (\<lambda>t. merkledb_trie_hash hf t (pfx @ p @ [as_u8 c])) (ts c)))"
  by (simp add: option.map_comp comp_def)

declare merkledb_trie_hash.simps(2) [simp del]

text \<open>
  \<open>hashes_ok hf rd pfx n\<close>: every hash that is stored in the node \<open>n\<close> at the path \<open>pfx\<close>, or below it, is
  that of the trie of the child it is stored for.
\<close>

inductive hashes_ok :: "hash_fns \<Rightarrow> reader \<Rightarrow> path \<Rightarrow> node \<Rightarrow> bool" for hf rd where
  hashes_ok_Leaf: "hashes_ok hf rd pfx (Leaf p v)"
| hashes_ok_Branch:
    "(\<And>c ch. cs c = Some ch \<Longrightarrow> \<exists>m. child_as_shared_node ch rd = Inr m \<and> hashes_ok hf rd (pfx @ p @ [as_u8 c]) m \<and>
        (\<forall>h. child_hash ch = Some h \<longrightarrow>
           (\<exists>t A. repr rd m t A \<and> h = merkledb_trie_hash hf t (pfx @ p @ [as_u8 c])))) \<Longrightarrow>
     hashes_ok hf rd pfx (Branch p v cs)"

inductive_cases hashes_ok_BranchE: "hashes_ok hf rd pfx (Branch p v cs)"

lemma repr_det: "repr rd n t A \<Longrightarrow> repr rd n t' A' \<Longrightarrow> t = t'"
proof (induction arbitrary: t' A' rule: repr.induct)
  case (repr_Branch cs ts As p v)
  from repr_Branch.prems obtain ts' As' where t': "t' = TBranch p v ts'"
    "\<forall>c. cs c = None \<longrightarrow> ts' c = None \<and> As' c = {#}"
    "\<forall>c ch. cs c = Some ch \<longrightarrow> (\<exists>n t A. child_as_shared_node ch rd = Inr n \<and> repr rd n t A \<and>
       ts' c = Some t \<and> As' c = child_hashed ch + A)"
    by (auto elim!: repr_BranchE)
  have "ts c = ts' c" for c
  proof (cases "cs c")
    case None then show ?thesis using repr_Branch.hyps(1) t'(2) by simp
  next
    case (Some ch)
    then obtain n t A where "child_as_shared_node ch rd = Inr n" "ts c = Some t"
      "\<And>t' A'. repr rd n t' A' \<Longrightarrow> t = t'" using repr_Branch(2) by blast
    moreover obtain n' u B where "child_as_shared_node ch rd = Inr n'" "repr rd n' u B" "ts' c = Some u"
      using t'(3) Some by blast
    ultimately show ?thesis by simp
  qed
  then show ?case using t'(1) by auto
qed auto

subsection \<open>Hashing a changed trie computes the reference\<close>

definition fully_hashed :: "node \<Rightarrow> bool" where
  "fully_hashed n \<longleftrightarrow> (case n of Leaf _ _ \<Rightarrow> True | Branch _ _ cs \<Rightarrow> \<forall>c ch. cs c = Some ch \<longrightarrow> child_hash ch \<noteq> None)"

lemma hash_children_loop_ok:
  assumes "distinct ns" "\<And>i f. i \<in> set ns \<Longrightarrow> hashers i = Some f \<Longrightarrow> f (cp @ [as_u8 i]) None = Inr (r i)"
  shows "hash_children_loop hashers MerkleDB cp None ns cs =
    Inr (\<lambda>i. if i \<in> set ns \<and> hashers i \<noteq> None then Some (ChildMaybePersisted (fst (r i)) (snd (r i))) else cs i)"
  using assms
proof (induction ns arbitrary: cs)
  case (Cons i ns)
  show ?case
  proof (cases "hashers i")
    case None
    then show ?thesis using Cons.IH [of cs] Cons.prems by (auto simp: fun_eq_iff)
  next
    case (Some f)
    let ?cs = "cs(i := Some (ChildMaybePersisted (fst (r i)) (snd (r i))))"
    have "f (cp @ [as_u8 i]) None = Inr (r i)" using Cons.prems(2) Some by simp
    then have "hash_children_loop hashers MerkleDB cp None (i # ns) cs = hash_children_loop hashers MerkleDB cp None ns ?cs"
      by (cases "r i") (simp add: Some)
    also have "\<dots> = Inr (\<lambda>i. if i \<in> set ns \<and> hashers i \<noteq> None then Some (ChildMaybePersisted (fst (r i)) (snd (r i))) else ?cs i)"
      by (rule Cons.IH) (use Cons.prems in auto)
    finally show ?thesis using Some Cons.prems(1) by (auto simp: fun_eq_iff)
  qed
qed simp

lemma hash_node_merkledb:
  assumes "valid_path pfx" "valid_path (partial_path n)"
  shows "hash_node hf MerkleDB n pfx = Inr (merkledb_to_hash hf
    (shunt_new (comps pfx) (comps (partial_path n)) (map_option VdValue (node_value n))
      (case n of Branch _ _ cs \<Rightarrow> children_hashes cs | Leaf _ _ \<Rightarrow> children_new)))"
  using assms by (cases n) (simp_all add: hash_node_def as_components_comps)

lemma hash_updated_node_merkledb:
  "hash_updated_node hf MerkleDB n pfx None = rbind (hash_node hf MerkleDB n pfx) (\<lambda>h. Inr (Unpersisted n, h))"
  by (simp add: hash_updated_node_def Let_def)

text \<open>What hashing gives: the reference hash, and an unpersisted node with the same trie and every hash in place.\<close>

definition hashing_ok :: "hash_fns \<Rightarrow> reader \<Rightarrow> path \<Rightarrow> trie \<Rightarrow> maybe_persisted \<times> hash_type \<Rightarrow> bool" where
  "hashing_ok hf rd pfx t r \<longleftrightarrow>
     (\<exists>n A. fst r = Unpersisted n \<and> snd r = merkledb_trie_hash hf t pfx \<and> repr rd n t A \<and>
        hashes_ok hf rd pfx n \<and> fully_hashed n)"

lemma hash_child_node: "Option.bind ((map_option (hash_child hf alg rd) \<circ> cs) c) id = Some f \<longleftrightarrow>
    (\<exists>m. cs c = Some (ChildNode m) \<and> f = hash_helper_inner hf alg rd m)"
proof (cases "cs c")
  case (Some ch) then show ?thesis by (cases ch) auto
qed simp

lemma hash_child_None: "Option.bind ((map_option (hash_child hf alg rd) \<circ> cs) c) id = None \<longleftrightarrow>
    (\<forall>m. cs c \<noteq> Some (ChildNode m))"
proof (cases "cs c")
  case (Some ch) then show ?thesis by (cases ch) auto
qed simp

lemma hashed_branch:
  fixes cs' :: "child option children"
  assumes none: "\<And>c. cs' c = None \<longleftrightarrow> ts c = None" and valid: "valid_path pfx" "valid_path p"
    and child: "\<And>c ch. cs' c = Some ch \<Longrightarrow> \<exists>m t A. child_as_shared_node ch rd = Inr m \<and> repr rd m t A \<and> ts c = Some t \<and>
      hashes_ok hf rd (pfx @ p @ [as_u8 c]) m \<and> child_hash ch = Some (merkledb_trie_hash hf t (pfx @ p @ [as_u8 c]))"
  shows "\<exists>r. hash_updated_node hf MerkleDB (Branch p v cs') pfx None = Inr r \<and> hashing_ok hf rd pfx (TBranch p v ts) r"
proof -
  have "children_hashes cs' c = map_option (\<lambda>t. merkledb_trie_hash hf t (pfx @ p @ [as_u8 c])) (ts c)" for c
  proof (cases "cs' c")
    case None
    then have "ts c = None" using none by simp
    with None show ?thesis by (simp add: children_hashes_def children_map_def)
  next
    case (Some ch)
    then show ?thesis using child [OF Some] by (auto simp: children_hashes_def children_map_def)
  qed
  then have "children_hashes cs' = (\<lambda>c. map_option (\<lambda>t. merkledb_trie_hash hf t (pfx @ p @ [as_u8 c])) (ts c))" by (rule ext)
  then have "hash_updated_node hf MerkleDB (Branch p v cs') pfx None =
      Inr (Unpersisted (Branch p v cs'), merkledb_trie_hash hf (TBranch p v ts) pfx)"
    using valid by (simp add: hash_updated_node_merkledb hash_node_merkledb merkledb_trie_hash_TBranch)
  moreover have "\<exists>A. repr rd (Branch p v cs') (TBranch p v ts) A"
  proof -
    have "\<exists>A. \<forall>ch. cs' c = Some ch \<longrightarrow> (\<exists>m t B. child_as_shared_node ch rd = Inr m \<and> repr rd m t B \<and> ts c = Some t \<and>
        A = child_hashed ch + B)" for c
    proof (cases "cs' c")
      case (Some ch)
      then show ?thesis using child [OF Some] by auto
    qed simp
    then obtain As where As: "\<And>c ch. cs' c = Some ch \<Longrightarrow> \<exists>m t B. child_as_shared_node ch rd = Inr m \<and> repr rd m t B \<and>
        ts c = Some t \<and> As c = child_hashed ch + B" by metis
    define As' where "As' = (\<lambda>c. if cs' c = None then {#} else As c)"
    have "repr rd (Branch p v cs') (TBranch p v ts) (\<Sum>c \<in> UNIV. As' c)"
      by (rule repr_Branch) (use none As in \<open>auto simp: As'_def\<close>)
    then show ?thesis ..
  qed
  moreover have "hashes_ok hf rd pfx (Branch p v cs')"
    by (rule hashes_ok_Branch) (use child in fastforce)
  moreover have "fully_hashed (Branch p v cs')"
    unfolding fully_hashed_def using child by fastforce
  ultimately show ?thesis unfolding hashing_ok_def by fastforce
qed

lemma hash_helper_inner_merkledb:
  "repr rd n t A \<Longrightarrow> valid_t t \<Longrightarrow> valid_path pfx \<Longrightarrow> hashes_ok hf rd pfx n \<Longrightarrow>
   \<exists>r. hash_helper_inner hf MerkleDB rd n pfx None = Inr r \<and> hashing_ok hf rd pfx t r"
proof (induction arbitrary: pfx rule: repr.induct)
  case (repr_Leaf p v)
  then show ?case
    by (auto simp: hash_updated_node_merkledb hash_node_merkledb hashing_ok_def fully_hashed_def
        intro: repr.repr_Leaf hashes_ok_Leaf)
next
  case (repr_Branch cs ts As p v)
  let ?pfx = "\<lambda>c. pfx @ p @ [as_u8 c]"
  have valid: "valid_path pfx" "valid_path p" "\<And>c t. ts c = Some t \<Longrightarrow> valid_t t"
    using repr_Branch.prems by auto
  then have vp: "valid_path (?pfx c)" for c by simp
  have ok: "\<exists>m. child_as_shared_node ch rd = Inr m \<and> hashes_ok hf rd (?pfx c) m \<and>
      (\<forall>h. child_hash ch = Some h \<longrightarrow> (\<exists>t A. repr rd m t A \<and> h = merkledb_trie_hash hf t (?pfx c)))"
    if "cs c = Some ch" for c ch
    using repr_Branch.prems(3) that by (elim hashes_ok_BranchE) simp
  have old: "\<exists>m t A. child_as_shared_node ch rd = Inr m \<and> repr rd m t A \<and> ts c = Some t \<and>
      hashes_ok hf rd (?pfx c) m \<and> (\<forall>h. child_hash ch = Some h \<longrightarrow> h = merkledb_trie_hash hf t (?pfx c)) \<and>
      (\<exists>r. hash_helper_inner hf MerkleDB rd m (?pfx c) None = Inr r \<and> hashing_ok hf rd (?pfx c) t r)"
    if ch: "cs c = Some ch" for c ch
  proof -
    obtain m t A where m: "child_as_shared_node ch rd = Inr m" "repr rd m t A" "ts c = Some t"
      and IH: "\<And>pfx. valid_t t \<Longrightarrow> valid_path pfx \<Longrightarrow> hashes_ok hf rd pfx m \<Longrightarrow>
         \<exists>r. hash_helper_inner hf MerkleDB rd m pfx None = Inr r \<and> hashing_ok hf rd pfx t r"
      using repr_Branch(2) ch by blast
    moreover from ok [OF ch] m(1) have "hashes_ok hf rd (?pfx c) m"
      "\<And>h. child_hash ch = Some h \<Longrightarrow> \<exists>t A. repr rd m t A \<and> h = merkledb_trie_hash hf t (?pfx c)" by auto
    ultimately show ?thesis using repr_det [OF m(2)] IH [OF valid(3) [OF m(3)] vp] by blast
  qed
  have "\<exists>r. \<forall>m t. cs c = Some (ChildNode m) \<and> ts c = Some t \<longrightarrow>
      hash_helper_inner hf MerkleDB rd m (?pfx c) None = Inr r \<and> hashing_ok hf rd (?pfx c) t r" for c
    using old [of c] by (cases "\<exists>m t. cs c = Some (ChildNode m) \<and> ts c = Some t") fastforce+
  then obtain r where r: "\<And>c m t. cs c = Some (ChildNode m) \<Longrightarrow> ts c = Some t \<Longrightarrow>
      hash_helper_inner hf MerkleDB rd m (?pfx c) None = Inr (r c) \<and> hashing_ok hf rd (?pfx c) t (r c)" by metis
  define cs' where "cs' = (\<lambda>c. if \<exists>m. cs c = Some (ChildNode m) then Some (ChildMaybePersisted (fst (r c)) (snd (r c))) else cs c)"
  have "hash_children_loop (\<lambda>i. Option.bind ((map_option (hash_child hf MerkleDB rd) \<circ> cs) i) id) MerkleDB (pfx @ p) None pc_ALL cs =
      Inr (\<lambda>i. if i \<in> set pc_ALL \<and> Option.bind ((map_option (hash_child hf MerkleDB rd) \<circ> cs) i) id \<noteq> None
               then Some (ChildMaybePersisted (fst (r i)) (snd (r i))) else cs i)"
  proof (rule hash_children_loop_ok)
    fix i f assume "Option.bind ((map_option (hash_child hf MerkleDB rd) \<circ> cs) i) id = Some f"
    then obtain m where m: "cs i = Some (ChildNode m)" "f = hash_helper_inner hf MerkleDB rd m" using hash_child_node by metis
    moreover obtain t where "ts i = Some t" using old [OF m(1)] by auto
    ultimately show "f ((pfx @ p) @ [as_u8 i]) None = Inr (r i)" using r by simp
  qed simp
  then have loop: "hash_children_loop (\<lambda>i. Option.bind ((map_option (hash_child hf MerkleDB rd) \<circ> cs) i) id) MerkleDB
      (pfx @ p) None pc_ALL cs = Inr cs'"
    unfolding hash_child_None cs'_def by simp
  have "\<exists>r. hash_updated_node hf MerkleDB (Branch p v cs') pfx None = Inr r \<and> hashing_ok hf rd pfx (TBranch p v ts) r"
  proof (rule hashed_branch [OF _ valid(1,2)])
    show "cs' c = None \<longleftrightarrow> ts c = None" for c
      using old [of c] repr_Branch(1) by (cases "cs c") (auto simp: cs'_def)
    show "\<exists>m t A. child_as_shared_node ch rd = Inr m \<and> repr rd m t A \<and> ts c = Some t \<and>
      hashes_ok hf rd (?pfx c) m \<and> child_hash ch = Some (merkledb_trie_hash hf t (?pfx c))" if "cs' c = Some ch" for c ch
    proof (cases "\<exists>m. cs c = Some (ChildNode m)")
      case True
      then obtain m where m: "cs c = Some (ChildNode m)" ..
      then obtain t where t: "ts c = Some t" using old by blast
      then show ?thesis using r [OF m t] that m by (auto simp: cs'_def hashing_ok_def)
    next
      case False
      then have ch: "cs c = Some ch" using that by (auto simp: cs'_def)
      moreover obtain h where "child_hash ch = Some h" using False ch by (cases ch) auto
      ultimately show ?thesis using old [OF ch] by blast
    qed
  qed
  then show ?case using loop by (simp add: account_children_def)
qed

end
