(* ===== verification/Hash_Updates.thy ===== *)
theory Hash_Updates
  imports Hash_Laws
begin

section \<open>Updates keep the stored hashes right\<close>

text \<open>
  Insertion, removal and removal of a prefix move nodes: they split a partial path, join it with that of
  an only child, or put a new node above. The hash of a node depends on its whole path, so the lemmas
  show that every hash an update leaves in place still is that of the trie below it.
\<close>

subsection \<open>Moving nodes and changing slots\<close>

lemma hashes_ok_move:
  assumes "hashes_ok hf rd pfx n" "pfx @ partial_path n = pfx' @ q"
  shows "hashes_ok hf rd pfx' (update_partial_path n q)"
  using assms(1)
proof cases
  case (hashes_ok_Branch cs p v)
  then have eq: "pfx @ p @ [as_u8 c] = pfx' @ q @ [as_u8 c]" for c using assms(2) by simp
  show ?thesis unfolding hashes_ok_Branch(1) update_partial_path.simps
    by (rule hashes_ok.hashes_ok_Branch) (use hashes_ok_Branch(2) eq in simp)
qed (simp add: hashes_ok_Leaf)

lemma hashes_ok_value: "hashes_ok hf rd pfx n \<Longrightarrow> hashes_ok hf rd pfx (update_value n v)"
  by (induction rule: hashes_ok.cases) (auto intro!: hashes_ok_Leaf hashes_ok_Branch)

lemma hashes_ok_Branch_value: "hashes_ok hf rd pfx (Branch p v cs) \<Longrightarrow> hashes_ok hf rd pfx (Branch p w cs)"
  by (erule hashes_ok_BranchE) (auto intro!: hashes_ok_Branch)

lemma hashes_ok_empty: "hashes_ok hf rd pfx (Branch p v children_new)"
  by (rule hashes_ok_Branch) simp

lemma hashes_ok_upd:
  assumes "hashes_ok hf rd pfx (Branch p v cs)" "hashes_ok hf rd (pfx @ p @ [as_u8 c]) m"
  shows "hashes_ok hf rd pfx (Branch p w (cs(c := Some (ChildNode m))))"
  using assms(1) by (elim hashes_ok_BranchE, intro hashes_ok_Branch) (use assms(2) in \<open>auto split: if_splits\<close>)

lemma hashes_ok_clear:
  assumes "hashes_ok hf rd pfx (Branch p v cs)"
  shows "hashes_ok hf rd pfx (Branch p w (cs(c := None)))"
  using assms by (elim hashes_ok_BranchE, intro hashes_ok_Branch) (auto split: if_splits)

lemma hashes_ok_upd_option:
  assumes "hashes_ok hf rd pfx (Branch p v cs)" "\<And>m. o_m = Some m \<Longrightarrow> hashes_ok hf rd (pfx @ p @ [as_u8 c]) m"
  shows "hashes_ok hf rd pfx (Branch p w (cs(c := map_option ChildNode o_m)))"
  using assms by (cases o_m) (auto intro: hashes_ok_clear hashes_ok_upd)

lemma read_for_update_child:
  "read_for_update rd ch s = (Inr m, s') \<Longrightarrow> child_as_shared_node ch rd = Inr m"
proof (cases ch)
  case (ChildMaybePersisted mp h)
  assume "read_for_update rd ch s = (Inr m, s')"
  then show ?thesis using ChildMaybePersisted
    by (simp add: ns_read_for_update_def as_shared_node_persisted split: sum.splits)
qed (auto simp: ns_read_for_update_def split: sum.splits)

lemma hashes_ok_read:
  assumes "hashes_ok hf rd pfx (Branch p v cs)" "cs c = Some ch" "read_for_update rd ch s = (Inr m, s')"
  shows "hashes_ok hf rd (pfx @ p @ [as_u8 c]) m"
  using assms(1) by (elim hashes_ok_BranchE) (use assms(2) read_for_update_child [OF assms(3)] in fastforce)

lemma hashes_ok_wrap:
  assumes "hashes_ok hf rd pfx n" "partial_path n = k @ as_u8 i # q"
  shows "hashes_ok hf rd pfx (Branch k w (children_new(i := Some (ChildNode (update_partial_path n q)))))"
  by (rule hashes_ok_upd [OF hashes_ok_empty]) (rule hashes_ok_move [OF assms(1)], simp add: assms(2))

subsection \<open>The operations\<close>

lemma insert_helper_hashes:
  "insert_helper rd n k v s = (Inr n', s') \<Longrightarrow> hashes_ok hf rd pfx n \<Longrightarrow> hashes_ok hf rd pfx n'"
proof (induction k arbitrary: n n' s s' pfx rule: measure_induct_rule [of length])
  case (less k)
  note ok = less.prems(2)
  show ?case
  proof (cases k "partial_path n" rule: po_cases)
    case at
    then show ?thesis using less.prems insert_helper_at [of rd n v s] hashes_ok_value by auto
  next
    case (above y q)
    show ?thesis
    proof (cases "try_new y")
      case None
      then show ?thesis using less.prems(1) above(2) by (subst (asm) insert_helper.simps) simp
    next
      case (Some i)
      then have "partial_path n = k @ as_u8 i # q" using above(1) by simp
      then show ?thesis using less.prems(1) insert_helper_above hashes_ok_wrap [OF ok] by auto
    qed
  next
    case (below x k')
    show ?thesis
    proof (cases "try_new x")
      case None
      then show ?thesis using less.prems(1) below(2) by (subst (asm) insert_helper.simps) simp
    next
      case (Some i)
      then have k: "k = partial_path n @ as_u8 i # k'" using below(1) by simp
      show ?thesis
      proof (cases n)
        case (Leaf p w)
        then show ?thesis using less.prems(1) k insert_helper_below_leaf [of rd p w i k' v s]
          by (auto intro!: hashes_ok_upd [OF hashes_ok_empty] hashes_ok_Leaf)
      next
        case (Branch p w cs)
        note ins = less.prems(1) [unfolded Branch k partial_path.simps insert_helper_below]
        show ?thesis
        proof (cases "cs i")
          case None
          then show ?thesis using ins ok by (auto simp: Branch intro!: hashes_ok_upd hashes_ok_Leaf)
        next
          case (Some ch)
          then obtain m s1 m' where m: "read_for_update rd ch s = (Inr m, s1)" "insert_helper rd m k' v s1 = (Inr m', s')"
            "n' = Branch p w (cs(i := Some (ChildNode m')))"
            using ins by (auto simp: sbind_def sreturn_def split: prod.splits sum.splits)
          have "hashes_ok hf rd (pfx @ p @ [as_u8 i]) m'"
            using less.IH [OF _ m(2) hashes_ok_read [OF ok [unfolded Branch] Some m(1)]] k by simp
          then show ?thesis unfolding m(3) using ok by (simp add: Branch hashes_ok_upd)
        qed
      qed
    qed
  next
    case (apart q x k' y p')
    show ?thesis
    proof (cases "try_new x = None \<or> try_new y = None")
      case True
      then show ?thesis using less.prems(1) apart(4) by (subst (asm) insert_helper.simps) (auto split: option.splits)
    next
      case False
      then obtain i j where ij: "x = as_u8 i" "y = as_u8 j" by (metis less_16_cases try_new_eq_None)
      then have p: "partial_path n = q @ as_u8 j # p'" "i \<noteq> j" using apart by auto
      have "hashes_ok hf rd pfx (Branch q None (children_new(j := Some (ChildNode (update_partial_path n p')),
          i := Some (ChildNode (Leaf k' v)))))"
        by (rule hashes_ok_upd [OF hashes_ok_wrap [OF ok p(1)] hashes_ok_Leaf])
      then show ?thesis using less.prems(1) insert_helper_apart [OF p, of rd k' v s] apart(1) ij by simp
    qed
  qed
qed

lemma flatten_branch_hashes:
  assumes "flatten_branch rd p v cs s = (Inr (Some n), s')" "hashes_ok hf rd pfx (Branch p v cs)"
  shows "hashes_ok hf rd pfx n"
proof (cases "flatten_scan pc_ALL v cs")
  case NoChild
  then show ?thesis using assms(1) by (auto simp: flatten_branch_def intro: hashes_ok_Leaf)
next
  case KeepBranch
  then show ?thesis using assms by (auto simp: flatten_branch_def)
next
  case (OnlyChild i ch)
  then obtain m where m: "read_for_update rd ch s = (Inr m, s')" "n = update_partial_path m (p @ [as_u8 i] @ partial_path m)"
    using assms(1) by (auto simp: flatten_branch_def sbind_def sreturn_def split: prod.splits sum.splits)
  moreover have "cs i = Some ch" using flatten_scan_OnlyChild [OF distinct_pc_ALL OnlyChild] by simp
  ultimately have "hashes_ok hf rd (pfx @ p @ [as_u8 i]) m" using hashes_ok_read [OF assms(2)] by blast
  then show ?thesis unfolding m(2) by (rule hashes_ok_move) simp
qed

lemma remove_helper_hashes:
  "remove_helper rd n k s = (Inr (Some n', w), s') \<Longrightarrow> hashes_ok hf rd pfx n \<Longrightarrow> hashes_ok hf rd pfx n'"
proof (induction k arbitrary: n n' s s' w pfx rule: measure_induct_rule [of length])
  case (less k)
  note ok = less.prems(2)
  show ?case
  proof (cases k "partial_path n" rule: po_cases)
    case at
    show ?thesis
    proof (cases n)
      case (Branch p v cs)
      show ?thesis
      proof (cases v)
        case None
        then show ?thesis using less.prems at(1) remove_helper_at_branch [of rd p v cs s] by (auto simp: Branch)
      next
        case (Some u)
        then obtain s1 where "flatten_branch rd p None cs s = (Inr (Some n'), s1)"
          using less.prems(1) at(1) remove_helper_at_branch [of rd p v cs s]
          by (auto simp: Branch sbind_def sreturn_def split: prod.splits sum.splits)
        then show ?thesis using flatten_branch_hashes hashes_ok_Branch_value ok Branch by blast
      qed
    next
      case (Leaf p v)
      then show ?thesis using less.prems(1) at(1) remove_helper_at_leaf [of rd p v s] by simp
    qed
  next
    case (above y q)
    then show ?thesis using less.prems remove_helper_off [of k n rd s] by auto
  next
    case (below x k')
    show ?thesis
    proof (cases "try_new x")
      case None
      then show ?thesis using less.prems(1) below(2) by (subst (asm) remove_helper.simps) simp
    next
      case (Some i)
      then have k: "k = partial_path n @ as_u8 i # k'" using below(1) by simp
      show ?thesis
      proof (cases n)
        case (Leaf p v)
        then show ?thesis using less.prems k remove_helper_below_leaf [of rd p v i k' s] by simp
      next
        case (Branch p v cs)
        note rem = less.prems(1) [unfolded Branch k partial_path.simps remove_helper_below]
        show ?thesis
        proof (cases "cs i")
          case None
          then show ?thesis using rem ok by (auto simp: Branch intro: hashes_ok_clear)
        next
          case (Some ch)
          then obtain m s1 m' w' s2 where m: "read_for_update rd ch s = (Inr m, s1)" "remove_helper rd m k' s1 = (Inr (m', w'), s2)"
            "flatten_branch rd p v (cs(i := map_option ChildNode m')) s2 = (Inr (Some n'), s')"
            using rem by (auto simp: sbind_def sreturn_def split: prod.splits sum.splits)
          have "hashes_ok hf rd (pfx @ p @ [as_u8 i]) u" if "m' = Some u" for u
            using less.IH [OF _ m(2) [unfolded that] hashes_ok_read [OF ok [unfolded Branch] Some m(1)]] k by simp
          then show ?thesis using flatten_branch_hashes [OF m(3)] hashes_ok_upd_option [OF ok [unfolded Branch]] by blast
        qed
      qed
    qed
  next
    case (apart q x k' y p')
    then show ?thesis using less.prems remove_helper_off [of k n rd s] by auto
  qed
qed

lemma on_store_Inr: "on_store m sd = (Inr x, sd') \<longleftrightarrow> m (fst sd) = (Inr x, fst sd') \<and> snd sd' = snd sd"
  by (cases sd; cases sd') (auto simp: on_store_def split: prod.splits)

lemma remove_prefix_helper_hashes:
  "remove_prefix_helper fuel rd n k s = (Inr (Some n'), s') \<Longrightarrow> hashes_ok hf rd pfx n \<Longrightarrow> hashes_ok hf rd pfx n'"
proof (induction k arbitrary: n n' s s' pfx rule: measure_induct_rule [of length])
  case (less k)
  note ok = less.prems(2)
  have inside: False if "prefix k (partial_path n)"
    using less.prems(1) remove_prefix_helper_inside [OF that, of fuel rd s]
    by (auto simp: sbind_def sreturn_def split: prod.splits sum.splits)
  show ?case
  proof (cases k "partial_path n" rule: po_cases)
    case at then show ?thesis using inside by simp
  next
    case (above y q) then show ?thesis using inside by simp
  next
    case (below x k')
    show ?thesis
    proof (cases "try_new x")
      case None
      then show ?thesis using less.prems(1) below(2) by (subst (asm) remove_prefix_helper.simps) simp
    next
      case (Some i)
      then have k: "k = partial_path n @ as_u8 i # k'" using below(1) by simp
      show ?thesis
      proof (cases n)
        case (Leaf p v)
        then show ?thesis using less.prems k remove_prefix_helper_below_leaf [of fuel rd p v i k' s] by simp
      next
        case (Branch p v cs)
        note rem = less.prems(1) [unfolded Branch k partial_path.simps remove_prefix_helper_below]
        show ?thesis
        proof (cases "cs i")
          case None
          then show ?thesis using rem ok by (auto simp: Branch intro: hashes_ok_clear)
        next
          case (Some ch)
          then obtain m s1 m' s2 where m: "read_for_update rd ch (fst s) = (Inr m, fst s1)" "remove_prefix_helper fuel rd m k' s1 = (Inr m', s2)"
            "flatten_branch rd p v (cs(i := map_option ChildNode m')) (fst s2) = (Inr (Some n'), fst s')"
            using rem by (auto simp: sbind_eq_Inr on_store_Inr)
          have "hashes_ok hf rd (pfx @ p @ [as_u8 i]) u" if "m' = Some u" for u
            using less.IH [OF _ m(2) [unfolded that] hashes_ok_read [OF ok [unfolded Branch] Some m(1)]] k by simp
          then show ?thesis using flatten_branch_hashes [OF m(3)] hashes_ok_upd_option [OF ok [unfolded Branch]] by blast
        qed
      qed
    qed
  next
    case (apart q x k' y p')
    then show ?thesis using less.prems remove_prefix_helper_apart [of n q y p' x fuel rd k' s] by auto
  qed
qed

subsection \<open>Batches\<close>

definition store_hashes_ok :: "hash_fns \<Rightarrow> reader \<Rightarrow> mutable_store \<Rightarrow> bool" where
  "store_hashes_ok hf rd s \<longleftrightarrow> (case ms_root s of None \<Rightarrow> True | Some n \<Rightarrow> hashes_ok hf rd [] n)"

lemma merkle_insert_hashes:
  assumes "merkle_insert rd key v s = (Inr u, s')" "store_hashes_ok hf rd s"
  shows "store_hashes_ok hf rd s'"
  using assms insert_helper_hashes
  by (fastforce simp: merkle_insert_def insert_from_iter_def store_hashes_ok_def sbind_eq_Inr
      intro: hashes_ok_Leaf split: option.splits)

lemma merkle_remove_hashes:
  assumes "merkle_remove rd key s = (Inr u, s')" "store_hashes_ok hf rd s"
  shows "store_hashes_ok hf rd s'"
proof (cases "ms_root s")
  case None
  then show ?thesis using assms by (simp add: merkle_remove_def remove_from_iter_def)
next
  case (Some n)
  then obtain n' w s1 where n': "remove_helper rd n (path_from_nibbles_iterator (nibbles key)) (s\<lparr>ms_root := None\<rparr>) = (Inr (n', w), s1)"
    "s' = s1\<lparr>ms_root := n'\<rparr>"
    using assms(1) by (auto simp: merkle_remove_def remove_from_iter_def sbind_eq_Inr)
  then show ?thesis using Some assms(2) remove_helper_hashes by (cases n') (auto simp: store_hashes_ok_def)
qed

lemma remove_prefix_hashes:
  assumes "remove_prefix fuel rd key s = (Inr u, s')" "store_hashes_ok hf rd s"
  shows "store_hashes_ok hf rd s'"
proof (cases "ms_root s")
  case None
  then show ?thesis using assms by (simp add: remove_prefix_def remove_prefix_from_iter_def)
next
  case (Some n)
  then obtain n' s1 where n': "remove_prefix_helper fuel rd n (path_from_nibbles_iterator (nibbles key)) (s\<lparr>ms_root := None\<rparr>, 0) = (Inr n', s1)"
    "s' = (fst s1)\<lparr>ms_root := n'\<rparr>"
    using assms(1) by (auto simp: remove_prefix_def remove_prefix_from_iter_def split: prod.splits sum.splits)
  then show ?thesis using Some assms(2) remove_prefix_helper_hashes by (cases n') (auto simp: store_hashes_ok_def)
qed

lemma batch_loop_invariant:
  assumes "\<And>key v s s'. ins key v s = (Inr (), s') \<Longrightarrow> P s \<Longrightarrow> P s'"
    "\<And>key x s s'. rem key s = (Inr x, s') \<Longrightarrow> P s \<Longrightarrow> P s'"
    "\<And>key x s s'. rem_range key s = (Inr x, s') \<Longrightarrow> P s \<Longrightarrow> P s'"
  shows "batch_loop ins rem rem_range alg batch s = Inr s' \<Longrightarrow> P s \<Longrightarrow> P s'"
proof (induction batch arbitrary: s)
  case (Cons res batch)
  then obtain op where op: "res = Inr op" by (cases res) auto
  obtain s1 where s1: "(case op of Put key v \<Rightarrow> lift_io (ins key v s) | Delete key \<Rightarrow> lift_io (rem key s)
      | DeleteRange p \<Rightarrow> lift_io (rem_range p s)) = Inr s1" "batch_loop ins rem rem_range alg batch s1 = Inr s'"
    using Cons.prems(1) by (auto simp: op rbind_def split: sum.splits)
  have "P s1"
  proof (cases op)
    case (Put key v)
    then show ?thesis using s1(1) assms(1) [of key v s s1] Cons.prems(2)
      by (auto simp: lift_io_def split: prod.splits sum.splits)
  next
    case (Delete key)
    then show ?thesis using s1(1) assms(2) [of key s _ s1] Cons.prems(2)
      by (auto simp: lift_io_def split: prod.splits sum.splits)
  next
    case (DeleteRange p)
    then show ?thesis using s1(1) assms(3) [of p s _ s1] Cons.prems(2)
      by (auto simp: lift_io_def split: prod.splits sum.splits)
  qed
  then show ?case using Cons.IH s1(2) by blast
qed simp

lemma apply_batch_hashes:
  assumes "apply_batch_serial rd alg s batch = Inr s'" "store_hashes_ok hf rd s"
  shows "store_hashes_ok hf rd s'"
  by (rule batch_loop_invariant [OF _ _ _ assms(1) [unfolded apply_batch_serial_def], where P = "store_hashes_ok hf rd"])
    (use assms(2) merkle_insert_hashes merkle_remove_hashes remove_prefix_hashes in blast)+

end
