(* ===== verification/Hash_Binding.thy ===== *)
theory Hash_Binding
  imports Hash_Laws
begin

section \<open>A root hash binds the contents\<close>

text \<open>
  The pre-image of a node under the MerkleDB scheme can be read back: it determines the hashes of the
  children, the value or its digest, and the path. So two tries with the same root hash are the same
  trie, unless two of the strings that were hashed for them collide.
\<close>

subsection \<open>Encodings that can be read back\<close>

lemma reads_unique:
  assumes "reads p a x" "reads p b y" "a @ r = b @ s"
  shows "x = y" "r = s"
  using readsD [OF assms(1), of r] readsD [OF assms(2), of s] assms(3) by auto

definition digests_ok :: "hash_fns \<Rightarrow> bool" where
  "digests_ok hf \<longleftrightarrow> (\<forall>bs. length (hf_sha256 hf bs) = 32) \<and> (\<forall>bs. length (hf_keccak256 hf bs) = 32)"

definition hashed_children :: "hash_type option children \<Rightarrow> bool" where
  "hashed_children hs \<longleftrightarrow> (\<forall>c h. hs c = Some h \<longrightarrow> length (HashType_as_ref h) = 32 \<and> (\<exists>b. h = Hash b))"

definition child_entries :: "hash_fns \<Rightarrow> (pc \<times> hash_type) list \<Rightarrow> u8 list" where
  "child_entries hf es = concat (map (\<lambda>(i, h). hf_encode_var hf (unat i) @ HashType_as_ref h) es)"

lemma child_entries_iter:
  "concat (map (\<lambda>(index, hash). case hash of Some hash \<Rightarrow> hf_encode_var hf (unat index) @ HashType_as_ref hash | None \<Rightarrow> [])
     (children_iter hs)) = child_entries hf (iter_present hs)"
proof -
  have "concat (map (\<lambda>(index, hash). case hash of Some hash \<Rightarrow> hf_encode_var hf (unat index) @ HashType_as_ref hash | None \<Rightarrow> []) xs) =
      child_entries hf (List.map_filter (\<lambda>(i, opt). map_option (\<lambda>v. (i, v)) opt) xs)" for xs
    by (induction xs) (auto simp: child_entries_def map_filter_simps split: option.splits)
  then show ?thesis by (simp add: iter_present_def)
qed

lemma iter_present_inject: "iter_present hs = iter_present hs' \<Longrightarrow> hs = hs'"
proof
  fix c assume eq: "iter_present hs = iter_present hs'"
  have "hs c = Some v \<longleftrightarrow> hs' c = Some v" for v using set_iter_present [of c v hs] set_iter_present [of c v hs'] eq by simp
  then show "hs c = hs' c" by (metis not_None_eq)
qed

lemma pack_inject: "length a = length b \<Longrightarrow> pack a = pack b \<Longrightarrow> a = b"
proof (induction a arbitrary: b rule: pack.induct)
  case (1 hi lo cs)
  then obtain hi' lo' cs' where b: "b = hi' # lo' # cs'" by (auto simp: length_Suc_conv Suc_length_conv)
  have "new_pair (join hi lo) = new_pair (join hi' lo')" using "1.prems"(2) by (simp add: b)
  then show ?case using 1 by (simp add: b)
next
  case (2 hi)
  then obtain hi' where b: "b = [hi']" by (cases b) auto
  have "new_pair (join hi 0) = new_pair (join hi' 0)" using "2.prems"(2) by (simp add: b)
  then show ?case by (simp add: b)
qed simp

lemma child_entries_inject:
  assumes "varint (hf_encode_var hf) rdv"
  shows "child_entries hf es @ r = child_entries hf es' @ r' \<Longrightarrow> length es = length es' \<Longrightarrow>
    (\<And>i h. (i, h) \<in> set es \<union> set es' \<Longrightarrow> length (HashType_as_ref h) = 32 \<and> (\<exists>b. h = Hash b)) \<Longrightarrow>
    es = es' \<and> r = r'"
proof (induction es arbitrary: es')
  case (Cons e es)
  then obtain e' es'' where es': "es' = e' # es''" by (auto simp: Suc_length_conv)
  obtain i h i' h' where e: "e = (i, h)" "e' = (i', h')" by (metis surj_pair)
  have v: "reads rdv (hf_encode_var hf (unat c)) (unat c)" for c :: pc
    using assms unsigned_less [of c, where 'a = nat] by (intro varint.reads_varint) simp_all
  have eq: "hf_encode_var hf (unat i) @ HashType_as_ref h @ child_entries hf es @ r =
      hf_encode_var hf (unat i') @ HashType_as_ref h' @ child_entries hf es'' @ r'"
    using Cons.prems(1) by (simp add: child_entries_def es' e)
  note first = reads_unique [OF v v eq]
  have "length (HashType_as_ref h) = length (HashType_as_ref h')"
    using Cons.prems(3) [of i h] Cons.prems(3) [of i' h'] by (simp add: es' e)
  with first(2) have rest: "HashType_as_ref h = HashType_as_ref h'" "child_entries hf es @ r = child_entries hf es'' @ r'" by auto
  have "h = h'" using rest(1) Cons.prems(3) [of i h] Cons.prems(3) [of i' h'] by (auto simp: es' e HashType_as_ref_def)
  moreover have "es = es'' \<and> r = r'"
    by (rule Cons.IH [OF rest(2)]) (use Cons.prems(2,3) in \<open>auto simp: es'\<close>)
  moreover have "i = i'" using first(1) by (rule unsigned_word_eqI)
  ultimately show ?case by (simp add: es' e)
qed simp

subsection \<open>The pre-image determines the node\<close>

definition value_ok :: "value_digest option \<Rightarrow> bool" where
  "value_ok vd \<longleftrightarrow> (\<forall>h. vd = Some (VdHash h) \<longrightarrow> length (HashType_as_ref h) = 32 \<and> (\<exists>b. h = Hash b))"

lemma add_value_digest_inject:
  assumes "add_value_digest_to_buf hf vd @ r = add_value_digest_to_buf hf vd' @ r'" "digests_ok hf" "value_ok vd" "value_ok vd'"
  shows "map_option (make_hash hf MerkleDB) vd = map_option (make_hash hf MerkleDB) vd' \<and> r = r'"
proof (cases vd)
  case None
  then show ?thesis using assms(1) by (cases vd') auto
next
  case (Some d)
  then obtain d' where d': "vd' = Some d'" using assms(1) by (cases vd') auto
  have small: "length (vd_as_ref (make_hash hf MerkleDB x)) \<le> 32" if "value_ok (Some x)" for x
    using that assms(2) by (cases x) (auto simp: value_ok_def digests_ok_def HashType_as_ref_def)
  let ?a = "vd_as_ref (make_hash hf MerkleDB d)" and ?b = "vd_as_ref (make_hash hf MerkleDB d')"
  have eq: "(word_of_nat (length ?a) :: u8) = word_of_nat (length ?b)" "?a @ r = ?b @ r'"
    using assms(1) by (simp_all add: Some d' add_len_and_value_to_buf_def)
  have "length ?a \<le> 32" "length ?b \<le> 32" using small assms(3,4) Some d' by auto
  then have "length ?a = length ?b" using arg_cong [OF eq(1), of unat] by (simp add: unat_of_nat take_bit_eq_mod)
  then have ab: "?a = ?b" "r = r'" using eq(2) by auto
  have "make_hash hf MerkleDB d = make_hash hf MerkleDB d'"
    using ab(1) assms(2-4) unfolding Some d'
    by (cases d; cases d') (auto simp: value_ok_def digests_ok_def HashType_as_ref_def split: if_splits)
  then show ?thesis using ab by (simp add: Some d')
qed

lemma merkledb_preimage_inject:
  assumes vi: "varint (hf_encode_var hf) rdv" and dig: "digests_ok hf"
    and a: "hashed_children (sh_child_hashes a)" "value_ok (sh_value a)" "length (sh_full_path a) < 2 ^ 62"
    and b: "hashed_children (sh_child_hashes b)" "value_ok (sh_value b)" "length (sh_full_path b) < 2 ^ 62"
    and eq: "merkledb_write_preimage hf a = merkledb_write_preimage hf b"
  shows "sh_child_hashes a = sh_child_hashes b \<and> sh_full_path a = sh_full_path b \<and>
    map_option (make_hash hf MerkleDB) (sh_value a) = map_option (make_hash hf MerkleDB) (sh_value b)"
proof -
  let ?tail = "\<lambda>n. add_value_digest_to_buf hf (sh_value n) @
    hf_encode_var hf (BITS_PER_NIBBLE * length (sh_full_path n) mod 2 ^ 64) @ pack (sh_full_path n)"
  have pre: "merkledb_write_preimage hf n = hf_encode_var hf (children_count (sh_child_hashes n)) @
      child_entries hf (iter_present (sh_child_hashes n)) @ ?tail n" for n
    by (simp add: merkledb_write_preimage_def Let_def child_entries_iter)
  have cc: "children_count hs < 2 ^ 64" for hs :: "hash_type option children"
  proof -
    have "children_count hs \<le> length (map (\<lambda>i. (i, hs i)) pc_ALL)"
      unfolding children_count_def children_iter_def by (rule length_filter_le)
    then show ?thesis by simp
  qed
  have r: "reads rdv (hf_encode_var hf n) n" if "n < 2 ^ 64" for n using varint.reads_varint [OF vi that] .
  note first = reads_unique [OF r [OF cc] r [OF cc] eq [unfolded pre]]
  have "iter_present (sh_child_hashes a) = iter_present (sh_child_hashes b) \<and> ?tail a = ?tail b"
    by (rule child_entries_inject [OF vi first(2)]) (use a(1) b(1) first(1) in \<open>auto simp: length_iter_present hashed_children_def\<close>)
  then have ch: "sh_child_hashes a = sh_child_hashes b" and tail: "?tail a = ?tail b" using iter_present_inject by blast+
  from add_value_digest_inject [OF tail dig a(2) b(2)]
  have val: "map_option (make_hash hf MerkleDB) (sh_value a) = map_option (make_hash hf MerkleDB) (sh_value b)"
    and key: "hf_encode_var hf (BITS_PER_NIBBLE * length (sh_full_path a) mod 2 ^ 64) @ pack (sh_full_path a) =
      hf_encode_var hf (BITS_PER_NIBBLE * length (sh_full_path b) mod 2 ^ 64) @ pack (sh_full_path b)" by blast+
  have len: "BITS_PER_NIBBLE * length (sh_full_path a) mod 2 ^ 64 = BITS_PER_NIBBLE * length (sh_full_path b) mod 2 ^ 64"
    "pack (sh_full_path a) = pack (sh_full_path b)"
    using reads_unique [OF r r key] by simp_all
  then have "length (sh_full_path a) = length (sh_full_path b)" using a(3) b(3) by (simp add: BITS_PER_NIBBLE_def)
  then show ?thesis using ch val pack_inject [OF _ len(2)] by simp
qed

subsection \<open>The root hash determines the trie\<close>

text \<open>The strings that are hashed for a trie: the pre-images of its nodes and its values.\<close>

primrec hash_inputs :: "hash_fns \<Rightarrow> trie \<Rightarrow> path \<Rightarrow> u8 list set" where
  "hash_inputs hf (TLeaf p v) =
     (\<lambda>pfx. {merkledb_write_preimage hf (shunt_new (comps pfx) (comps p) (Some (VdValue v)) children_new), v})"
| "hash_inputs hf (TBranch p v ts) =
     (\<lambda>pfx. {merkledb_write_preimage hf (shunt_new (comps pfx) (comps p) (map_option VdValue v)
               (\<lambda>c. map_option (\<lambda>t. merkledb_trie_hash hf t (pfx @ p @ [as_u8 c])) (ts c)))} \<union> set_option v \<union>
        (\<Union>c. case (map_option (hash_inputs hf) \<circ> ts) c of None \<Rightarrow> {} | Some f \<Rightarrow> f (pfx @ p @ [as_u8 c])))"

definition collide :: "hash_fns \<Rightarrow> u8 list set \<Rightarrow> u8 list set \<Rightarrow> bool" where
  "collide hf X Y \<longleftrightarrow> (\<exists>x \<in> X. \<exists>y \<in> Y. x \<noteq> y \<and> hf_sha256 hf x = hf_sha256 hf y)"

lemma collideI: "x \<in> X \<Longrightarrow> y \<in> Y \<Longrightarrow> x \<noteq> y \<Longrightarrow> hf_sha256 hf x = hf_sha256 hf y \<Longrightarrow> collide hf X Y"
  by (auto simp: collide_def)

lemma collide_mono: "collide hf X Y \<Longrightarrow> X \<subseteq> X' \<Longrightarrow> Y \<subseteq> Y' \<Longrightarrow> collide hf X' Y'"
  by (auto simp: collide_def)

lemma hash_inputs_child:
  "ts c = Some t \<Longrightarrow> hash_inputs hf t (pfx @ p @ [as_u8 c]) \<subseteq> hash_inputs hf (TBranch p v ts) pfx"
  by (force split: option.splits)

text \<open>The shunt of the root of a trie, and what the reference hash is in terms of it.\<close>

fun trie_shunt :: "hash_fns \<Rightarrow> trie \<Rightarrow> path \<Rightarrow> hashable_shunt" where
  "trie_shunt hf (TLeaf p v) pfx = shunt_new (comps pfx) (comps p) (Some (VdValue v)) children_new"
| "trie_shunt hf (TBranch p v ts) pfx = shunt_new (comps pfx) (comps p) (map_option VdValue v)
     (\<lambda>c. map_option (\<lambda>t. merkledb_trie_hash hf t (pfx @ p @ [as_u8 c])) (ts c))"

fun tvalue :: "trie \<Rightarrow> val option" where
  "tvalue (TLeaf p v) = Some v"
| "tvalue (TBranch p v ts) = v"

lemma trie_hash_shunt:
  "merkledb_trie_hash hf t pfx = Hash (hf_sha256 hf (merkledb_write_preimage hf (trie_shunt hf t pfx)))"
  by (cases t) (simp_all add: merkledb_trie_hash_TBranch merkledb_to_hash_def)

lemma trie_shunt_inputs:
  "merkledb_write_preimage hf (trie_shunt hf t pfx) \<in> hash_inputs hf t pfx" "set_option (tvalue t) \<subseteq> hash_inputs hf t pfx"
  by (cases t; auto)+

lemma trie_shunt_sel:
  "sh_full_path (trie_shunt hf t pfx) = comps pfx @ comps (tpath t)"
  "sh_value (trie_shunt hf t pfx) = map_option VdValue (tvalue t)"
  by (cases t; simp add: shunt_new_def sh_full_path_def)+

lemma trie_shunt_hashed: "digests_ok hf \<Longrightarrow> hashed_children (sh_child_hashes (trie_shunt hf t pfx))"
  by (cases t) (auto simp: hashed_children_def shunt_new_def trie_hash_shunt HashType_as_ref_def digests_ok_def)

definition short_keys :: "path \<Rightarrow> trie \<Rightarrow> bool" where
  "short_keys pfx t \<longleftrightarrow> (\<forall>k. lookup_t t k \<noteq> None \<longrightarrow> length pfx + length k < 2 ^ 62)"

lemma short_keys_path:
  assumes "canon t" "short_keys pfx t"
  shows "length pfx + length (tpath t) < 2 ^ 62"
proof -
  obtain r where "below t r \<noteq> None" using canon_nonempty [OF assms(1)] by blast
  then have "lookup_t t (tpath t @ r) \<noteq> None" by (simp only: lookup_t_append) simp
  then have "length pfx + length (tpath t @ r) < 2 ^ 62" using assms(2) unfolding short_keys_def by blast
  then show ?thesis by simp
qed

lemma short_keys_child:
  assumes "short_keys pfx (TBranch p v ts)" "ts c = Some t"
  shows "short_keys (pfx @ p @ [as_u8 c]) t"
  unfolding short_keys_def
proof (intro allI impI)
  fix k assume "lookup_t t k \<noteq> None"
  then have "lookup_t (TBranch p v ts) (p @ as_u8 c # k) \<noteq> None"
    using assms(2) lookup_t_append [of "TBranch p v ts" "as_u8 c # k"] by simp
  then have "length pfx + length (p @ as_u8 c # k) < 2 ^ 62" using assms(1) unfolding short_keys_def by blast
  then show "length (pfx @ p @ [as_u8 c]) + length k < 2 ^ 62" by simp
qed

lemma make_hash_value_inject:
  assumes "map_option (make_hash hf MerkleDB) (map_option VdValue v) = map_option (make_hash hf MerkleDB) (map_option VdValue w)"
  shows "v = w \<or> collide hf (set_option v) (set_option w)"
proof (cases "v = w")
  case False
  then obtain a b where ab: "v = Some a" "w = Some b" "a \<noteq> b" using assms by (cases v; cases w) auto
  then have "hf_sha256 hf a = hf_sha256 hf b" using assms by (auto split: if_splits)
  then show ?thesis using ab by (auto intro: collideI)
qed simp

lemma root_determined:
  assumes hf: "varint (hf_encode_var hf) rdv" "digests_ok hf"
    and t: "canon t" "canon t'" "valid_t t" "valid_t t'" "short_keys pfx t" "short_keys pfx t'"
    and eq: "merkledb_trie_hash hf t pfx = merkledb_trie_hash hf t' pfx"
    and same: "tpath t = tpath t' \<Longrightarrow> tvalue t = tvalue t' \<Longrightarrow>
      sh_child_hashes (trie_shunt hf t pfx) = sh_child_hashes (trie_shunt hf t' pfx) \<Longrightarrow>
      t = t' \<or> collide hf (hash_inputs hf t pfx) (hash_inputs hf t' pfx)"
  shows "t = t' \<or> collide hf (hash_inputs hf t pfx) (hash_inputs hf t' pfx)"
proof (cases "merkledb_write_preimage hf (trie_shunt hf t pfx) = merkledb_write_preimage hf (trie_shunt hf t' pfx)")
  case True
  have *: "sh_child_hashes (trie_shunt hf t pfx) = sh_child_hashes (trie_shunt hf t' pfx) \<and>
    sh_full_path (trie_shunt hf t pfx) = sh_full_path (trie_shunt hf t' pfx) \<and>
    map_option (make_hash hf MerkleDB) (sh_value (trie_shunt hf t pfx)) =
    map_option (make_hash hf MerkleDB) (sh_value (trie_shunt hf t' pfx))"
    by (rule merkledb_preimage_inject [OF hf trie_shunt_hashed [OF hf(2)] _ _ trie_shunt_hashed [OF hf(2)] _ _ True])
      (use short_keys_path [OF t(1,5)] short_keys_path [OF t(2,6)] in \<open>auto simp: trie_shunt_sel value_ok_def\<close>)
  then have "tpath t = tpath t'"
    using comps_inject [OF valid_t_tpath [OF t(3)] valid_t_tpath [OF t(4)]] by (simp add: trie_shunt_sel)
  moreover have "tvalue t = tvalue t' \<or> collide hf (set_option (tvalue t)) (set_option (tvalue t'))"
    using * make_hash_value_inject by (simp add: trie_shunt_sel)
  ultimately show ?thesis using same * collide_mono [OF _ trie_shunt_inputs(2) trie_shunt_inputs(2)] by blast
next
  case False
  then show ?thesis using eq collideI [OF trie_shunt_inputs(1) trie_shunt_inputs(1) False] by (simp add: trie_hash_shunt)
qed

lemma trie_hash_binding:
  assumes "varint (hf_encode_var hf) rdv" "digests_ok hf"
  shows "canon t \<Longrightarrow> canon t' \<Longrightarrow> valid_t t \<Longrightarrow> valid_t t' \<Longrightarrow> short_keys pfx t \<Longrightarrow> short_keys pfx t' \<Longrightarrow>
    merkledb_trie_hash hf t pfx = merkledb_trie_hash hf t' pfx \<Longrightarrow>
    t = t' \<or> collide hf (hash_inputs hf t pfx) (hash_inputs hf t' pfx)"
proof (induction t arbitrary: t' pfx rule: trie_induct)
  case (TLeaf p v)
  show ?case
  proof (rule root_determined [OF assms TLeaf.prems])
    assume eq: "tpath (TLeaf p v) = tpath t'" "tvalue (TLeaf p v) = tvalue t'"
      "sh_child_hashes (trie_shunt hf (TLeaf p v) pfx) = sh_child_hashes (trie_shunt hf t' pfx)"
    have "TLeaf p v = t'"
    proof (cases t')
      case (TBranch q w us)
      have "us c = None" for c using fun_cong [OF eq(3), of c] by (simp add: TBranch shunt_new_def)
      then show ?thesis using TLeaf.prems(2) TBranch by simp
    qed (use eq in simp)
    then show "TLeaf p v = t' \<or> collide hf (hash_inputs hf (TLeaf p v) pfx) (hash_inputs hf t' pfx)" ..
  qed
next
  case (TBranch p v ts)
  show ?case
  proof (rule root_determined [OF assms TBranch.prems])
    assume eq: "tpath (TBranch p v ts) = tpath t'" "tvalue (TBranch p v ts) = tvalue t'"
      "sh_child_hashes (trie_shunt hf (TBranch p v ts) pfx) = sh_child_hashes (trie_shunt hf t' pfx)"
    show "TBranch p v ts = t' \<or> collide hf (hash_inputs hf (TBranch p v ts) pfx) (hash_inputs hf t' pfx)"
    proof (cases t')
      case (TLeaf q w)
      have "ts c = None" for c using fun_cong [OF eq(3), of c] by (simp add: TLeaf shunt_new_def)
      then show ?thesis using TBranch.prems(1) by simp
    next
      case t': (TBranch q w us)
      have hash: "map_option (\<lambda>t. merkledb_trie_hash hf t (pfx @ p @ [as_u8 c])) (ts c) =
          map_option (\<lambda>t. merkledb_trie_hash hf t (pfx @ p @ [as_u8 c])) (us c)" for c
        using fun_cong [OF eq(3), of c] eq(1) by (simp add: t' shunt_new_def)
      have "ts c = us c \<or> collide hf (hash_inputs hf (TBranch p v ts) pfx) (hash_inputs hf t' pfx)" for c
      proof (cases "ts c")
        case None
        then show ?thesis using hash [of c] by simp
      next
        case (Some t)
        then obtain u where u: "us c = Some u" "merkledb_trie_hash hf t (pfx @ p @ [as_u8 c]) = merkledb_trie_hash hf u (pfx @ p @ [as_u8 c])"
          using hash [of c] by (cases "us c") auto
        have "t = u \<or> collide hf (hash_inputs hf t (pfx @ p @ [as_u8 c])) (hash_inputs hf u (pfx @ p @ [as_u8 c]))"
          by (rule TBranch.IH [OF Some _ _ _ _ _ _ u(2)])
            (use TBranch.prems Some u(1) eq(1) short_keys_child [of pfx p v ts c t] short_keys_child [of pfx p w us c u] in \<open>auto simp: t'\<close>)
        then show ?thesis
          using collide_mono [OF _ hash_inputs_child [of ts c t hf pfx p v] hash_inputs_child [of us c u hf pfx q w]] Some u(1) eq(1)
          by (auto simp: t' simp del: hash_inputs.simps)
      qed
      then have "ts = us \<or> collide hf (hash_inputs hf (TBranch p v ts) pfx) (hash_inputs hf t' pfx)" by blast
      then show ?thesis using eq by (auto simp: t')
    qed
  qed
qed

end
