(* ===== verification/Eth_Laws.thy ===== *)
theory Eth_Laws
  imports Hash_Binding
begin

section \<open>Accounts under the Ethereum scheme\<close>

text \<open>
  The two places that splice a storage root into an account, \<open>EthHash::write_preimage\<close> and
  \<open>fix_account_storage_root_value\<close>, agree byte for byte, so storing the spliced value does not change the
  hash of the account. Then what the hashes look like that the scheme hands to a parent node.
\<close>

subsection \<open>The two splices agree\<close>

lemma iter_present_single:
  assumes "children_count hs = 1"
  obtains i h where "iter_present hs = [(i, h)]" "hs i = Some h" "fst (take_only_child hs) = Some (i, h)"
proof -
  have "length (iter_present hs) = 1" using assms by (simp add: length_iter_present)
  then obtain e where e: "iter_present hs = [e]" by (auto simp: length_Suc_conv)
  obtain i h where ih: "e = (i, h)" by fastforce
  then have "hs i = Some h" using set_iter_present [of i h hs] e by simp
  moreover have "fst (take_only_child hs) = Some (i, h)"
    using e ih \<open>hs i = Some h\<close> by (simp add: take_only_child_def children_take_def)
  ultimately show ?thesis using that e ih by blast
qed

lemma take_only_child_many:
  assumes "children_count hs \<noteq> 1"
  shows "fst (take_only_child hs) = None"
proof -
  have "length (iter_present hs) \<noteq> 1" using assms by (simp add: length_iter_present)
  then show ?thesis by (auto simp: take_only_child_def split: list.splits)
qed

text \<open>The storage root that the pre-image of an account uses is the one \<open>compute_storage_trie_root\<close> computes.\<close>

lemma storage_root_branch:
  assumes "children_count (sh_child_hashes n) \<noteq> 0"
  shows "(if children_count (sh_child_hashes n) = 1
      then into_triehash (hf_keccak256 hf) (snd (hd (iter_present (sh_child_hashes n))))
      else hf_keccak256 hf (encode_list (eth_branch_items True n))) = compute_storage_trie_root hf (sh_child_hashes n)"
proof (cases "children_count (sh_child_hashes n) = 1")
  case True
  from iter_present_single [OF this] obtain i h where "iter_present (sh_child_hashes n) = [(i, h)]"
    "fst (take_only_child (sh_child_hashes n)) = Some (i, h)" by metis
  then show ?thesis using True by (simp add: compute_storage_trie_root_def)
next
  case False
  then show ?thesis using assms take_only_child_many [OF False]
    by (simp add: compute_storage_trie_root_def eth_branch_items_def)
qed

lemma eth_updated_bytes_account:
  assumes "children_count (sh_child_hashes n) \<noteq> 0" "sh_value n = Some (VdValue v)"
  shows "eth_updated_bytes hf True n (encode_list (eth_branch_items True n)) =
    (case fix_account_storage_root_value hf v (sh_child_hashes n) of Some v' \<Rightarrow> v' | None \<Rightarrow> v)"
  using storage_root_branch [OF assms(1), of hf]
  by (auto simp: eth_updated_bytes_def assms(2) fix_account_storage_root_value_def ok_option_def Let_def split: sum.splits)

lemma eth_leaf_preimage_account:
  assumes "children_count (sh_child_hashes n) = 0" "sh_value n = Some (VdValue v)"
  shows "eth_leaf_preimage True n = encode_list [RlpBytes (nibbles_to_eth_compact (sh_partial_path n) True),
    RlpBytes (case fix_account_storage_root_value hf v (sh_child_hashes n) of Some v' \<Rightarrow> v' | None \<Rightarrow> v)]"
  using assms by (auto simp: eth_leaf_preimage_def fix_account_storage_root_value_def compute_storage_trie_root_def
      Let_def split: option.splits)

definition account_preimage :: "hashable_shunt \<Rightarrow> u8 list \<Rightarrow> u8 list" where
  "account_preimage n v =
     (if children_count (sh_child_hashes n) \<noteq> 0 \<and> sh_partial_path n = [] then v
      else encode_list [RlpBytes (nibbles_to_eth_compact (sh_partial_path n) True), RlpBytes v])"

lemma eth_account_preimage:
  assumes "length (sh_full_path n) = 64" "sh_value n = Some (VdValue v)"
  shows "eth_write_preimage hf n = account_preimage n
    (case fix_account_storage_root_value hf v (sh_child_hashes n) of Some v' \<Rightarrow> v' | None \<Rightarrow> v)"
  using assms eth_updated_bytes_account [of n v hf] eth_leaf_preimage_account [of n v hf]
  by (simp add: eth_write_preimage_def account_preimage_def Let_def)

lemma length_EMPTY_TRIE_ROOT [simp]: "length EMPTY_TRIE_ROOT = 32"
  by (simp add: EMPTY_TRIE_ROOT_def)

lemma length_storage_root:
  assumes "digests_ok hf" "\<And>c b. hs c = Some (Hash b) \<Longrightarrow> length b = 32"
  shows "length (compute_storage_trie_root hf hs) = 32"
proof (cases "children_count hs = 1")
  case True
  from iter_present_single [OF this] obtain i h where h: "hs i = Some h" "fst (take_only_child hs) = Some (i, h)" by metis
  then show ?thesis using assms True by (cases h) (auto simp: compute_storage_trie_root_def digests_ok_def)
next
  case False
  then show ?thesis using assms take_only_child_many [OF False] by (simp add: compute_storage_trie_root_def digests_ok_def)
qed

lemma fix_account_idem:
  assumes "fix_account_storage_root_value hf v hs = Some v'" "length (compute_storage_trie_root hf hs) = 32"
    "length v + 60 < 2 ^ 64"
  shows "fix_account_storage_root_value hf v' hs = Some v'"
proof -
  let ?r = "compute_storage_trie_root hf hs"
  have r: "replace_list_field v 2 ?r = Inr v'"
    using assms(1) by (auto simp: fix_account_storage_root_value_def ok_option_def split: sum.splits)
  have "length v' < 2 ^ 64" by (rule replace_list_field_length [OF r]) (use assms(2,3) in simp_all)
  then have "replace_list_field v' 2 ?r = Inr v'" using replace_replace_field [OF r, of ?r] assms(3) r by simp
  then show ?thesis by (simp add: fix_account_storage_root_value_def ok_option_def)
qed

lemma eth_preimage_splice:
  assumes "length (sh_full_path n) = 64" "sh_value n = Some (VdValue v)"
    "fix_account_storage_root_value hf v (sh_child_hashes n) = Some v'"
    "length (compute_storage_trie_root hf (sh_child_hashes n)) = 32" "length v + 60 < 2 ^ 64"
  shows "eth_write_preimage hf (n\<lparr>sh_value := Some (VdValue v')\<rparr>) = eth_write_preimage hf n"
  using eth_account_preimage [OF assms(1,2), of hf] eth_account_preimage [of "n\<lparr>sh_value := Some (VdValue v')\<rparr>" v' hf]
    fix_account_idem [OF assms(3-5)] assms(1,3)
  by (simp add: account_preimage_def sh_full_path_def)

definition node_hashes :: "node \<Rightarrow> hash_type option children" where
  "node_hashes n = (case n of Branch _ _ cs \<Rightarrow> children_hashes cs | Leaf _ _ \<Rightarrow> children_new)"

lemma from_node_eq:
  "from_node pfx n = rbind (as_components (partial_path n)) (\<lambda>ppath.
     Inr (shunt_new pfx ppath (map_option VdValue (node_value n)) (node_hashes n)))"
  by (cases n) (simp_all add: node_hashes_def)

lemma update_account_storage_root_eq:
  "update_account_storage_root hf n pfx =
     (if length pfx + length (partial_path n) \<noteq> 64 then n
      else case Option.bind (node_value n) (\<lambda>v. fix_account_storage_root_value hf v (node_hashes n)) of
             Some v' \<Rightarrow> update_value n v'
           | None \<Rightarrow> n)"
  by (cases n) (auto simp: node_hashes_def split: option.splits)

lemma node_hashes_update_value [simp]: "node_hashes (update_value n v) = node_hashes n" "partial_path (update_value n v) = partial_path n"
  by (cases n; simp add: node_hashes_def)+

lemma as_components_length: "as_components p = Inr cs \<Longrightarrow> length cs = length p"
  by (induction p arbitrary: cs) (auto simp: rbind_def split: option.splits sum.splits)

lemma hash_node_splice:
  assumes "digests_ok hf" "\<And>c b. node_hashes n c = Some (Hash b) \<Longrightarrow> length b = 32"
    "\<And>v. node_value n = Some v \<Longrightarrow> length v + 60 < 2 ^ 64"
  shows "hash_node hf Ethereum (update_account_storage_root hf n pfx) pfx = hash_node hf Ethereum n pfx"
proof (cases "length pfx + length (partial_path n) = 64 \<and>
    Option.bind (node_value n) (\<lambda>v. fix_account_storage_root_value hf v (node_hashes n)) \<noteq> None")
  case False
  then show ?thesis by (auto simp: update_account_storage_root_eq)
next
  case True
  then obtain v v' where v: "node_value n = Some v" "fix_account_storage_root_value hf v (node_hashes n) = Some v'"
    by (cases "node_value n") auto
  have upd: "update_account_storage_root hf n pfx = update_value n v'" using True v by (simp add: update_account_storage_root_eq)
  have "eth_to_hash hf (shunt_new ppfx ppath (Some (VdValue v')) (node_hashes n)) =
      eth_to_hash hf (shunt_new ppfx ppath (Some (VdValue v)) (node_hashes n))"
    if "as_components pfx = Inr ppfx" "as_components (partial_path n) = Inr ppath" for ppfx ppath
    using eth_preimage_splice [of "shunt_new ppfx ppath (Some (VdValue v)) (node_hashes n)" v hf v']
      True that v(2) length_storage_root [OF assms(1,2)] assms(3) [OF v(1)]
    by (simp add: eth_to_hash_def shunt_new_def sh_full_path_def as_components_length)
  then show ?thesis unfolding upd
    by (cases "as_components pfx"; cases "as_components (partial_path n)") (simp_all add: hash_node_def from_node_eq v(1))
qed

lemma compute_storage_trie_root_single:
  "compute_storage_trie_root hf ((\<lambda>_. None)(c := Some h)) = into_triehash (hf_keccak256 hf) h"
proof -
  have one: "children_count ((\<lambda>_. None)(c := Some h)) = 1" by (simp add: children_count_card)
  from iter_present_single [OF this] obtain i g where "((\<lambda>_. None)(c := Some h)) i = Some g"
    "fst (take_only_child ((\<lambda>_. None)(c := Some h))) = Some (i, g)" by metis
  then show ?thesis using one by (auto simp: compute_storage_trie_root_def split: if_splits)
qed

subsection \<open>The form of hashes\<close>

lemma write_header_nonempty: "write_header n b \<noteq> []"
  by (simp add: write_header_def Let_def)

lemma encode_list_nonempty: "encode_list items \<noteq> []"
  by (simp add: encode_list_def Let_def write_header_nonempty)

lemma fix_account_nonempty: "fix_account_storage_root_value hf v hs = Some v' \<Longrightarrow> v' \<noteq> []"
  by (auto simp: fix_account_storage_root_value_def ok_option_def replace_list_field_def rbind_def Let_def
      write_header_nonempty split: sum.splits if_splits prod.splits)

lemma eth_preimage_nonempty:
  assumes "sh_value n \<noteq> Some (VdValue [])"
  shows "eth_write_preimage hf n \<noteq> []"
proof (cases "length (sh_full_path n) = 64 \<and> (\<exists>v. sh_value n = Some (VdValue v))")
  case True
  then obtain v where v: "length (sh_full_path n) = 64" "sh_value n = Some (VdValue v)" by blast
  then have "v \<noteq> []" using assms by auto
  then show ?thesis using fix_account_nonempty [of hf v "sh_child_hashes n"]
    by (auto simp: eth_account_preimage [OF v] account_preimage_def encode_list_nonempty split: option.splits)
next
  case False
  then have "eth_updated_bytes hf (length (sh_full_path n) = 64) n bytes = bytes" for bytes
    by (auto simp: eth_updated_bytes_def split: option.splits value_digest.splits)
  then show ?thesis
    by (simp add: eth_write_preimage_def Let_def encode_list_nonempty eth_leaf_preimage_def)
qed

lemma to_hash_storable:
  assumes "digests_ok hf" "alg = Ethereum \<Longrightarrow> sh_value n \<noteq> Some (VdValue [])"
  shows "storable_hash alg (to_hash hf alg n)"
proof (cases alg)
  case MerkleDB
  then show ?thesis using assms(1) by (simp add: merkledb_to_hash_def digests_ok_def)
next
  case Ethereum
  then have "eth_write_preimage hf n \<noteq> []" using eth_preimage_nonempty assms(2) by blast
  then have "1 \<le> length (eth_write_preimage hf n)" by (cases "eth_write_preimage hf n") auto
  then show ?thesis using Ethereum assms(1) by (simp add: eth_to_hash_def digests_ok_def Let_def)
qed

lemma replace_list_field_Nil: "replace_list_field [] i r = Inl Truncated"
  by (simp add: replace_list_field_def parse_header_def)

lemma eth_empty_account:
  assumes "length (sh_full_path n) = 64" "sh_partial_path n = []" "sh_value n = Some (VdValue [])"
    "children_count (sh_child_hashes n) \<noteq> 0"
  shows "eth_to_hash hf n = Rlp []"
  using assms eth_account_preimage [OF assms(1,3), of hf]
  by (simp add: eth_to_hash_def account_preimage_def fix_account_storage_root_value_def replace_list_field_Nil ok_option_def)

subsection \<open>Hex-prefix paths\<close>

lemma pairs2_inject: "even (length a) \<Longrightarrow> even (length b) \<Longrightarrow> pairs2 a = pairs2 b \<Longrightarrow> a = b"
proof (induction a arbitrary: b rule: pairs2.induct)
  case (1 hi lo ns)
  then obtain h l ms where "b = h # l # ms" by (cases b rule: pairs2.cases) auto
  then show ?case using 1 by simp
next
  case "2_1"
  then show ?case by (cases b rule: pairs2.cases) auto
qed auto

lemma compact_first_byte:
  fixes c :: pc
  shows "bit ((if l then 0x20 else 0) OR 0x10 OR as_u8 c :: u8) 5 = l" "bit ((if l then 0x20 else 0) OR 0x10 OR as_u8 c :: u8) 4"
    "ucast ((if l then 0x20 else 0) OR 0x10 OR as_u8 c :: u8) = c"
    "bit ((if l then 0x20 else 0) :: u8) 5 = l" "\<not> bit ((if l then 0x20 else 0) :: u8) 4"
proof -
  have c: "\<not> bit (as_u8 c) 5" unfolding as_u8_def by (simp add: bit_ucast_iff) (metis not_bit_u4 numeral_Bit0 numeral_Bit1 add.assoc numeral_plus_one)
  show "bit ((if l then 0x20 else 0) OR 0x10 OR as_u8 c :: u8) 5 = l" using c by (simp add: bit_or_iff)
  have z: "(16 :: pc) = 0" "(32 :: pc) = 0" by simp_all
  have "ucast ((if l then 0x20 else 0) OR 0x10 OR as_u8 c :: u8) = (if l then 32 else 0) OR 16 OR c"
    by (simp add: unsigned_or_eq)
  then show "ucast ((if l then 0x20 else 0) OR 0x10 OR as_u8 c :: u8) = c" unfolding z by simp
qed (auto simp: bit_or_iff)

lemma map_join_inject: "map (\<lambda>(hi, lo). join hi lo) xs = map (\<lambda>(hi, lo). join hi lo) ys \<Longrightarrow> xs = ys"
proof (induction xs arbitrary: ys)
  case (Cons x xs)
  then obtain y ys' where ys: "ys = y # ys'" by (cases ys) auto
  have "new_pair (join (fst x) (snd x)) = new_pair (join (fst y) (snd y))" using Cons.prems by (simp add: ys case_prod_beta)
  then show ?case using Cons by (simp add: ys prod_eq_iff)
qed simp

definition compact_first :: "pc list \<Rightarrow> bool \<Rightarrow> u8" where
  "compact_first ns l = (case take (length ns mod 2) ns of
     [c] \<Rightarrow> (if l then 0x20 else 0) OR 0x10 OR as_u8 c | _ \<Rightarrow> (if l then 0x20 else 0))"

lemma nibbles_to_eth_compact_eq:
  "nibbles_to_eth_compact ns l = compact_first ns l # map (\<lambda>(hi, lo). join hi lo) (pairs2 (drop (length ns mod 2) ns))"
  by (cases l) (simp_all add: nibbles_to_eth_compact_def as_rchunks2_def compact_first_def Let_def)

lemma odd_take_single: "odd (length ns) \<Longrightarrow> \<exists>c. take (length ns mod 2) ns = [c]"
  by (cases ns) (auto simp: odd_iff_mod_2_eq_one)

lemma compact_first_bits: "bit (compact_first ns l) 4 = odd (length ns)" "bit (compact_first ns l) 5 = l"
proof -
  have "bit (compact_first ns l) 4 = odd (length ns) \<and> bit (compact_first ns l) 5 = l"
  proof (cases "odd (length ns)")
    case True
    then obtain c where "take (length ns mod 2) ns = [c]" using odd_take_single by blast
    then have "compact_first ns l = (if l then 0x20 else 0) OR 0x10 OR as_u8 c" by (simp add: compact_first_def)
    then show ?thesis using True compact_first_byte(1,2) [of l c] by metis
  next
    case False
    then have "compact_first ns l = (if l then 0x20 else 0)" by (simp add: compact_first_def even_iff_mod_2_eq_zero)
    then show ?thesis using False compact_first_byte(4,5) [of l] by metis
  qed
  then show "bit (compact_first ns l) 4 = odd (length ns)" "bit (compact_first ns l) 5 = l" by blast+
qed

lemma eth_compact_inject:
  assumes "nibbles_to_eth_compact a l = nibbles_to_eth_compact b m"
  shows "a = b \<and> l = m"
proof -
  have eq: "compact_first a l = compact_first b m" "pairs2 (drop (length a mod 2) a) = pairs2 (drop (length b mod 2) b)"
    using assms map_join_inject unfolding nibbles_to_eth_compact_eq by auto
  have par: "odd (length a) = odd (length b)" "l = m" using compact_first_bits [of a l] compact_first_bits [of b m] eq(1) by auto
  have "take (length a mod 2) a = take (length b mod 2) b"
  proof (cases "odd (length a)")
    case True
    then obtain c d where cd: "take (length a mod 2) a = [c]" "take (length b mod 2) b = [d]" using odd_take_single par(1) by metis
    then have "compact_first a l = (if l then 0x20 else 0) OR 0x10 OR as_u8 c"
      "compact_first b m = (if m then 0x20 else 0) OR 0x10 OR as_u8 d" by (simp_all add: compact_first_def)
    then have "c = d" using eq(1) compact_first_byte(3) [of l c] compact_first_byte(3) [of m d] by metis
    then show ?thesis using cd by simp
  qed (use par in \<open>simp add: even_iff_mod_2_eq_zero\<close>)
  moreover have "drop (length a mod 2) a = drop (length b mod 2) b"
    by (rule pairs2_inject [OF _ _ eq(2)]) (auto simp: even_iff_mod_2_eq_zero minus_mod_eq_mult_div)
  ultimately show ?thesis using par(2) by (metis append_take_drop_id)
qed

lemma rlp_header_len_le: "n < 2 ^ 64 \<Longrightarrow> rlp_header_len n \<le> 9"
  using minimal_be_len_le [of n] by (simp add: rlp_header_len_def)

lemma length_rlp_write_bytes_le: "length b < 2 ^ 64 \<Longrightarrow> length (rlp_write_bytes b) \<le> length b + 9"
  using rlp_header_len_le [of "length b"] by (simp add: length_rlp_write_bytes bytes_encoded_len_def)

lemma length_pairs2: "length (pairs2 ns) \<le> length ns"
  by (induction ns rule: pairs2.induct) auto

lemma length_compact: "length (nibbles_to_eth_compact ns l) \<le> length ns + 1"
  using length_pairs2 [of "drop (length ns mod 2) ns"] by (simp add: nibbles_to_eth_compact_eq)

end
