(* ===== verification/Hash_Properties.thy ===== *)
theory Hash_Properties
  imports Trie_Properties Hash_Updates Eth_Laws
begin

section \<open>What hashing guarantees\<close>

text \<open>
  The properties of \<open>NodeStore::hash_helper\<close> and of the two hashing schemes. The digests are parameters:
  the properties hold for any functions with outputs of 32 bytes, and those about the MerkleDB pre-image
  for any varint encoding that can be read back.
\<close>

subsection \<open>Sample digests and nodes\<close>

definition sample_hf :: hash_fns where
  "sample_hf = \<lparr>hf_sha256 = (\<lambda>bs. take 32 (rev bs @ replicate 32 0)),
     hf_keccak256 = (\<lambda>bs. take 32 (bs @ replicate 32 1)), hf_encode_var = leb128_encode\<rparr>"

lemma sample_hf_ok: "digests_ok sample_hf" "varint (hf_encode_var sample_hf) (leb128_read 10)"
  by (simp_all add: digests_ok_def sample_hf_def leb128.varint_axioms min_def)

definition sample_hashed_root :: node where
  "sample_hashed_root = Branch [] (Some [1]) (children_new(
     0 := Some (AddressWithHash 16 (merkledb_trie_hash sample_hf (TLeaf [3] [7]) [as_u8 0]))))"

definition sample_hashed_store :: mutable_store where
  "sample_hashed_store = \<lparr>ms_root = Some sample_hashed_root, ms_inner = Propose [Persisted 32], ms_tracking = Enabled\<rparr>"

lemma sample_hashed_repr: "repr sample_reader sample_hashed_root sample_trie {# Persisted 16 #}"
proof -
  define As where "As = (\<lambda>_ :: pc. {#} :: maybe_persisted multiset)(0 := {# Persisted 16 #})"
  have "repr sample_reader sample_hashed_root sample_trie (\<Sum>c \<in> UNIV. As c)"
    unfolding sample_hashed_root_def sample_trie_def
    by (rule repr_Branch) (auto simp: As_def sample_reader_def repr_Leaf)
  moreover have "(\<Sum>c \<in> UNIV. As c) = {# Persisted 16 #}" unfolding As_def sum_upd_pc by simp
  ultimately show ?thesis by simp
qed

lemma sample_hashes_ok: "hashes_ok sample_hf sample_reader [] sample_hashed_root"
  unfolding sample_hashed_root_def
  by (rule hashes_ok_Branch)
    (auto simp: sample_reader_def simp del: merkledb_trie_hash.simps
      intro!: hashes_ok_Leaf exI [of _ "TLeaf [3] [7]"] exI [of _ "{#}"] repr_Leaf split: if_splits)

lemma sample_hashed_wf: "wf_store sample_reader sample_hashed_store (Some sample_trie) {# Persisted 16 #}"
  using sample_wf sample_hashed_repr by (simp add: wf_store_def sample_store_def sample_hashed_store_def)

lemma sample_store_hashes: "store_hashes_ok sample_hf sample_reader sample_hashed_store"
  by (simp add: store_hashes_ok_def sample_hashed_store_def sample_hashes_ok)

subsection \<open>The root hash\<close>

text \<open>
  C27. Incremental hashing computes the hash of the whole trie. When the hashes that the children of a node
  carry are right, \<open>hash_helper\<close> under the MerkleDB scheme, which reads no child that is already hashed,
  returns the hash that \<open>merkledb_trie_hash\<close> computes from the trie alone. The node it returns is in
  memory, stands for the same trie, has a hash for every child, and all its hashes are right again.
\<close>

theorem hash_helper_is_trie_hash:
  assumes "repr rd n t A" "valid_t t" "hashes_ok hf rd [] n"
  shows "\<exists>n' A'. hash_helper hf MerkleDB rd n [] = Inr (Unpersisted n', merkledb_trie_hash hf t []) \<and>
    repr rd n' t A' \<and> hashes_ok hf rd [] n' \<and> fully_hashed n'"
  using hash_helper_inner_merkledb [OF assms(1,2) valid_path_Nil assms(3)]
  by (auto simp: hash_helper_def hashing_ok_def)

theorem hash_helper_is_trie_hash_witness:
  "repr sample_reader sample_hashed_root sample_trie {# Persisted 16 #} \<and> valid_t sample_trie \<and>
   hashes_ok sample_hf sample_reader [] sample_hashed_root \<and>
   (\<exists>n' A'. hash_helper sample_hf MerkleDB sample_reader sample_hashed_root [] =
      Inr (Unpersisted n', merkledb_trie_hash sample_hf sample_trie []) \<and>
    repr sample_reader n' sample_trie A' \<and> hashes_ok sample_hf sample_reader [] n' \<and> fully_hashed n')"
proof -
  have "valid_t sample_trie" by (auto simp: sample_trie_def)
  then show ?thesis
    using hash_helper_is_trie_hash [OF sample_hashed_repr _ sample_hashes_ok] sample_hashed_repr sample_hashes_ok by blast
qed

lemma batch_then_hash:
  assumes "wf_store rd s t A" "store_hashes_ok hf rd s" "list_all (\<lambda>op. check_batch_op MerkleDB op = Inr ()) ops"
  obtains s' t' A' where "apply_batch_serial rd MerkleDB s (map Inr ops) = Inr s'" "wf_store rd s' t' A'"
    "store_contents rd s' = fold op_map ops (store_contents rd s)" "store_hashes_ok hf rd s'"
    "\<And>n u. ms_root s' = Some n \<Longrightarrow> t' = Some u \<Longrightarrow> \<exists>m. hash_helper hf MerkleDB rd n [] = Inr (m, merkledb_trie_hash hf u [])"
proof -
  have "ledger rd None s" using assms(1) by (auto simp: ledger_def)
  from trie_store.batch_contents [OF this, of ops MerkleDB] assms(3) [unfolded list_all_iff] obtain s' where
    s': "apply_batch_serial rd MerkleDB s (map Inr ops) = Inr s'" "ledger rd None s'"
    "store_contents rd s' = fold op_map ops (store_contents rd s)"
    unfolding apply_batch_serial_def by blast
  then obtain t' A' where wf: "wf_store rd s' t' A'" by (auto simp: ledger_def)
  have ok: "store_hashes_ok hf rd s'" by (rule apply_batch_hashes [OF s'(1) assms(2)])
  have "\<exists>m. hash_helper hf MerkleDB rd n [] = Inr (m, merkledb_trie_hash hf u [])" if "ms_root s' = Some n" "t' = Some u" for n u
    using hash_helper_inner_merkledb [of rd n u A' "[]" hf] wf ok that
    by (auto simp: wf_store_def store_hashes_ok_def hash_helper_def hashing_ok_def)
  then show ?thesis using that s' wf ok by blast
qed

text \<open>
  C28. A root hash is a function of the contents. Take two well-formed stores over any storage, with right
  stored hashes, and apply to each a batch whose operations all pass \<open>check_batch_op\<close>. If the maps the
  batches lead to are equal, then both batches succeed, and either both tries are empty or hashing both
  roots with \<open>hash_helper\<close> under the MerkleDB scheme succeeds with the same hash.
\<close>

theorem root_hash_of_contents:
  assumes "wf_store rd s t A" "store_hashes_ok hf rd s" "list_all (\<lambda>op. check_batch_op MerkleDB op = Inr ()) ops"
    and "wf_store rd' s' t' A'" "store_hashes_ok hf rd' s'" "list_all (\<lambda>op. check_batch_op MerkleDB op = Inr ()) ops'"
    and "fold op_map ops (store_contents rd s) = fold op_map ops' (store_contents rd' s')"
  shows "\<exists>s1 s2. apply_batch_serial rd MerkleDB s (map Inr ops) = Inr s1 \<and>
    apply_batch_serial rd' MerkleDB s' (map Inr ops') = Inr s2 \<and>
    (case (ms_root s1, ms_root s2) of
       (None, None) \<Rightarrow> True
     | (Some n1, Some n2) \<Rightarrow>
         (\<exists>m1 m2 h. hash_helper hf MerkleDB rd n1 [] = Inr (m1, h) \<and> hash_helper hf MerkleDB rd' n2 [] = Inr (m2, h))
     | _ \<Rightarrow> False)"
proof -
  obtain s1 t1 A1 where s1: "apply_batch_serial rd MerkleDB s (map Inr ops) = Inr s1" "wf_store rd s1 t1 A1"
    "store_contents rd s1 = fold op_map ops (store_contents rd s)"
    "\<And>n u. ms_root s1 = Some n \<Longrightarrow> t1 = Some u \<Longrightarrow> \<exists>m. hash_helper hf MerkleDB rd n [] = Inr (m, merkledb_trie_hash hf u [])"
    using batch_then_hash [OF assms(1-3)] by metis
  obtain s2 t2 A2 where s2: "apply_batch_serial rd' MerkleDB s' (map Inr ops') = Inr s2" "wf_store rd' s2 t2 A2"
    "store_contents rd' s2 = fold op_map ops' (store_contents rd' s')"
    "\<And>n u. ms_root s2 = Some n \<Longrightarrow> t2 = Some u \<Longrightarrow> \<exists>m. hash_helper hf MerkleDB rd' n [] = Inr (m, merkledb_trie_hash hf u [])"
    using batch_then_hash [OF assms(4-6)] by metis
  have "store_contents rd s1 = store_contents rd' s2" using s1(3) s2(3) assms(7) by simp
  then have "get_value rd (ms_root s1) key = get_value rd' (ms_root s2) key" for key
    using get_value_wf [OF s1(2)] get_value_wf [OF s2(2)] store_contents_wf [OF s1(2)] store_contents_wf [OF s2(2)]
    by (metis (mono_tags))
  then have "t1 = t2" by (rule wf_store_unique [OF s1(2) s2(2)])
  then show ?thesis using s1 s2
    by (cases rule: wf_store_cases [OF s1(2)]; cases rule: wf_store_cases [OF s2(2)]) fastforce+
qed

theorem root_hash_of_contents_witness:
  "wf_store sample_reader sample_hashed_store (Some sample_trie) {# Persisted 16 #} \<and>
   store_hashes_ok sample_hf sample_reader sample_hashed_store \<and>
   list_all (\<lambda>op. check_batch_op MerkleDB op = Inr ()) [Put [8] [2], Delete [3]] \<and>
   list_all (\<lambda>op. check_batch_op MerkleDB op = Inr ()) [Delete [3], Put [8] [5], Put [8] [2]] \<and>
   (\<exists>s1 s2. apply_batch_serial sample_reader MerkleDB sample_hashed_store (map Inr [Put [8] [2], Delete [3]]) = Inr s1 \<and>
    apply_batch_serial sample_reader MerkleDB sample_hashed_store (map Inr [Delete [3], Put [8] [5], Put [8] [2]]) = Inr s2 \<and>
    (case (ms_root s1, ms_root s2) of
       (None, None) \<Rightarrow> True
     | (Some n1, Some n2) \<Rightarrow>
         (\<exists>m1 m2 h. hash_helper sample_hf MerkleDB sample_reader n1 [] = Inr (m1, h) \<and>
            hash_helper sample_hf MerkleDB sample_reader n2 [] = Inr (m2, h))
     | _ \<Rightarrow> False))"
proof -
  let ?c = "store_contents sample_reader sample_hashed_store"
  have ops: "list_all (\<lambda>op. check_batch_op MerkleDB op = Inr ()) [Put [8] [2], Delete [3]]"
    "list_all (\<lambda>op. check_batch_op MerkleDB op = Inr ()) [Delete [3], Put [8] [5], Put [8] [2]]"
    by (simp_all add: check_batch_op_ok MAX_KEY_BYTES_def)
  have "fold op_map [Put [8] [2], Delete [3]] ?c = fold op_map [Delete [3], Put [8] [5], Put [8] [2]] ?c"
    by (simp add: fun_eq_iff)
  from root_hash_of_contents [OF sample_hashed_wf sample_store_hashes ops(1) sample_hashed_wf sample_store_hashes ops(2) this]
  show ?thesis using sample_hashed_wf sample_store_hashes ops by blast
qed

text \<open>
  C29. A root hash binds the contents. Two canonical tries with keys below \<open>2 ^ 62\<close> nibbles that have the same
  root hash under the MerkleDB scheme are the same trie, unless two different strings collide under
  SHA-256 among those that were hashed for them: the pre-images of their nodes and their values.
\<close>

theorem root_hash_binds_contents:
  assumes "varint (hf_encode_var hf) rdv" "digests_ok hf"
    and "canon t" "canon t'" "valid_t t" "valid_t t'" "short_keys [] t" "short_keys [] t'"
    and "merkledb_trie_hash hf t [] = merkledb_trie_hash hf t' []"
  shows "t = t' \<or> (\<exists>x y. x \<in> hash_inputs hf t [] \<and> y \<in> hash_inputs hf t' [] \<and> x \<noteq> y \<and> hf_sha256 hf x = hf_sha256 hf y)"
  using trie_hash_binding [OF assms] by (auto simp: collide_def)

definition weak_hf :: hash_fns where
  "weak_hf = sample_hf\<lparr>hf_sha256 := (\<lambda>bs. replicate 32 0)\<rparr>"

theorem root_hash_binds_contents_witness:
  "varint (hf_encode_var weak_hf) (leb128_read 10) \<and> digests_ok weak_hf \<and> canon (TLeaf [1, 2] [7]) \<and>
   canon (TLeaf [1, 2] [8]) \<and> short_keys [] (TLeaf [1, 2] [7]) \<and> short_keys [] (TLeaf [1, 2] [8]) \<and>
   merkledb_trie_hash weak_hf (TLeaf [1, 2] [7]) [] = merkledb_trie_hash weak_hf (TLeaf [1, 2] [8]) [] \<and>
   (\<exists>x y. x \<in> hash_inputs weak_hf (TLeaf [1, 2] [7]) [] \<and> y \<in> hash_inputs weak_hf (TLeaf [1, 2] [8]) [] \<and>
      x \<noteq> y \<and> hf_sha256 weak_hf x = hf_sha256 weak_hf y)"
proof -
  have hf: "varint (hf_encode_var weak_hf) (leb128_read 10)" "digests_ok weak_hf"
    using sample_hf_ok by (simp_all add: weak_hf_def digests_ok_def)
  have tries: "canon (TLeaf [1, 2] [7])" "canon (TLeaf [1, 2] [8])" "valid_t (TLeaf [1, 2] [7])" "valid_t (TLeaf [1, 2] [8])"
    "short_keys [] (TLeaf [1, 2] [7])" "short_keys [] (TLeaf [1, 2] [8])"
    by (simp_all add: short_keys_def)
  have eq: "merkledb_trie_hash weak_hf (TLeaf [1, 2] [7]) [] = merkledb_trie_hash weak_hf (TLeaf [1, 2] [8]) []"
    by (simp add: weak_hf_def merkledb_to_hash_def)
  have "TLeaf [1, 2] [7] \<noteq> TLeaf [1, 2] [8]" by simp
  then show ?thesis using root_hash_binds_contents [OF hf tries eq] hf tries eq by blast
qed

subsection \<open>The Ethereum scheme\<close>

text \<open>
  C30. The RLP decoder is exact. For a buffer of fewer than \<open>2 ^ 64\<close> bytes, \<open>RlpList::parse\<close> followed by
  \<open>fields\<close> gives the byte strings \<open>xs\<close> exactly when the buffer is what \<open>encode_list\<close> writes for \<open>xs\<close>. So
  encoding and decoding are inverse to each other, and no second encoding of a list is accepted.
\<close>

theorem rlp_decoder_exact:
  assumes "length bytes < 2 ^ 64"
  shows "rbind (rlp_parse bytes) rlp_fields = Inr xs \<longleftrightarrow> bytes = encode_list (map RlpBytes xs)"
  using rlp_fields_encode rlp_fields_canonical assms by blast

theorem rlp_decoder_exact_witness:
  "length ([0xc4, 0x82, 0x90, 0x01, 0x05] :: u8 list) < 2 ^ 64 \<and>
   rbind (rlp_parse [0xc4, 0x82, 0x90, 0x01, 0x05]) rlp_fields = Inr [[0x90, 0x01], [0x05]]"
proof -
  have enc: "[0xc4, 0x82, 0x90, 0x01, 0x05] = encode_list (map RlpBytes [[0x90, 0x01], [0x05]])" by code_simp
  have len: "length ([0xc4, 0x82, 0x90, 0x01, 0x05] :: u8 list) < 2 ^ 64" by simp
  show ?thesis using iffD2 [OF rlp_decoder_exact [OF len] enc] len by blast
qed

text \<open>
  C31. The splice. On the encoding of a list of byte strings, \<open>replace_list_field\<close> gives the encoding of
  the list with that one field replaced, of any length, and reports an index past the end.
\<close>

theorem replace_list_field_exact:
  assumes "length (encode_list (map RlpBytes xs)) < 2 ^ 64" "i < 2 ^ 64"
    and "i < length xs \<Longrightarrow> length (encode_list (map RlpBytes (xs[i := r]))) < 2 ^ 64"
  shows "replace_list_field (encode_list (map RlpBytes xs)) i r =
    (if i < length xs then Inr (encode_list (map RlpBytes (xs[i := r]))) else Inl (IndexOutOfRange i))"
  using assms by (rule replace_field_encode)

theorem replace_list_field_exact_witness:
  "length (encode_list (map RlpBytes [[1], [2], [3]])) < 2 ^ 64 \<and>
   length (encode_list (map RlpBytes ([[1], [2], [3]][2 := [4, 5]]))) < 2 ^ 64 \<and>
   replace_list_field (encode_list (map RlpBytes [[1], [2], [3]])) 2 [4, 5] =
     Inr (encode_list (map RlpBytes [[1], [2], [4, 5]]))"
proof -
  have l: "length (encode_list (map RlpBytes [[1], [2], [3]])) = 4"
    "length (encode_list (map RlpBytes ([[1], [2], [3]][2 := [4, 5]]))) = 6" by code_simp+
  then have lt: "length (encode_list (map RlpBytes [[1], [2], [3]])) < 2 ^ 64"
    "length (encode_list (map RlpBytes ([[1], [2], [3]][2 := [4, 5]]))) < 2 ^ 64" by simp_all
  have "[[1], [2], [3]][2 := [4, 5]] = [[1], [2], [4, 5 :: u8]]" by code_simp
  then show ?thesis using replace_list_field_exact [OF lt(1), of 2 "[4, 5]"] lt by simp
qed


definition sample_account :: node where
  "sample_account = Branch (replicate 64 1) (Some (encode_list (map RlpBytes [[1], [2], [3], [4]])))
     ((\<lambda>_. None)(3 := Some (AddressWithHash 4096 (Rlp [0xc2, 1, 2]))))"





definition empty_account :: hashable_shunt where
  "empty_account = shunt_new (replicate 64 1) [] (Some (VdValue [])) (children_new(2 := Some (Rlp [0xc0])))"



definition short_branch :: hashable_shunt where
  "short_branch = shunt_new [1] [2] None (children_new(1 := Some (Rlp [0xc2, 0x20, 5]), 4 := Some (Rlp [0xc2, 0x20, 6])))"

lemma short_branch_length: "length (encode_list (eth_branch_items False short_branch)) = 22"
  by (simp add: short_branch_def shunt_new_def eth_branch_items_def children_iter_def pc_ALL_def upt_rec
      encode_list_def child_to_rlp_item_def children_new_def write_header_def)


text \<open>
  The hex-prefix encoding is injective: \<open>nibbles_to_eth_compact\<close> tells leaves from extensions and keeps
  every nibble of the path, odd or even.
\<close>

lemma eth_compact_injective:
  "nibbles_to_eth_compact a l = nibbles_to_eth_compact b m \<longleftrightarrow> a = b \<and> l = m"
  using eth_compact_inject by blast

end
