(* ===== verification/Range_Set.thy ===== *)
theory Range_Set
  imports Alloc
begin

section \<open>Range sets\<close>

text \<open>
  \<open>storage/src/checker/range_set.rs\<close>: a set of addresses as a \<open>BTreeMap\<close> from the end of each range to its
  start. The map is the list of its entries \<open>(end, start)\<close> in ascending order of the keys. The invariant
  \<open>rs_ok\<close>: the ranges are not empty, and each ends before the next starts, so that adjacent ranges are
  always coalesced. \<open>rs_set\<close> is the set of the values in the ranges.
\<close>

subsection \<open>An ordered map as a list of entries\<close>

type_synonym 'a btree_map = "('a \<times> 'a) list"

definition btree_insert :: "'a :: linorder \<Rightarrow> 'a \<Rightarrow> 'a btree_map \<Rightarrow> 'a btree_map" where
  "btree_insert k v m = takeWhile (\<lambda>e. fst e < k) m @ (k, v) # dropWhile (\<lambda>e. fst e \<le> k) m"

definition btree_remove :: "'a \<Rightarrow> 'a btree_map \<Rightarrow> 'a btree_map" where
  "btree_remove k m = filter (\<lambda>e. fst e \<noteq> k) m"

definition btree_range_from :: "'a :: linorder \<Rightarrow> 'a btree_map \<Rightarrow> 'a btree_map" where
  "btree_range_from k m = dropWhile (\<lambda>e. fst e < k) m"

subsection \<open>Operations\<close>

text \<open>A \<open>Range\<close> is its start and end.\<close>

type_synonym 'a range = "'a \<times> 'a"

definition opt_list :: "'a option \<Rightarrow> 'a list" where
  "opt_list m = (case m of None \<Rightarrow> [] | Some x \<Rightarrow> [x])"

record 'a coalescing_ranges =
  prev_adjacent_range :: "'a range option"
  intersecting_ranges :: "'a range list"
  next_adjacent_range :: "'a range option"

fun coalesce_loop ::
  "'a :: linorder range \<Rightarrow> 'a btree_map \<Rightarrow> 'a coalescing_ranges \<Rightarrow> 'a coalescing_ranges" where
  "coalesce_loop r [] acc = acc"
| "coalesce_loop (range_start, range_end) ((next_range_end, next_range_start) # items) acc =
     (if next_range_end = range_start
      then coalesce_loop (range_start, range_end) items
             (acc\<lparr>prev_adjacent_range := Some (next_range_start, next_range_end)\<rparr>)
      else if next_range_start < range_end
      then coalesce_loop (range_start, range_end) items
             (acc\<lparr>intersecting_ranges := intersecting_ranges acc @ [(next_range_start, next_range_end)]\<rparr>)
      else if next_range_start = range_end
      then acc\<lparr>next_adjacent_range := Some (next_range_start, next_range_end)\<rparr>
      else acc)"

definition get_coalescing_ranges :: "'a :: linorder range \<Rightarrow> 'a btree_map \<Rightarrow> 'a coalescing_ranges" where
  "get_coalescing_ranges r m =
     coalesce_loop r (btree_range_from (fst r) m)
       \<lparr>prev_adjacent_range = None, intersecting_ranges = [], next_adjacent_range = None\<rparr>"

definition insert_range_helper ::
  "'a :: linorder range \<Rightarrow> bool \<Rightarrow> 'a btree_map \<Rightarrow> ('a range list + unit) \<times> 'a btree_map" where
  "insert_range_helper r allow_intersecting m =
     (if \<not> fst r < snd r then (Inr (), m)
      else
        let c = get_coalescing_ranges r m;
            prev = prev_adjacent_range c; inter = intersecting_ranges c; next = next_adjacent_range c
        in if \<not> allow_intersecting \<and> inter \<noteq> []
           then (Inl (map (\<lambda>x. (max (fst r) (fst x), min (snd r) (snd x))) inter), m)
           else
             let coalesced_start =
                   (case prev of Some p \<Rightarrow> fst p
                    | None \<Rightarrow> (case inter of x # _ \<Rightarrow> min (fst r) (fst x) | [] \<Rightarrow> fst r));
                 coalesced_end =
                   (case next of Some n \<Rightarrow> snd n
                    | None \<Rightarrow> (if inter \<noteq> [] then max (snd r) (snd (last inter)) else snd r));
                 remove_keys = map snd (opt_list prev @ inter @ opt_list next)
             in (Inr (), btree_insert coalesced_end coalesced_start (fold btree_remove remove_keys m)))"

definition insert_range :: "'a :: linorder range \<Rightarrow> 'a btree_map \<Rightarrow> 'a btree_map io_result" where
  "insert_range r m =
     (case insert_range_helper r True m of (Inr _, m') \<Rightarrow> Inr m' | (Inl _, m') \<Rightarrow> Inl Panic)"

definition insert_disjoint_range ::
  "'a :: linorder range \<Rightarrow> 'a btree_map \<Rightarrow> ('a range list + unit) \<times> 'a btree_map" where
  "insert_disjoint_range r m = insert_range_helper r False m"

fun complement_loop ::
  "'a :: linorder \<Rightarrow> 'a btree_map \<Rightarrow> 'a \<Rightarrow> 'a btree_map \<Rightarrow> 'a \<times> 'a btree_map" where
  "complement_loop max_v [] start tree = (start, tree)"
| "complement_loop max_v ((next_range_end, next_range_start) # items) start tree =
     (if next_range_start > start
      then if next_range_start \<ge> max_v then (start, tree)
           else complement_loop max_v items (max start next_range_end) (btree_insert next_range_start start tree)
      else complement_loop max_v items (max start next_range_end) tree)"

definition rs_complement :: "'a :: linorder \<Rightarrow> 'a \<Rightarrow> 'a btree_map \<Rightarrow> 'a btree_map" where
  "rs_complement min_v max_v m =
     (case complement_loop max_v m min_v [] of (start, complement_tree) \<Rightarrow>
        if start < max_v then btree_insert max_v start complement_tree else complement_tree)"

definition rs_iter :: "'a btree_map \<Rightarrow> 'a range list" where
  "rs_iter m = map (\<lambda>(end_v, start). (start, end_v)) m"

definition rs_is_empty :: "'a btree_map \<Rightarrow> bool" where
  "rs_is_empty m \<longleftrightarrow> m = []"

subsection \<open>Invariant and meaning\<close>

definition rs_ok :: "'a :: linorder btree_map \<Rightarrow> bool" where
  "rs_ok m \<longleftrightarrow> list_all (\<lambda>(e, s). s < e) m \<and> sorted_wrt (\<lambda>(e1, s1) (e2, s2). e1 < s2) m"

definition rs_set :: "'a :: linorder btree_map \<Rightarrow> 'a set" where
  "rs_set m = (\<Union>x \<in> set m. {snd x ..< fst x})"

lemma rs_ok_Nil [simp]: "rs_ok []"
  by (simp add: rs_ok_def)

lemma rs_ok_Cons: "rs_ok (x # m) \<longleftrightarrow> snd x < fst x \<and> (\<forall>y \<in> set m. fst x < snd y) \<and> rs_ok m"
  by (cases x) (auto simp: rs_ok_def)

lemma rs_ok_append: "rs_ok (xs @ ys) \<longleftrightarrow> rs_ok xs \<and> rs_ok ys \<and> (\<forall>x \<in> set xs. \<forall>y \<in> set ys. fst x < snd y)"
  by (induction xs) (auto simp: rs_ok_Cons)

lemma rs_ok_entry: "rs_ok m \<Longrightarrow> x \<in> set m \<Longrightarrow> snd x < fst x"
  by (induction m) (auto simp: rs_ok_Cons)

lemma rs_set_simps [simp]:
  "rs_set [] = {}" "rs_set (x # m) = {snd x ..< fst x} \<union> rs_set m" "rs_set (xs @ ys) = rs_set xs \<union> rs_set ys"
  by (auto simp: rs_set_def)

lemma rs_set_mem: "v \<in> rs_set m \<longleftrightarrow> (\<exists>x \<in> set m. snd x \<le> v \<and> v < fst x)"
  by (auto simp: rs_set_def)

lemma rs_ok_first: "rs_ok m \<Longrightarrow> x \<in> set m \<Longrightarrow> snd (hd m) \<le> snd x"
  by (cases m) (force simp: rs_ok_Cons)+

lemma rs_ok_last: "rs_ok m \<Longrightarrow> x \<in> set m \<Longrightarrow> fst x \<le> fst (last m)"
proof (induction m)
  case (Cons y m)
  show ?case
  proof (cases "m = []")
    case False
    then have "fst y < snd (last m)" "snd (last m) < fst (last m)"
      using Cons.prems(1) rs_ok_entry [of m "last m"] by (simp_all add: rs_ok_Cons)
    then have "fst y < fst (last m)" by (rule less_trans)
    then show ?thesis using Cons False by (auto simp: rs_ok_Cons)
  qed (use Cons.prems in simp)
qed simp

lemma rs_ok_keys: "rs_ok m \<Longrightarrow> sorted_wrt (<) (map fst m)"
proof (induction m)
  case (Cons x m)
  then show ?case using rs_ok_entry [of m] by (fastforce simp: rs_ok_Cons)
qed simp

subsection \<open>Coalescing\<close>

definition swap_range :: "'a \<times> 'a \<Rightarrow> 'a range" where
  "swap_range e = (snd e, fst e)"

lemma coalesce_loop_after:
  assumes "rs_ok m" "\<And>x. x \<in> set m \<Longrightarrow> a < fst x"
  shows "\<exists>I N R. m = I @ N @ R \<and> (\<forall>x \<in> set I. snd x < b) \<and> (N = [] \<or> (\<exists>e. N = [(e, b)])) \<and> (\<forall>x \<in> set R. b < snd x) \<and>
    coalesce_loop (a, b) m acc = acc\<lparr>intersecting_ranges := intersecting_ranges acc @ map swap_range I,
      next_adjacent_range := (case N of [] \<Rightarrow> next_adjacent_range acc | x # _ \<Rightarrow> Some (swap_range x))\<rparr>"
  using assms
proof (induction m arbitrary: acc)
  case Nil
  then show ?case by simp
next
  case (Cons x m)
  obtain e s where x: "x = (e, s)" by fastforce
  have later: "\<And>y. y \<in> set m \<Longrightarrow> e < snd y" and "s < e" "a < e"
    using Cons.prems(1) Cons.prems(2) [of x] x by (auto simp: rs_ok_Cons)
  consider "s < b" | "s = b" | "b < s" by fastforce
  then show ?case
  proof cases
    case 1
    define acc' where "acc' = acc\<lparr>intersecting_ranges := intersecting_ranges acc @ [(s, e)]\<rparr>"
    have "rs_ok m" "\<And>y. y \<in> set m \<Longrightarrow> a < fst y" using Cons.prems by (auto simp: rs_ok_Cons)
    then obtain I N R where I: "m = I @ N @ R" "\<forall>x \<in> set I. snd x < b" "N = [] \<or> (\<exists>e. N = [(e, b)])"
      "\<forall>x \<in> set R. b < snd x"
      "coalesce_loop (a, b) m acc' = acc'\<lparr>intersecting_ranges := intersecting_ranges acc' @ map swap_range I,
        next_adjacent_range := (case N of [] \<Rightarrow> next_adjacent_range acc' | x # _ \<Rightarrow> Some (swap_range x))\<rparr>"
      using Cons.IH [of acc'] by blast
    have "coalesce_loop (a, b) (x # m) acc = coalesce_loop (a, b) m acc'"
      using 1 \<open>a < e\<close> by (simp add: x acc'_def)
    also note I(5)
    also have "acc'\<lparr>intersecting_ranges := intersecting_ranges acc' @ map swap_range I,
        next_adjacent_range := (case N of [] \<Rightarrow> next_adjacent_range acc' | x # _ \<Rightarrow> Some (swap_range x))\<rparr> =
      acc\<lparr>intersecting_ranges := intersecting_ranges acc @ map swap_range (x # I),
        next_adjacent_range := (case N of [] \<Rightarrow> next_adjacent_range acc | x # _ \<Rightarrow> Some (swap_range x))\<rparr>"
      by (cases N) (simp_all add: acc'_def x swap_range_def)
    finally show ?thesis using I(1-4) 1 x
      by (intro exI [of _ "x # I"] exI [of _ N] exI [of _ R] conjI) simp_all
  next
    case 2
    then show ?thesis using \<open>a < e\<close> \<open>s < e\<close> x later
      by (intro exI [of _ "[]"] exI [of _ "[x]"] exI [of _ m]) (force simp: swap_range_def)
  next
    case 3
    then show ?thesis using \<open>a < e\<close> \<open>s < e\<close> x later
      by (intro exI [of _ "[]"] exI [of _ "[]"] exI [of _ "x # m"]) force
  qed
qed

text \<open>The map around a range: the entries before it, the adjacent and intersecting ones, and those after it.\<close>

lemma coalescing_split:
  assumes "rs_ok m" "a < b"
  obtains L P I N R where "m = L @ P @ I @ N @ R" "\<forall>x \<in> set L. fst x < a" "P = [] \<or> (\<exists>s. P = [(a, s)])"
    "\<forall>x \<in> set I. a < fst x \<and> snd x < b" "N = [] \<or> (\<exists>e. N = [(e, b)])" "\<forall>x \<in> set R. b < snd x"
    "get_coalescing_ranges (a, b) m =
      \<lparr>prev_adjacent_range = (case P of [] \<Rightarrow> None | x # _ \<Rightarrow> Some (swap_range x)),
       intersecting_ranges = map swap_range I,
       next_adjacent_range = (case N of [] \<Rightarrow> None | x # _ \<Rightarrow> Some (swap_range x))\<rparr>"
proof -
  define L where "L = takeWhile (\<lambda>e. fst e < a) m"
  define M where "M = dropWhile (\<lambda>e. fst e < a) m"
  have m: "m = L @ M" by (simp add: L_def M_def)
  have L: "\<forall>x \<in> set L. fst x < a" unfolding L_def by (auto dest: set_takeWhileD)
  have ok: "rs_ok M" using assms(1) unfolding m by (simp add: rs_ok_append)
  have ge: "a \<le> fst x" if "x \<in> set M" for x
  proof (cases M)
    case (Cons y M')
    have "\<not> fst y < a" using Cons unfolding M_def by (simp add: dropWhile_eq_Cons_conv)
    then show ?thesis using that ok rs_ok_keys [OF ok] by (fastforce simp: Cons)
  qed (use that in simp)
  define P where "P = takeWhile (\<lambda>e. fst e = a) M"
  define M' where "M' = dropWhile (\<lambda>e. fst e = a) M"
  have M: "M = P @ M'" by (simp add: P_def M'_def)
  have P: "P = [] \<or> (\<exists>s. P = [(a, s)])"
  proof (cases M)
    case (Cons y M2)
    have "takeWhile (\<lambda>e. fst e = a) M2 = []" if "fst y = a"
      using rs_ok_keys [OF ok] that by (cases M2) (auto simp: Cons)
    then show ?thesis by (cases y) (auto simp: P_def Cons)
  qed (simp add: P_def)
  have ok': "rs_ok M'" using ok unfolding M by (simp add: rs_ok_append)
  have gt: "a < fst x" if "x \<in> set M'" for x
  proof -
    have "a \<le> fst x" using ge that by (auto simp: M)
    moreover have "fst x \<noteq> a"
    proof (cases M')
      case (Cons y M2)
      have "fst y \<noteq> a" using Cons unfolding M'_def by (simp add: dropWhile_eq_Cons_conv)
      moreover have "a \<le> fst y" using ge by (auto simp: M Cons)
      ultimately show ?thesis using that rs_ok_keys [OF ok'] by (fastforce simp: Cons)
    qed (use that in simp)
    ultimately show ?thesis by simp
  qed
  let ?acc = "\<lparr>prev_adjacent_range = (case P of [] \<Rightarrow> None | x # _ \<Rightarrow> Some (swap_range x)),
    intersecting_ranges = [], next_adjacent_range = None\<rparr>"
  have "coalesce_loop (a, b) M \<lparr>prev_adjacent_range = None, intersecting_ranges = [], next_adjacent_range = None\<rparr> =
      coalesce_loop (a, b) M' ?acc"
    using P by (auto simp: M swap_range_def)
  moreover obtain I N R where I: "M' = I @ N @ R" "\<forall>x \<in> set I. snd x < b" "N = [] \<or> (\<exists>e. N = [(e, b)])"
    "\<forall>x \<in> set R. b < snd x"
    "coalesce_loop (a, b) M' ?acc = ?acc\<lparr>intersecting_ranges := intersecting_ranges ?acc @ map swap_range I,
      next_adjacent_range := (case N of [] \<Rightarrow> next_adjacent_range ?acc | x # _ \<Rightarrow> Some (swap_range x))\<rparr>"
    using coalesce_loop_after [OF ok' gt, of b ?acc] by blast
  ultimately have "get_coalescing_ranges (a, b) m =
      \<lparr>prev_adjacent_range = (case P of [] \<Rightarrow> None | x # _ \<Rightarrow> Some (swap_range x)),
       intersecting_ranges = map swap_range I,
       next_adjacent_range = (case N of [] \<Rightarrow> None | x # _ \<Rightarrow> Some (swap_range x))\<rparr>"
    unfolding get_coalescing_ranges_def btree_range_from_def by (cases N) (simp_all add: M_def)
  moreover have "\<forall>x \<in> set I. a < fst x \<and> snd x < b" using I(1,2) gt by auto
  moreover have "m = L @ P @ I @ N @ R" using m M I(1) by simp
  ultimately show thesis using that L P I(3,4) by blast
qed

text \<open>Ranges that all touch a range form one range with it.\<close>

lemma touching_union:
  assumes ok: "rs_ok Q" and ab: "a < b" and t: "\<forall>x \<in> set Q. a \<le> fst x \<and> snd x \<le> b"
  shows "{a ..< b} \<union> rs_set Q =
    {if Q = [] then a else min a (snd (hd Q)) ..< if Q = [] then b else max b (fst (last Q))}"
proof (cases "Q = []")
  case False
  then have hd: "hd Q \<in> set Q" "last Q \<in> set Q" by simp_all
  have "v \<in> {a ..< b} \<union> rs_set Q \<longleftrightarrow> min a (snd (hd Q)) \<le> v \<and> v < max b (fst (last Q))" for v
  proof
    assume "v \<in> {a ..< b} \<union> rs_set Q"
    then consider "a \<le> v" "v < b" | x where "x \<in> set Q" "snd x \<le> v" "v < fst x"
      by (auto simp: rs_set_mem)
    then show "min a (snd (hd Q)) \<le> v \<and> v < max b (fst (last Q))"
    proof cases
      case 2
      then have "snd (hd Q) \<le> v" "v < fst (last Q)"
        using order_trans [OF rs_ok_first [OF ok 2(1)] 2(2)] less_le_trans [OF 2(3) rs_ok_last [OF ok 2(1)]] by simp_all
      then show ?thesis by (simp add: min_le_iff_disj less_max_iff_disj)
    qed (simp add: min_le_iff_disj less_max_iff_disj)
  next
    assume v: "min a (snd (hd Q)) \<le> v \<and> v < max b (fst (last Q))"
    consider "v < a" | "a \<le> v \<and> v < b" | "b \<le> v" by fastforce
    then show "v \<in> {a ..< b} \<union> rs_set Q"
    proof cases
      case 1
      moreover have "a \<le> fst (hd Q)" using t hd(1) by blast
      ultimately have "snd (hd Q) \<le> v" "v < fst (hd Q)" using v by (auto simp: min_le_iff_disj)
      then show ?thesis using hd(1) by (auto simp: rs_set_mem)
    next
      case 3
      moreover have "snd (last Q) \<le> b" using t hd(2) by blast
      ultimately have "snd (last Q) \<le> v" "v < fst (last Q)" using v by (auto simp: less_max_iff_disj)
      then show ?thesis using hd(2) by (auto simp: rs_set_mem)
    qed simp
  qed
  then show ?thesis using False by (simp add: set_eq_iff)
qed simp

lemma btree_remove_all: "fold btree_remove ks m = filter (\<lambda>e. fst e \<notin> set ks) m"
  by (induction ks arbitrary: m) (simp_all add: btree_remove_def conj_commute)

lemma btree_insert_between:
  assumes "\<forall>x \<in> set L. fst x < k" "\<forall>x \<in> set R. k < fst x"
  shows "btree_insert k v (L @ R) = L @ (k, v) # R"
proof -
  have "takeWhile (\<lambda>e. fst e < k) R = []" "dropWhile (\<lambda>e. fst e \<le> k) R = R"
    using assms(2) by (cases R; force)+
  moreover have "takeWhile (\<lambda>e. fst e < k) (L @ R) = L @ takeWhile (\<lambda>e. fst e < k) R"
    "dropWhile (\<lambda>e. fst e \<le> k) (L @ R) = dropWhile (\<lambda>e. fst e \<le> k) R"
    using assms(1) by (auto simp: less_imp_le)
  ultimately show ?thesis by (simp add: btree_insert_def)
qed

text \<open>The bounds of the coalesced range.\<close>

lemma coalesced_bounds:
  assumes "rs_ok (P @ I @ N)" "a < b" "P = [] \<or> (\<exists>s. P = [(a, s)])" "N = [] \<or> (\<exists>e. N = [(e, b)])"
  shows "(case (case P of [] \<Rightarrow> None | x # _ \<Rightarrow> Some (swap_range x)) of Some p \<Rightarrow> fst p
      | None \<Rightarrow> (case map swap_range I of x # _ \<Rightarrow> min a (fst x) | [] \<Rightarrow> a)) =
      (if P @ I @ N = [] then a else min a (snd (hd (P @ I @ N))))"
    "(case (case N of [] \<Rightarrow> None | x # _ \<Rightarrow> Some (swap_range x)) of Some n \<Rightarrow> snd n
      | None \<Rightarrow> (if map swap_range I \<noteq> [] then max b (snd (last (map swap_range I))) else b)) =
      (if P @ I @ N = [] then b else max b (fst (last (P @ I @ N))))"
  using assms by (auto simp: swap_range_def rs_ok_Cons rs_ok_append last_map split: list.splits)

lemma rs_set_disjoint_intersecting:
  assumes "\<forall>x \<in> set L. fst x \<le> a" "\<forall>x \<in> set R. b \<le> snd x"
  shows "rs_set L \<inter> {a ..< b} = {}" "rs_set R \<inter> {a ..< b} = {}"
proof -
  show "rs_set L \<inter> {a ..< b} = {}"
  proof (rule ccontr)
    assume "rs_set L \<inter> {a ..< b} \<noteq> {}"
    then obtain x v where "x \<in> set L" "v < fst x" "a \<le> v" by (auto simp: rs_set_mem)
    then show False using assms(1) by (meson leD le_less_trans)
  qed
  show "rs_set R \<inter> {a ..< b} = {}"
  proof (rule ccontr)
    assume "rs_set R \<inter> {a ..< b} \<noteq> {}"
    then obtain x v where "x \<in> set R" "snd x \<le> v" "v < b" by (auto simp: rs_set_mem)
    then show False using assms(2) by (meson leD le_less_trans)
  qed
qed

lemma replace_touching:
  assumes ok: "rs_ok (L @ Q @ R)" and ab: "a < b"
    and L: "\<forall>x \<in> set L. fst x < a" and Q: "\<forall>x \<in> set Q. a \<le> fst x \<and> snd x \<le> b" and R: "\<forall>x \<in> set R. b < snd x"
  defines "cs \<equiv> if Q = [] then a else min a (snd (hd Q))"
    and "ce \<equiv> if Q = [] then b else max b (fst (last Q))"
  defines "m' \<equiv> btree_insert ce cs (fold btree_remove (map fst Q) (L @ Q @ R))"
  shows "rs_ok m'" "rs_set m' = rs_set (L @ Q @ R) \<union> {a ..< b}"
proof -
  have okQ: "rs_ok Q" and okL: "rs_ok L" and okR: "rs_ok R"
    and LQ: "\<forall>x \<in> set L. \<forall>y \<in> set Q. fst x < snd y" and QR: "\<forall>x \<in> set Q. \<forall>y \<in> set R. fst x < snd y"
    and LR: "\<forall>x \<in> set L. \<forall>y \<in> set R. fst x < snd y"
    using ok by (auto simp: rs_ok_append)
  have cs: "cs \<le> a" "\<forall>x \<in> set L. fst x < cs"
    using L LQ by (auto simp: cs_def)
  have ce: "b \<le> ce" "\<forall>x \<in> set R. ce < snd x"
    using R QR by (auto simp: ce_def)
  have "cs < ce" using cs(1) ce(1) ab by (meson le_less_trans less_le_trans)
  have "\<forall>x \<in> set L. fst x \<notin> fst ` set Q" using L Q by force
  moreover have "\<forall>x \<in> set R. fst x \<notin> fst ` set Q" using QR rs_ok_entry [OF okR] by force
  ultimately have "fold btree_remove (map fst Q) (L @ Q @ R) = L @ R"
    by (simp add: btree_remove_all filter_empty_conv)
  moreover have "\<forall>x \<in> set L. fst x < ce" using cs(2) \<open>cs < ce\<close> by (meson less_trans)
  moreover have "\<forall>x \<in> set R. ce < fst x" using ce(2) rs_ok_entry [OF okR] by (meson less_trans)
  ultimately have m': "m' = L @ (ce, cs) # R" by (simp add: m'_def btree_insert_between)
  show "rs_ok m'" using okL okR cs ce \<open>cs < ce\<close> LR by (simp add: m' rs_ok_append rs_ok_Cons)
  have "{cs ..< ce} = {a ..< b} \<union> rs_set Q"
    unfolding cs_def ce_def by (rule touching_union [OF okQ ab Q, symmetric])
  then show "rs_set m' = rs_set (L @ Q @ R) \<union> {a ..< b}" by (auto simp: m')
qed

lemma insert_range_helper_spec:
  assumes ok: "rs_ok m" and ab: "a < b"
  shows "if rs_set m \<inter> {a ..< b} \<noteq> {} \<and> \<not> allow
    then \<exists>is. insert_range_helper (a, b) allow m = (Inl is, m) \<and> is \<noteq> [] \<and>
           (\<Union>x \<in> set is. {fst x ..< snd x}) = rs_set m \<inter> {a ..< b}
    else \<exists>m'. insert_range_helper (a, b) allow m = (Inr (), m') \<and> rs_ok m' \<and> rs_set m' = rs_set m \<union> {a ..< b}"
proof -
  obtain L P I N R where m: "m = L @ P @ I @ N @ R" and L: "\<forall>x \<in> set L. fst x < a"
    and P: "P = [] \<or> (\<exists>s. P = [(a, s)])" and I: "\<forall>x \<in> set I. a < fst x \<and> snd x < b"
    and N: "N = [] \<or> (\<exists>e. N = [(e, b)])" and R: "\<forall>x \<in> set R. b < snd x"
    and c: "get_coalescing_ranges (a, b) m =
      \<lparr>prev_adjacent_range = (case P of [] \<Rightarrow> None | x # _ \<Rightarrow> Some (swap_range x)),
       intersecting_ranges = map swap_range I,
       next_adjacent_range = (case N of [] \<Rightarrow> None | x # _ \<Rightarrow> Some (swap_range x))\<rparr>"
    by (rule coalescing_split [OF ok ab])
  let ?Q = "P @ I @ N"
  have okQ: "rs_ok ?Q" using ok unfolding m by (auto simp: rs_ok_append)
  have inter: "rs_set m \<inter> {a ..< b} = rs_set I \<inter> {a ..< b}"
  proof -
    have "\<forall>x \<in> set (L @ P). fst x \<le> a" "\<forall>x \<in> set (N @ R). b \<le> snd x"
      using L P N R by (auto simp: less_imp_le)
    note rs_set_disjoint_intersecting [OF this]
    then show ?thesis by (auto simp: m)
  qed
  have nonempty: "rs_set m \<inter> {a ..< b} = {} \<longleftrightarrow> I = []"
  proof
    assume none: "rs_set m \<inter> {a ..< b} = {}"
    show "I = []"
    proof (rule ccontr)
      assume "I \<noteq> []"
      then obtain x where x: "x \<in> set I" by (meson list.set_sel(1))
      have "snd x < fst x" using rs_ok_entry [OF okQ] x by simp
      then have "max a (snd x) \<in> rs_set I \<inter> {a ..< b}" using I x ab by (auto simp: rs_set_mem intro: bexI [of _ x])
      then show False using none inter by blast
    qed
  qed (simp add: inter)
  show ?thesis
  proof (cases "rs_set m \<inter> {a ..< b} \<noteq> {} \<and> \<not> allow")
    case True
    have "insert_range_helper (a, b) allow m =
        (Inl (map (\<lambda>x. (max a (fst x), min b (snd x))) (map swap_range I)), m)"
      using True ab nonempty by (simp add: insert_range_helper_def c)
    moreover have "(\<Union>x \<in> set (map (\<lambda>x. (max a (fst x), min b (snd x))) (map swap_range I)). {fst x ..< snd x}) =
        rs_set m \<inter> {a ..< b}"
      unfolding inter by (auto simp: rs_set_def swap_range_def)
    moreover have "map (\<lambda>x. (max a (fst x), min b (snd x))) (map swap_range I) \<noteq> []" using True nonempty by simp
    ultimately show ?thesis unfolding if_P [OF True] by blast
  next
    case False
    have keys: "map snd (opt_list (case P of [] \<Rightarrow> None | x # _ \<Rightarrow> Some (swap_range x)) @ map swap_range I @
        opt_list (case N of [] \<Rightarrow> None | x # _ \<Rightarrow> Some (swap_range x))) = map fst ?Q"
      using P N by (auto simp: opt_list_def swap_range_def)
    define m' where "m' = btree_insert (if ?Q = [] then b else max b (fst (last ?Q)))
      (if ?Q = [] then a else min a (snd (hd ?Q))) (fold btree_remove (map fst ?Q) (L @ ?Q @ R))"
    have "\<forall>x \<in> set I. a \<le> fst x \<and> snd x \<le> b" using I by (simp add: less_imp_le)
    moreover have "\<forall>x \<in> set P. a \<le> fst x \<and> snd x \<le> b"
      using P rs_ok_entry [OF okQ, of "hd P"] ab by force
    moreover have "\<forall>x \<in> set N. a \<le> fst x \<and> snd x \<le> b"
      using N rs_ok_entry [OF okQ, of "hd N"] ab by force
    ultimately have touch: "\<forall>x \<in> set ?Q. a \<le> fst x \<and> snd x \<le> b" by auto
    have mQ: "L @ ?Q @ R = m" by (simp add: m)
    have "rs_ok (L @ ?Q @ R)" using ok unfolding mQ .
    with touch have "rs_ok m'" "rs_set m' = rs_set (L @ ?Q @ R) \<union> {a ..< b}"
      unfolding m'_def using replace_touching [OF _ ab L _ R, of ?Q] by blast+
    moreover have "insert_range_helper (a, b) allow m = (Inr (), m')"
      unfolding m'_def mQ coalesced_bounds [OF okQ ab P N, symmetric] keys [symmetric]
        insert_range_helper_def c Let_def coalescing_ranges.simps fst_conv snd_conv
      using False nonempty ab by auto
    ultimately show ?thesis unfolding if_not_P [OF False] mQ by blast
  qed
qed

subsection \<open>Complement\<close>

definition complement_end :: "'a :: linorder \<Rightarrow> 'a \<times> 'a btree_map \<Rightarrow> 'a btree_map" where
  "complement_end max_v r = (case r of (start, tree) \<Rightarrow> if start < max_v then btree_insert max_v start tree else tree)"

lemma complement_end_spec:
  assumes "rs_ok tree" "\<forall>x \<in> set tree. fst x < start"
  shows "rs_ok (complement_end max_v (start, tree))"
    "rs_set (complement_end max_v (start, tree)) = rs_set tree \<union> {start ..< max_v}"
proof -
  have "btree_insert max_v start tree = tree @ [(max_v, start)]" if "start < max_v"
    using btree_insert_between [of tree max_v "[]" start] assms(2) that by (auto dest: less_trans)
  then show "rs_ok (complement_end max_v (start, tree))"
    "rs_set (complement_end max_v (start, tree)) = rs_set tree \<union> {start ..< max_v}"
    using assms by (auto simp: complement_end_def rs_ok_append rs_ok_Cons)
qed

lemma rs_set_above: "\<forall>x \<in> set m. e < snd x \<Longrightarrow> v \<in> rs_set m \<Longrightarrow> e < v"
  by (meson rs_set_mem less_le_trans)

lemma complement_loop_spec:
  assumes "rs_ok items" "rs_ok tree" "\<forall>x \<in> set tree. fst x < start"
  shows "rs_ok (complement_end max_v (complement_loop max_v items start tree)) \<and>
    rs_set (complement_end max_v (complement_loop max_v items start tree)) =
      rs_set tree \<union> ({start ..< max_v} - rs_set items)"
  using assms
proof (induction items arbitrary: start tree)
  case Nil
  then show ?case using complement_end_spec [of tree start max_v] by simp
next
  case (Cons x items)
  obtain e s where x: "x = (e, s)" by fastforce
  have se: "s < e" and above: "\<And>v. v \<in> rs_set items \<Longrightarrow> e < v" and ok: "rs_ok items"
    using Cons.prems(1) rs_set_above [of items e] by (auto simp: x rs_ok_Cons)
  show ?case
  proof (cases "start < s")
    case True
    show ?thesis
    proof (cases "max_v \<le> s")
      case far: True
      have "v \<notin> rs_set (x # items)" if "v < max_v" for v
        using that far se above [of v] by (force simp: x)
      then have "{start ..< max_v} - rs_set (x # items) = {start ..< max_v}" by auto
      then show ?thesis using True far complement_end_spec [OF Cons.prems(2,3)] by (simp add: x)
    next
      case near: False
      have ins: "btree_insert s start tree = tree @ [(s, start)]"
        using btree_insert_between [of tree s "[]" start] Cons.prems(3) True by (auto dest: less_trans)
      have "rs_ok (tree @ [(s, start)])" "\<forall>y \<in> set (tree @ [(s, start)]). fst y < e"
        using Cons.prems(2,3) True se by (auto simp: rs_ok_append rs_ok_Cons dest: less_trans)
      note IH = Cons.IH [OF ok this]
      have "v \<notin> rs_set items" if "v < s" for v using that se above [of v] by (meson less_asym less_trans)
      then have "{start ..< s} \<union> ({e ..< max_v} - rs_set items) = {start ..< max_v} - rs_set (x # items)"
        using True near se by (auto simp: x)
      moreover have "max start e = e" using True se by simp
      ultimately show ?thesis using IH True near by (simp add: x ins Un_assoc)
    qed
  next
    case False
    have "\<forall>y \<in> set tree. fst y < max start e" using Cons.prems(3) by (auto simp: less_max_iff_disj)
    note IH = Cons.IH [OF ok Cons.prems(2) this]
    have "{max start e ..< max_v} - rs_set items = {start ..< max_v} - rs_set (x # items)"
      using False by (auto simp: x)
    then show ?thesis using IH False by (simp add: x)
  qed
qed

lemma rs_complement_spec:
  assumes "rs_ok m"
  shows "rs_ok (rs_complement min_v max_v m)" "rs_set (rs_complement min_v max_v m) = {min_v ..< max_v} - rs_set m"
proof -
  have "rs_complement min_v max_v m = complement_end max_v (complement_loop max_v m min_v [])"
    by (simp add: rs_complement_def complement_end_def)
  then show "rs_ok (rs_complement min_v max_v m)" "rs_set (rs_complement min_v max_v m) = {min_v ..< max_v} - rs_set m"
    using complement_loop_spec [OF assms, of "[]" min_v max_v] by simp_all
qed

lemma rs_set_empty: "rs_ok m \<Longrightarrow> rs_set m = {} \<longleftrightarrow> m = []"
  by (cases m) (auto simp: rs_ok_Cons)

subsection \<open>Range sets of addresses\<close>

text \<open>What a stored area is reached from, and the errors the checker reports.\<close>

datatype trie_node_parent =
    TrieRoot
  | TrieParent laddr pc

datatype stored_area_parent =
    TrieNodeArea trie_node_parent
  | FreeListArea free_list_parent

record linear_address_range_set =
  lr_range_set :: "laddr btree_map"
  lr_max_addr :: laddr
  lr_bytes_in_set :: u64

datatype checker_error =
    InvalidDBSize u64
  | HashMismatch path laddr trie_node_parent hash_type hash_type
  | AreaOutOfBounds laddr u64 "laddr range" stored_area_parent
  | AreaIntersects laddr u64 "laddr range list" stored_area_parent
  | NodeLargerThanArea laddr u64 u64 trie_node_parent
  | FreelistAreaSizeMismatch laddr u64 area_index area_index free_list_parent
  | AreaMisaligned laddr stored_area_parent
  | AreaLeaks linear_address_range_set
  | UnpersistedRoot
  | InvalidKey path laddr trie_node_parent
  | CheckerIO io_error stored_area_parent

fun checker_error_parent :: "checker_error \<Rightarrow> stored_area_parent option" where
  "checker_error_parent (InvalidDBSize _) = None"
| "checker_error_parent (AreaLeaks _) = None"
| "checker_error_parent UnpersistedRoot = None"
| "checker_error_parent (AreaOutOfBounds _ _ _ p) = Some p"
| "checker_error_parent (AreaIntersects _ _ _ p) = Some p"
| "checker_error_parent (AreaMisaligned _ p) = Some p"
| "checker_error_parent (CheckerIO _ p) = Some p"
| "checker_error_parent (HashMismatch _ _ p _ _) = Some (TrieNodeArea p)"
| "checker_error_parent (NodeLargerThanArea _ _ _ p) = Some (TrieNodeArea p)"
| "checker_error_parent (InvalidKey _ _ p) = Some (TrieNodeArea p)"
| "checker_error_parent (FreelistAreaSizeMismatch _ _ _ _ p) = Some (FreeListArea p)"

definition NODE_STORE_START_ADDR :: laddr where
  "NODE_STORE_START_ADDR = HEADER_SIZE"

definition lr_new :: "u64 \<Rightarrow> checker_error + linear_address_range_set" where
  "lr_new db_size =
     (if db_size < HEADER_SIZE then Inl (InvalidDBSize db_size)
      else Inr \<lparr>lr_range_set = [], lr_max_addr = db_size, lr_bytes_in_set = 0\<rparr>)"

text \<open>The outcome of an operation that may fail with a checker error or panic.\<close>

datatype 'a checked =
    Checked 'a
  | CheckFailed checker_error
  | CheckPanic

definition insert_area ::
  "laddr \<Rightarrow> u64 \<Rightarrow> stored_area_parent \<Rightarrow> linear_address_range_set \<Rightarrow> unit checked \<times> linear_address_range_set" where
  "insert_area addr area_size parent vs =
     (let out_of_bounds = CheckFailed (AreaOutOfBounds addr area_size (NODE_STORE_START_ADDR, lr_max_addr vs) parent)
      in case LinearAddress_advance addr area_size of
           None \<Rightarrow> (out_of_bounds, vs)
         | Some end_addr \<Rightarrow>
             if addr < NODE_STORE_START_ADDR \<or> end_addr > lr_max_addr vs then (out_of_bounds, vs)
             else
               (case insert_disjoint_range (addr, end_addr) (lr_range_set vs) of
                  (Inl intersection, m) \<Rightarrow>
                    (CheckFailed (AreaIntersects addr area_size intersection parent), vs\<lparr>lr_range_set := m\<rparr>)
                | (Inr _, m) \<Rightarrow>
                    if unat (lr_bytes_in_set vs) + unat area_size < 2 ^ 64
                    then (Checked (), vs\<lparr>lr_range_set := m, lr_bytes_in_set := lr_bytes_in_set vs + area_size\<rparr>)
                    else (CheckPanic, vs\<lparr>lr_range_set := m\<rparr>)))"

definition lr_complement :: "linear_address_range_set \<Rightarrow> linear_address_range_set io_result" where
  "lr_complement vs =
     (let complement_set = rs_complement NODE_STORE_START_ADDR (lr_max_addr vs) (lr_range_set vs)
      in rbind (ok_or Panic (LinearAddress_distance_from (lr_max_addr vs) NODE_STORE_START_ADDR)) (\<lambda>d.
         rbind (ok_or Panic (if lr_bytes_in_set vs \<le> d then Some (d - lr_bytes_in_set vs) else None)) (\<lambda>n.
         Inr \<lparr>lr_range_set = complement_set, lr_max_addr = lr_max_addr vs, lr_bytes_in_set = n\<rparr>)))"

definition lr_is_empty :: "linear_address_range_set \<Rightarrow> bool" where
  "lr_is_empty vs = rs_is_empty (lr_range_set vs)"

text \<open>The invariant: the ranges lie between the header and the high water mark, and the counter is their size.\<close>

definition lr_ok :: "linear_address_range_set \<Rightarrow> bool" where
  "lr_ok vs \<longleftrightarrow> rs_ok (lr_range_set vs) \<and> NODE_STORE_START_ADDR \<le> lr_max_addr vs \<and>
     rs_set (lr_range_set vs) \<subseteq> {NODE_STORE_START_ADDR ..< lr_max_addr vs} \<and>
     unat (lr_bytes_in_set vs) = card (rs_set (lr_range_set vs))"

lemma card_word_range: "card {a ..< b :: 'a :: len word} = unat b - unat a"
proof -
  have "unat ` {a ..< b} = {unat a ..< unat b}"
  proof (intro equalityI subsetI)
    fix n assume "n \<in> {unat a ..< unat b}"
    moreover have "unat b < 2 ^ LENGTH('a)" by (rule unsigned_less)
    ultimately have "n < 2 ^ LENGTH('a)" by (meson atLeastLessThan_iff less_trans)
    then have "unat (word_of_nat n :: 'a word) = n" by (simp add: unat_of_nat)
    then show "n \<in> unat ` {a ..< b}" using \<open>n \<in> _\<close>
      by (intro image_eqI [of _ _ "word_of_nat n"]) (auto simp: word_le_nat_alt word_less_nat_alt)
  qed (auto simp: word_le_nat_alt word_less_nat_alt)
  moreover have "inj_on unat {a ..< b}" by (auto simp: inj_on_def intro: unsigned_word_eqI)
  ultimately show ?thesis using card_image [of unat "{a ..< b}"] by simp
qed

lemma lr_ok_bytes: "lr_ok vs \<Longrightarrow> unat (lr_bytes_in_set vs) \<le> unat (lr_max_addr vs) - 2048"
proof -
  assume ok: "lr_ok vs"
  then have "card (rs_set (lr_range_set vs)) \<le> card {NODE_STORE_START_ADDR ..< lr_max_addr vs}"
    by (intro card_mono) (auto simp: lr_ok_def)
  then show ?thesis using ok by (simp add: lr_ok_def card_word_range NODE_STORE_START_ADDR_def HEADER_SIZE_def)
qed

abbreviation lr_set :: "linear_address_range_set \<Rightarrow> laddr set" where
  "lr_set vs \<equiv> rs_set (lr_range_set vs)"

definition area_in_bounds :: "laddr \<Rightarrow> u64 \<Rightarrow> linear_address_range_set \<Rightarrow> bool" where
  "area_in_bounds addr n vs \<longleftrightarrow> NODE_STORE_START_ADDR \<le> addr \<and> unat addr + unat n \<le> unat (lr_max_addr vs)"

lemma area_in_bounds_end:
  assumes "area_in_bounds addr n vs"
  shows "LinearAddress_advance addr n = Some (addr + n)" "unat (addr + n) = unat addr + unat n"
    "addr + n \<le> lr_max_addr vs" "addr \<le> addr + n"
proof -
  have "unat (lr_max_addr vs) < 2 ^ 64" using unsigned_less [of "lr_max_addr vs", where 'a = nat] by simp
  then have lt: "unat addr + unat n < 2 ^ 64" using assms by (simp add: area_in_bounds_def)
  then show "LinearAddress_advance addr n = Some (addr + n)" by (simp add: LinearAddress_advance_def)
  show u: "unat (addr + n) = unat addr + unat n" using lt by (simp add: unat_word_ariths)
  show "addr + n \<le> lr_max_addr vs" "addr \<le> addr + n"
    using assms by (simp_all add: area_in_bounds_def word_le_nat_alt u)
qed

lemma insert_area_out_of_bounds:
  assumes "\<not> area_in_bounds addr n vs"
  shows "insert_area addr n parent vs =
    (CheckFailed (AreaOutOfBounds addr n (NODE_STORE_START_ADDR, lr_max_addr vs) parent), vs)"
proof (cases "LinearAddress_advance addr n")
  case (Some e)
  then have "e = addr + n" "unat e = unat addr + unat n"
    by (auto simp: LinearAddress_advance_def unat_word_ariths split: if_splits)
  then have "addr < NODE_STORE_START_ADDR \<or> e > lr_max_addr vs"
    using assms by (auto simp: area_in_bounds_def word_less_nat_alt word_le_nat_alt)
  then show ?thesis by (simp add: insert_area_def Some)
qed (simp add: insert_area_def)

lemma insert_area_spec:
  assumes ok: "lr_ok vs" and bounds: "area_in_bounds addr n vs"
  shows "if lr_set vs \<inter> {addr ..< addr + n} \<noteq> {}
    then \<exists>is. insert_area addr n parent vs = (CheckFailed (AreaIntersects addr n is parent), vs) \<and>
           (\<Union>x \<in> set is. {fst x ..< snd x}) = lr_set vs \<inter> {addr ..< addr + n}
    else \<exists>vs'. insert_area addr n parent vs = (Checked (), vs') \<and> lr_ok vs' \<and>
           lr_max_addr vs' = lr_max_addr vs \<and> lr_set vs' = lr_set vs \<union> {addr ..< addr + n}"
proof -
  note e = area_in_bounds_end [OF bounds]
  have start: "NODE_STORE_START_ADDR \<le> addr" using bounds by (simp add: area_in_bounds_def)
  then have unfolded: "insert_area addr n parent vs =
      (case insert_disjoint_range (addr, addr + n) (lr_range_set vs) of
         (Inl is, m) \<Rightarrow> (CheckFailed (AreaIntersects addr n is parent), vs\<lparr>lr_range_set := m\<rparr>)
       | (Inr _, m) \<Rightarrow>
           if unat (lr_bytes_in_set vs) + unat n < 2 ^ 64
           then (Checked (), vs\<lparr>lr_range_set := m, lr_bytes_in_set := lr_bytes_in_set vs + n\<rparr>)
           else (CheckPanic, vs\<lparr>lr_range_set := m\<rparr>))"
    using e(3) by (simp add: insert_area_def e(1) not_less linorder_not_le [symmetric])
  have rs: "rs_ok (lr_range_set vs)" and size: "unat (lr_bytes_in_set vs) = card (lr_set vs)"
    and sub: "lr_set vs \<subseteq> {NODE_STORE_START_ADDR ..< lr_max_addr vs}" using ok by (simp_all add: lr_ok_def)
  show ?thesis
  proof (cases "lr_set vs \<inter> {addr ..< addr + n} = {}")
    case False
    then have "addr < addr + n" by force
    with insert_range_helper_spec [OF rs this, of False] False
    obtain "is" where "insert_disjoint_range (addr, addr + n) (lr_range_set vs) = (Inl is, lr_range_set vs)"
      "(\<Union>x \<in> set is. {fst x ..< snd x}) = lr_set vs \<inter> {addr ..< addr + n}"
      by (auto simp: insert_disjoint_range_def)
    then show ?thesis using False by (simp add: unfolded)
  next
    case True
    obtain m' where m': "insert_disjoint_range (addr, addr + n) (lr_range_set vs) = (Inr (), m')" "rs_ok m'"
      "rs_set m' = lr_set vs \<union> {addr ..< addr + n}"
    proof (cases "addr < addr + n")
      case less: True
      show ?thesis using insert_range_helper_spec [OF rs less, of False] True that
        by (auto simp: insert_disjoint_range_def)
    next
      case False
      show ?thesis using that [of "lr_range_set vs"] rs False by (simp add: insert_disjoint_range_def insert_range_helper_def)
    qed
    have "card (rs_set m') = card (lr_set vs) + card {addr ..< addr + n}"
      unfolding m'(3) using True by (simp add: card_Un_disjoint)
    then have card: "card (rs_set m') = unat (lr_bytes_in_set vs) + unat n" using e(2) by (simp add: size card_word_range)
    have "{addr ..< addr + n} \<subseteq> {NODE_STORE_START_ADDR ..< lr_max_addr vs}" using start e(3) by (simp add: ivl_subset)
    with sub have sub': "rs_set m' \<subseteq> {NODE_STORE_START_ADDR ..< lr_max_addr vs}" unfolding m'(3) by blast
    then have "card (rs_set m') \<le> card {NODE_STORE_START_ADDR ..< lr_max_addr vs}" by (intro card_mono) auto
    moreover have "unat (lr_max_addr vs) < 2 ^ 64" using unsigned_less [of "lr_max_addr vs", where 'a = nat] by simp
    ultimately have lt: "unat (lr_bytes_in_set vs) + unat n < 2 ^ 64" by (simp add: card card_word_range)
    then have "unat (lr_bytes_in_set vs + n) = card (rs_set m')" by (simp add: unat_word_ariths card)
    then have "lr_ok (vs\<lparr>lr_range_set := m', lr_bytes_in_set := lr_bytes_in_set vs + n\<rparr>)"
      using ok m'(2) sub' by (simp add: lr_ok_def)
    then show ?thesis using True lt m' by (simp add: unfolded)
  qed
qed

lemma lr_new_ok: "lr_new db_size = Inr vs \<Longrightarrow> lr_ok vs \<and> lr_set vs = {} \<and> lr_max_addr vs = db_size"
  by (auto simp: lr_new_def lr_ok_def NODE_STORE_START_ADDR_def not_less split: if_splits)

lemma lr_complement_spec:
  assumes ok: "lr_ok vs"
  shows "\<exists>c. lr_complement vs = Inr c \<and> lr_ok c \<and> lr_max_addr c = lr_max_addr vs \<and>
    lr_set c = {NODE_STORE_START_ADDR ..< lr_max_addr vs} - lr_set vs"
proof -
  define c where "c = rs_complement NODE_STORE_START_ADDR (lr_max_addr vs) (lr_range_set vs)"
  have le: "NODE_STORE_START_ADDR \<le> lr_max_addr vs" and rs: "rs_ok (lr_range_set vs)"
    and sub: "lr_set vs \<subseteq> {NODE_STORE_START_ADDR ..< lr_max_addr vs}"
    and size: "unat (lr_bytes_in_set vs) = card (lr_set vs)" using ok by (simp_all add: lr_ok_def)
  have c: "rs_ok c" "rs_set c = {NODE_STORE_START_ADDR ..< lr_max_addr vs} - lr_set vs"
    unfolding c_def using rs_complement_spec [OF rs] by blast+
  define d where "d = lr_max_addr vs - NODE_STORE_START_ADDR"
  have d: "unat d = card {NODE_STORE_START_ADDR ..< lr_max_addr vs}"
    using le by (simp add: d_def card_word_range unat_sub)
  have fin: "finite (lr_set vs)" by (rule finite_subset [OF sub]) simp
  have "card (lr_set vs) \<le> unat d" unfolding d using sub by (intro card_mono) auto
  then have b: "lr_bytes_in_set vs \<le> d" by (simp add: word_le_nat_alt size)
  have "unat (d - lr_bytes_in_set vs) = card (rs_set c)"
    using b by (simp add: unat_sub c(2) card_Diff_subset [OF fin sub] d size)
  then show ?thesis using le b c sub
    by (simp add: lr_complement_def LinearAddress_distance_from_def lr_ok_def c_def [symmetric] d_def [symmetric] Let_def ok_or_def)
qed

lemma lr_is_empty_iff: "lr_ok vs \<Longrightarrow> lr_is_empty vs \<longleftrightarrow> lr_set vs = {}"
  by (simp add: lr_is_empty_def rs_is_empty_def lr_ok_def rs_set_empty)

end
