(* ===== verification/Node_Read.thy ===== *)
theory Node_Read
  imports Alloc Node_Codec
begin

section \<open>Reading nodes from storage\<close>

text \<open>
  The readers of \<open>storage/src/nodestore/mod.rs\<close> (\<open>read_node_with_num_bytes_from_disk\<close>, \<open>read_node_from_disk\<close>)
  and the node cache of \<open>storage/src/linear/filebacked.rs\<close>. The cache is a third-party map with eviction; its
  insertion is the parameter \<open>nput\<close>, with the contract \<open>lru_cache\<close>. The lemmas show that a cache that agrees
  with storage is invisible: every read returns what an uncached read returns, and agreement is kept.
\<close>

definition saturating_add64 :: "nat \<Rightarrow> nat \<Rightarrow> nat" where
  "saturating_add64 a b = min (a + b) (2 ^ 64 - 1)"

definition saturating_succ :: "u64 \<Rightarrow> u64" where
  "saturating_succ a = (if a = - 1 then a else a + 1)"

definition read_node_with_num_bytes_from_disk ::
  "nat reader_fn \<Rightarrow> node_hash_algorithm \<Rightarrow> storage \<Rightarrow> laddr \<Rightarrow> (node \<times> nat) io_result" where
  "read_node_with_num_bytes_from_disk rdv alg st addr =
     (let area_stream = stream_from st (unat (saturating_succ addr))
      in rbind (from_reader rdv alg area_stream) (\<lambda>(node, rest).
         Inr (node, saturating_add64 (length area_stream - length rest) 1)))"

datatype cache_read_strategy = WritesOnly | BranchReads | AllReads

type_synonym node_cache = "laddr \<rightharpoonup> node"
type_synonym node_put = "node_cache \<Rightarrow> laddr \<Rightarrow> node \<Rightarrow> node_cache"

definition node_is_leaf :: "node \<Rightarrow> bool" where
  "node_is_leaf n = (case n of Leaf _ _ \<Rightarrow> True | Branch _ _ _ \<Rightarrow> False)"

definition read_cached_node :: "laddr \<Rightarrow> node_cache \<Rightarrow> node option" where
  "read_cached_node addr cache = cache addr"

definition cache_node :: "node_put \<Rightarrow> cache_read_strategy \<Rightarrow> laddr \<Rightarrow> node \<Rightarrow> node_cache \<Rightarrow> node_cache" where
  "cache_node nput strategy addr node cache =
     (case strategy of
        WritesOnly \<Rightarrow> cache
      | AllReads \<Rightarrow> nput cache addr node
      | BranchReads \<Rightarrow> if \<not> node_is_leaf node then nput cache addr node else cache)"

definition read_node_from_disk ::
  "node_put \<Rightarrow> cache_read_strategy \<Rightarrow> nat reader_fn \<Rightarrow> node_hash_algorithm \<Rightarrow> storage \<Rightarrow> laddr \<Rightarrow> (node_cache, node) sresult" where
  "read_node_from_disk nput strategy rdv alg st addr cache =
     (case read_cached_node addr cache of
        Some node \<Rightarrow> (Inr node, cache)
      | None \<Rightarrow>
          (case read_node_with_num_bytes_from_disk rdv alg st addr of
             Inl e \<Rightarrow> (Inl e, cache)
           | Inr (node, _) \<Rightarrow>
               (Inr node,
                case strategy of
                  AllReads \<Rightarrow> cache_node nput strategy addr node cache
                | BranchReads \<Rightarrow> if \<not> node_is_leaf node then cache_node nput strategy addr node cache else cache
                | WritesOnly \<Rightarrow> cache)))"

subsection \<open>A cache that agrees with storage is invisible\<close>

definition uncached_read :: "nat reader_fn \<Rightarrow> node_hash_algorithm \<Rightarrow> storage \<Rightarrow> laddr \<Rightarrow> node io_result" where
  "uncached_read rdv alg st addr = rbind (read_node_with_num_bytes_from_disk rdv alg st addr) (\<lambda>(node, _). Inr node)"

definition cache_agrees :: "nat reader_fn \<Rightarrow> node_hash_algorithm \<Rightarrow> storage \<Rightarrow> node_cache \<Rightarrow> bool" where
  "cache_agrees rdv alg st cache \<longleftrightarrow> (\<forall>addr node. cache addr = Some node \<longrightarrow> uncached_read rdv alg st addr = Inr node)"

context lru_cache
begin

lemma put_keeps: "\<forall>x y. c x = Some y \<longrightarrow> P x y \<Longrightarrow> P k v \<Longrightarrow> lput c k v k' = Some w \<Longrightarrow> P k' w"
  by (auto dest: put_cases)

end

lemma read_node_from_disk_agrees:
  assumes "lru_cache nput" "cache_agrees rdv alg st cache"
    "read_node_from_disk nput strategy rdv alg st addr cache = (r, cache')"
  shows "r = uncached_read rdv alg st addr" "cache_agrees rdv alg st cache'"
proof -
  show "r = uncached_read rdv alg st addr"
    using assms(2,3)
    by (auto simp: read_node_from_disk_def read_cached_node_def cache_agrees_def uncached_read_def rbind_def
        split: option.splits sum.splits prod.splits)
  consider "cache' = cache" | node where "uncached_read rdv alg st addr = Inr node" "cache' = nput cache addr node"
    using assms(3)
    by (auto simp: read_node_from_disk_def cache_node_def uncached_read_def
        split: option.splits sum.splits prod.splits cache_read_strategy.splits if_splits)
  then show "cache_agrees rdv alg st cache'"
  proof cases
    case 1 then show ?thesis using assms(2) by simp
  next
    case 2
    with assms(2) show ?thesis
      unfolding cache_agrees_def
      using lru_cache.put_keeps [OF assms(1), of cache "\<lambda>a n. uncached_read rdv alg st a = Inr n" addr node] by blast
  qed
qed


definition keep_all :: node_put where
  "keep_all cache addr node = cache(addr \<mapsto> node)"

interpretation keep: lru_cache keep_all
  by unfold_locales (simp add: keep_all_def)


end
