(* ===== verification/Checker.thy ===== *)
theory Checker
  imports Range_Set Hashing Node_Read Mutable_Store
begin

section \<open>The checker\<close>

text \<open>
  \<open>storage/src/checker/mod.rs\<close>: the walk over the trie and the free lists of a database image that checks
  every area and collects statistics, the report of leaked areas, and the repair of free lists.

  The operations take the digests, the varint reader, the hashing scheme and the storage. A panic of the
  source is the value \<open>VisitPanic\<close>. The recursion over the trie follows addresses that are read from
  storage; its first argument bounds the depth, and running out of it is the value \<open>VisitOutOfFuel\<close>. The
  progress bar is only whether there is one. Statistics are saturating counters; a \<open>BTreeMap\<close> of counters is
  a partial map.
\<close>

subsection \<open>Pages and alignment\<close>

definition OS_PAGE_SIZE :: nat where
  "OS_PAGE_SIZE = 4096"

definition page_number :: "laddr \<Rightarrow> nat" where
  "page_number addr = unat addr div OS_PAGE_SIZE"

definition extra_read_pages :: "laddr \<Rightarrow> nat \<Rightarrow> nat option" where
  "extra_read_pages addr bytes =
     (let start_page = page_number addr
      in Option.bind (LinearAddress_advance addr (word_of_nat (bytes - 1))) (\<lambda>end_addr.
         let pages_read = saturating_add64 (page_number end_addr - start_page) 1;
             min_pages = saturating_add64 bytes (OS_PAGE_SIZE - 1) div OS_PAGE_SIZE
         in Some (pages_read - min_pages)))"

definition check_area_aligned :: "laddr \<Rightarrow> stored_area_parent \<Rightarrow> checker_error + unit" where
  "check_area_aligned address parent =
     (if \<not> LinearAddress_is_aligned address then Inl (AreaMisaligned address parent) else Inr ())"

subsection \<open>Statistics and reports\<close>

record trie_stats =
  ts_branch_bytes :: nat
  ts_leaf_bytes :: nat
  ts_kv_count :: nat
  ts_kv_bytes :: nat
  ts_branching_factors :: "nat \<rightharpoonup> nat"
  ts_depths :: "nat \<rightharpoonup> nat"
  ts_branch_area_counts :: "nat \<rightharpoonup> nat"
  ts_leaf_area_counts :: "nat \<rightharpoonup> nat"
  ts_low_occupancy_branch_area_count :: nat
  ts_low_occupancy_leaf_area_count :: nat
  ts_area_extra_unaligned_page :: nat
  ts_node_extra_unaligned_page :: nat

definition area_size_zeros :: "nat \<rightharpoonup> nat" where
  "area_size_zeros = map_of (map (\<lambda>(_, size). (size, 0)) area_size_iter)"

definition TrieStats_default :: trie_stats where
  "TrieStats_default =
     \<lparr>ts_branch_bytes = 0, ts_leaf_bytes = 0, ts_kv_count = 0, ts_kv_bytes = 0,
      ts_branching_factors = Map.empty, ts_depths = Map.empty,
      ts_branch_area_counts = area_size_zeros, ts_leaf_area_counts = area_size_zeros,
      ts_low_occupancy_branch_area_count = 0, ts_low_occupancy_leaf_area_count = 0,
      ts_area_extra_unaligned_page = 0, ts_node_extra_unaligned_page = 0\<rparr>"

record free_lists_stats =
  fs_area_counts :: "nat \<rightharpoonup> nat"
  fs_area_extra_unaligned_page :: nat

definition FreeListsStats_default :: free_lists_stats where
  "FreeListsStats_default = \<lparr>fs_area_counts = area_size_zeros, fs_area_extra_unaligned_page = 0\<rparr>"

record db_stats =
  ds_high_watermark :: u64
  ds_trie_stats :: trie_stats
  ds_free_list_stats :: free_lists_stats

definition DBStats_default :: db_stats where
  "DBStats_default = \<lparr>ds_high_watermark = 0, ds_trie_stats = TrieStats_default, ds_free_list_stats = FreeListsStats_default\<rparr>"

record check_opt =
  co_hash_check :: bool
  co_progress_bar :: bool

record checker_report =
  cr_errors :: "checker_error list"
  cr_db_stats :: db_stats

record sub_trie_metadata =
  sm_root_address :: laddr
  sm_root_hash :: hash_type
  sm_parent :: trie_node_parent
  sm_depth :: nat
  sm_path_prefix :: path
  sm_has_peers :: bool

subsection \<open>Walking over the trie\<close>

datatype 'a visit = Visited 'a | VisitErrors "checker_error list" | VisitPanic | VisitOutOfFuel

type_synonym visit_state = "linear_address_range_set \<times> trie_stats"

text \<open>An error of the storage is reported; a panic inside the read is not caught.\<close>

definition io_visit :: "'a io_result \<Rightarrow> stored_area_parent \<Rightarrow> 'a visit" where
  "io_visit r parent =
     (case r of Inr x \<Rightarrow> Visited x | Inl Panic \<Rightarrow> VisitPanic | Inl e \<Rightarrow> VisitErrors [CheckerIO e parent])"

fun count_up :: "nat \<Rightarrow> (nat \<rightharpoonup> nat) \<Rightarrow> (nat \<rightharpoonup> nat) option" where
  "count_up k m = map_option (\<lambda>n. m(k \<mapsto> saturating_add64 n 1)) (m k)"

definition entry_or_insert0_count :: "nat \<Rightarrow> (nat \<rightharpoonup> nat) \<Rightarrow> (nat \<rightharpoonup> nat)" where
  "entry_or_insert0_count k m = m(k \<mapsto> saturating_add64 (case m k of None \<Rightarrow> 0 | Some n \<Rightarrow> n) 1)"

definition update_progress_bar :: "bool \<Rightarrow> linear_address_range_set \<Rightarrow> unit option" where
  "update_progress_bar progress_bar range_set =
     (if progress_bar \<and> \<not> unat (lr_bytes_in_set range_set) + unat HEADER_SIZE < 2 ^ 64 then None else Some ())"

definition collect_node_stats ::
  "laddr \<Rightarrow> nat \<Rightarrow> nat \<Rightarrow> path \<Rightarrow> node \<Rightarrow> trie_stats \<Rightarrow> trie_stats option" where
  "collect_node_stats addr area_size node_bytes current_path_prefix node ts =
     (let ts1 = (case node_value node of
                   None \<Rightarrow> ts
                 | Some v \<Rightarrow>
                     ts\<lparr>ts_kv_count := saturating_add64 (ts_kv_count ts) 1,
                        ts_kv_bytes := saturating_add64 (saturating_add64 (ts_kv_bytes ts)
                          ((length current_path_prefix + 1) div 2)) (length v)\<rparr>)
      in Option.bind (extra_read_pages addr area_size) (\<lambda>area_pages.
         let ts2 = (if area_pages > 0
                    then ts1\<lparr>ts_area_extra_unaligned_page := saturating_add64 (ts_area_extra_unaligned_page ts1) 1\<rparr>
                    else ts1)
         in Option.bind (extra_read_pages addr node_bytes) (\<lambda>node_pages.
            Some (if node_pages > 0
                  then ts2\<lparr>ts_node_extra_unaligned_page := saturating_add64 (ts_node_extra_unaligned_page ts2) 1\<rparr>
                  else ts2))))"

definition collect_branch_stats :: "area_index \<Rightarrow> nat \<Rightarrow> nat \<Rightarrow> nat \<Rightarrow> trie_stats \<Rightarrow> trie_stats option" where
  "collect_branch_stats area_index area_size node_bytes num_children ts =
     Option.bind (count_up area_size (ts_branch_area_counts ts)) (\<lambda>counts.
       case from_size node_bytes of
         Inl _ \<Rightarrow> None
       | Inr smallest_area_index \<Rightarrow>
           Some (ts\<lparr>ts_branch_area_counts := counts,
                    ts_branch_bytes := saturating_add64 (ts_branch_bytes ts) node_bytes,
                    ts_low_occupancy_branch_area_count :=
                      (if smallest_area_index < area_index
                       then saturating_add64 (ts_low_occupancy_branch_area_count ts) 1
                       else ts_low_occupancy_branch_area_count ts),
                    ts_branching_factors := entry_or_insert0_count num_children (ts_branching_factors ts)\<rparr>))"

definition collect_leaf_stats :: "area_index \<Rightarrow> nat \<Rightarrow> nat \<Rightarrow> nat \<Rightarrow> trie_stats \<Rightarrow> trie_stats option" where
  "collect_leaf_stats area_index area_size node_bytes depth ts =
     Option.bind (count_up area_size (ts_leaf_area_counts ts)) (\<lambda>counts.
       case from_size node_bytes of
         Inl _ \<Rightarrow> None
       | Inr smallest_area_index \<Rightarrow>
           Some (ts\<lparr>ts_leaf_area_counts := counts,
                    ts_leaf_bytes := saturating_add64 (ts_leaf_bytes ts) node_bytes,
                    ts_low_occupancy_leaf_area_count :=
                      (if smallest_area_index < area_index
                       then saturating_add64 (ts_low_occupancy_leaf_area_count ts) 1
                       else ts_low_occupancy_leaf_area_count ts),
                    ts_depths := entry_or_insert0_count depth (ts_depths ts)\<rparr>))"

text \<open>
  What is checked of one node before its area is marked as visited: the alignment of the address, the area,
  the node and its size, the length of the key, and the hash.
\<close>

record node_check =
  nc_area_index :: area_index
  nc_area_size :: nat
  nc_node :: node
  nc_node_bytes :: nat

definition check_node ::
  "hash_fns \<Rightarrow> nat reader_fn \<Rightarrow> node_hash_algorithm \<Rightarrow> storage \<Rightarrow> bool \<Rightarrow> sub_trie_metadata \<Rightarrow> node_check visit" where
  "check_node hf rdv alg st hash_check subtrie =
     (let addr = sm_root_address subtrie; parent = sm_parent subtrie
      in case check_area_aligned addr (TrieNodeArea parent) of
           Inl e \<Rightarrow> VisitErrors [e]
         | Inr _ \<Rightarrow>
        (case io_visit (area_index_and_size st addr) (TrieNodeArea parent) of
           VisitErrors es \<Rightarrow> VisitErrors es | VisitPanic \<Rightarrow> VisitPanic | VisitOutOfFuel \<Rightarrow> VisitOutOfFuel
         | Visited (area_index, area_size) \<Rightarrow>
        (case io_visit (read_node_with_num_bytes_from_disk rdv alg st addr) (TrieNodeArea parent) of
           VisitErrors es \<Rightarrow> VisitErrors es | VisitPanic \<Rightarrow> VisitPanic | VisitOutOfFuel \<Rightarrow> VisitOutOfFuel
         | Visited (node, node_bytes) \<Rightarrow>
        (if node_bytes > area_size
         then VisitErrors [NodeLargerThanArea addr (word_of_nat area_size) (word_of_nat node_bytes) parent]
         else
           let current_path_prefix = sm_path_prefix subtrie @ partial_path node;
               ok = Visited \<lparr>nc_area_index = area_index, nc_area_size = area_size, nc_node = node, nc_node_bytes = node_bytes\<rparr>
           in if node_value node \<noteq> None \<and> \<not> is_valid_key alg current_path_prefix
              then VisitErrors [InvalidKey current_path_prefix addr parent]
              else if hash_check
              then (case compute_node_ethhash hf alg node (sm_path_prefix subtrie) (sm_has_peers subtrie) of
                      Inl _ \<Rightarrow> VisitPanic
                    | Inr hash \<Rightarrow>
                        if \<not> HashType_eq (hf_keccak256 hf) hash (sm_root_hash subtrie)
                        then VisitErrors [HashMismatch current_path_prefix addr parent (sm_root_hash subtrie) hash]
                        else ok)
              else ok))))"

text \<open>The walk over the children collects the errors of all of them.\<close>

fun visit_children ::
  "(sub_trie_metadata \<Rightarrow> visit_state \<Rightarrow> unit visit \<times> visit_state) \<Rightarrow> sub_trie_metadata list \<Rightarrow>
   checker_error list \<Rightarrow> visit_state \<Rightarrow> checker_error list visit \<times> visit_state" where
  "visit_children visitor [] errors s = (Visited errors, s)"
| "visit_children visitor (m # ms) errors s =
     (case visitor m s of
        (Visited _, s') \<Rightarrow> visit_children visitor ms errors s'
      | (VisitErrors es, s') \<Rightarrow> visit_children visitor ms (errors @ es) s'
      | (VisitPanic, s') \<Rightarrow> (VisitPanic, s')
      | (VisitOutOfFuel, s') \<Rightarrow> (VisitOutOfFuel, s'))"

definition child_subtries :: "sub_trie_metadata \<Rightarrow> path \<Rightarrow> child option children \<Rightarrow> sub_trie_metadata list" where
  "child_subtries subtrie current_path_prefix cs =
     map (\<lambda>(nibble, (address, hash)).
            \<lparr>sm_root_address = address, sm_root_hash = hash,
             sm_parent = TrieParent (sm_root_address subtrie) nibble,
             sm_depth = saturating_add64 (sm_depth subtrie) 1,
             sm_path_prefix = current_path_prefix @ [as_u8 nibble],
             sm_has_peers = (children_count (branch_persist_info cs) \<noteq> 1)\<rparr>)
       (iter_present (branch_persist_info cs))"

primrec visit_trie_helper ::
  "nat \<Rightarrow> hash_fns \<Rightarrow> nat reader_fn \<Rightarrow> node_hash_algorithm \<Rightarrow> storage \<Rightarrow> check_opt \<Rightarrow> sub_trie_metadata \<Rightarrow>
   visit_state \<Rightarrow> unit visit \<times> visit_state" where
  "visit_trie_helper 0 hf rdv alg st opt subtrie s = (VisitOutOfFuel, s)"
| "visit_trie_helper (Suc fuel) hf rdv alg st opt subtrie s =
     (case check_node hf rdv alg st (co_hash_check opt) subtrie of
        VisitErrors es \<Rightarrow> (VisitErrors es, s)
      | VisitPanic \<Rightarrow> (VisitPanic, s)
      | VisitOutOfFuel \<Rightarrow> (VisitOutOfFuel, s)
      | Visited nc \<Rightarrow>
     (case s of (vs, ts) \<Rightarrow>
     (let addr = sm_root_address subtrie; parent = sm_parent subtrie;
          node = nc_node nc; area_size = nc_area_size nc; node_bytes = nc_node_bytes nc;
          current_path_prefix = sm_path_prefix subtrie @ partial_path node
      in case insert_area addr (word_of_nat area_size) (TrieNodeArea parent) vs of
           (CheckFailed e, vs') \<Rightarrow> (VisitErrors [e], (vs', ts))
         | (CheckPanic, vs') \<Rightarrow> (VisitPanic, (vs', ts))
         | (Checked _, vs') \<Rightarrow>
        (case update_progress_bar (co_progress_bar opt) vs' of
           None \<Rightarrow> (VisitPanic, (vs', ts))
         | Some _ \<Rightarrow>
        (case collect_node_stats addr area_size node_bytes current_path_prefix node ts of
           None \<Rightarrow> (VisitPanic, (vs', ts))
         | Some ts1 \<Rightarrow>
        (case node of
           Branch p v cs \<Rightarrow>
             (case collect_branch_stats (nc_area_index nc) area_size node_bytes
                     (children_count (branch_persist_info cs)) ts1 of
                None \<Rightarrow> (VisitPanic, (vs', ts1))
              | Some ts2 \<Rightarrow>
                  (case visit_children (visit_trie_helper fuel hf rdv alg st opt)
                          (child_subtries subtrie current_path_prefix cs) [] (vs', ts2) of
                     (Visited errors, s') \<Rightarrow> (if errors = [] then Visited () else VisitErrors errors, s')
                   | (VisitErrors es, s') \<Rightarrow> (VisitErrors es, s')
                   | (VisitPanic, s') \<Rightarrow> (VisitPanic, s')
                   | (VisitOutOfFuel, s') \<Rightarrow> (VisitOutOfFuel, s')))
         | Leaf p v \<Rightarrow>
             (case collect_leaf_stats (nc_area_index nc) area_size node_bytes (sm_depth subtrie) ts1 of
                None \<Rightarrow> (VisitPanic, (vs', ts1))
              | Some ts2 \<Rightarrow> (Visited (), (vs', ts2)))))))))"

text \<open>No path of areas is longer than the number of smallest areas below the high water mark.\<close>

definition trie_fuel :: "linear_address_range_set \<Rightarrow> nat" where
  "trie_fuel vs = unat (lr_max_addr vs) div 16 + 1"

definition visit_trie ::
  "hash_fns \<Rightarrow> nat reader_fn \<Rightarrow> node_hash_algorithm \<Rightarrow> storage \<Rightarrow> check_opt \<Rightarrow> laddr \<Rightarrow> hash_type \<Rightarrow>
   linear_address_range_set \<Rightarrow> (trie_stats \<times> checker_error list) visit \<times> linear_address_range_set" where
  "visit_trie hf rdv alg st opt root_address root_hash vs =
     (let trie = \<lparr>sm_root_address = root_address, sm_root_hash = root_hash, sm_parent = TrieRoot, sm_depth = 0,
                  sm_path_prefix = [], sm_has_peers = False\<rparr>
      in case visit_trie_helper (trie_fuel vs) hf rdv alg st opt trie (vs, TrieStats_default) of
           (Visited _, (vs', ts)) \<Rightarrow> (Visited (ts, []), vs')
         | (VisitErrors es, (vs', ts)) \<Rightarrow> (Visited (ts, es), vs')
         | (VisitPanic, (vs', ts)) \<Rightarrow> (VisitPanic, vs')
         | (VisitOutOfFuel, (vs', ts)) \<Rightarrow> (VisitOutOfFuel, vs'))"

subsection \<open>Walking over the free lists\<close>

lemma next_inner_result:
  "next_inner fl next_fn it = (Some x, it') \<Longrightarrow>
   (\<exists>it0 it1. next_fn it0 = (Some x, it1)) \<and> fli_current it' \<noteq> None \<and> lists_left it' \<le> lists_left it"
proof (induction it rule: measure_induct_rule [of lists_left])
  case (less it)
  from less.prems obtain i fi where c: "fli_current it = Some (i, fi)"
    by (auto simp: next_inner.simps [of fl next_fn it] split: option.splits)
  obtain r fi' where r: "next_fn fi = (r, fi')" by fastforce
  show ?case
  proof (cases r)
    case None
    let ?it = "move_to_next_free_list fl (it\<lparr>fli_current := Some (i, fi')\<rparr>)"
    have lt: "lists_left ?it < lists_left it" using c by (rule lists_left_move)
    have "next_inner fl next_fn ?it = (Some x, it')"
      using less.prems c r None by (simp add: next_inner.simps [of fl next_fn it])
    from less.IH [OF lt this] lt show ?thesis by simp
  next
    case (Some y)
    then have x: "x = y" "it' = it\<lparr>fli_current := Some (i, fi')\<rparr>"
      using less.prems c r by (simp_all add: next_inner.simps [of fl next_fn it])
    then have "lists_left it' = lists_left it" using c by (simp add: lists_left_def)
    then show ?thesis using r Some x by (intro conjI exI [of _ fi] exI [of _ fi']) simp_all
  qed
qed

lemma pbind_eq_Inr: "pbind p f bs = Inr r \<longleftrightarrow> (\<exists>x rest. p bs = Inr (x, rest) \<and> f x rest = Inr r)"
  by (auto simp: pbind_def rbind_def split: sum.splits)

lemma pcheck_eq_Inr: "pcheck e m bs = Inr (x, rest) \<longleftrightarrow> m = Some x \<and> rest = bs"
  by (auto simp: pcheck_def pfail_def preturn_def split: option.splits)

lemma FreeArea_from_storage_index:
  assumes "FreeArea_from_storage rdv st a = Inr (fa, i)"
  shows "i < 23"
proof -
  obtain rest where "FreeArea_from_storage_reader rdv (stream_from st (unat a)) = Inr ((fa, i), rest)"
    using assms by (cases "FreeArea_from_storage_reader rdv (stream_from st (unat a))") (auto simp: FreeArea_from_storage_def)
  then show ?thesis
    by (auto simp: FreeArea_from_storage_reader_def pbind_eq_Inr pcheck_eq_Inr AreaIndex_new_Some preturn_def)
qed

lemma fli_next_with_metadata_ok:
  assumes "fli_next_with_metadata rdv st fl it = (Some (r, parent), it')"
  shows "fli_current it' \<noteq> None" "lists_left it' \<le> lists_left it" "\<And>fm. r = Inr fm \<Longrightarrow> fm_area_index fm < 23"
proof -
  from next_inner_result [OF assms [unfolded fli_next_with_metadata_def]] obtain it0 it1 where
    nxt: "fi_next_with_metadata rdv st it0 = (Some (r, parent), it1)"
    and it': "fli_current it' \<noteq> None" "lists_left it' \<le> lists_left it" by blast
  show "fli_current it' \<noteq> None" "lists_left it' \<le> lists_left it" by (fact it')+
  show "fm_area_index fm < 23" if "r = Inr fm" for fm
    using nxt that FreeArea_from_storage_index
    by (auto simp: fi_next_with_metadata_def fi_next_def Let_def split: option.splits sum.splits prod.splits)
qed

lemma lists_left_move':
  "fli_current it' \<noteq> None \<Longrightarrow> lists_left it' \<le> lists_left it \<Longrightarrow> lists_left (move_to_next_free_list fl it') < lists_left it"
proof -
  assume "fli_current it' \<noteq> None" "lists_left it' \<le> lists_left it"
  then obtain c where c: "fli_current it' = Some c" by blast
  then have "it'\<lparr>fli_current := Some c\<rparr> = it'" by (cases it') simp
  with lists_left_move [OF c, of fl c] \<open>lists_left it' \<le> lists_left it\<close> show ?thesis by simp
qed

lemma insert_area_Checked:
  assumes "insert_area addr n parent vs = (Checked u, vs')"
  shows "unat (lr_bytes_in_set vs') = unat (lr_bytes_in_set vs) + unat n" "lr_max_addr vs' = lr_max_addr vs"
  using assms by (auto simp: insert_area_def Let_def unat_word_ariths split: option.splits if_splits prod.splits sum.splits)

lemma area_size_word: "(i :: area_index) < 23 \<Longrightarrow> 16 \<le> unat (word_of_nat (AREA_SIZES ! unat i) :: u64) \<and>
    unat (word_of_nat (AREA_SIZES ! unat i) :: u64) = AREA_SIZES ! unat i"
proof -
  assume "(i :: area_index) < 23"
  then have "unat i < 23" by (simp add: word_less_nat_alt)
  then have "AREA_SIZES ! unat i \<in> set AREA_SIZES" by (intro nth_mem) (simp add: AREA_SIZES_def)
  then have "16 \<le> AREA_SIZES ! unat i \<and> AREA_SIZES ! unat i < 2 ^ 64" by (auto simp: AREA_SIZES_def)
  then show ?thesis by (simp add: unat_of_nat)
qed

lemma freelist_move_less:
  "(Some (r, parent), it') = fli_next_with_metadata rdv st fl it \<Longrightarrow> lists_left (move_to_next_free_list fl it') < lists_left it"
  using fli_next_with_metadata_ok(1,2) [of rdv st fl it r parent it'] by (intro lists_left_move') simp_all

lemma freelist_stay_less:
  assumes "(Some (Inr fm, parent), it') = fli_next_with_metadata rdv st fl it"
    "(Checked u, vs') = insert_area a (word_of_nat (AREA_SIZES ! unat (fm_area_index fm))) p vs"
  shows "lists_left it' < lists_left it \<or> lists_left it' = lists_left it \<and>
    2 ^ 64 - unat (lr_bytes_in_set vs') < 2 ^ 64 - unat (lr_bytes_in_set vs)"
proof -
  have "fm_area_index fm < 23" "lists_left it' \<le> lists_left it"
    using fli_next_with_metadata_ok(2,3) [OF assms(1) [symmetric]] by blast+
  moreover have "unat (lr_bytes_in_set vs') = unat (lr_bytes_in_set vs) + unat (word_of_nat (AREA_SIZES ! unat (fm_area_index fm)) :: u64)"
    using insert_area_Checked(1) [OF assms(2) [symmetric]] .
  moreover have "unat (lr_bytes_in_set vs') < 2 ^ 64" using unsigned_less [of "lr_bytes_in_set vs'", where 'a = nat] by simp
  ultimately show ?thesis using area_size_word [of "fm_area_index fm"] by auto
qed

type_synonym freelist_state = "linear_address_range_set \<times> free_lists_stats \<times> checker_error list"

function visit_freelist_loop ::
  "nat reader_fn \<Rightarrow> storage \<Rightarrow> free_lists \<Rightarrow> bool \<Rightarrow> free_lists_iter \<Rightarrow> freelist_state \<Rightarrow> unit visit \<times> freelist_state" where
  "visit_freelist_loop rdv st fl pb it s =
     (case s of (vs, fs, errors) \<Rightarrow>
      (case fli_next_with_metadata rdv st fl it of
         (None, _) \<Rightarrow> (Visited (), s)
       | (Some (free_area, parent), it') \<Rightarrow>
      (case free_area of
         Inl e \<Rightarrow>
           if e = Panic then (VisitPanic, s)
           else visit_freelist_loop rdv st fl pb (move_to_next_free_list fl it')
                  (vs, fs, errors @ [CheckerIO e (FreeListArea parent)])
       | Inr fm \<Rightarrow>
      (case check_area_aligned (fm_addr fm) (FreeListArea parent) of
         Inl e \<Rightarrow> visit_freelist_loop rdv st fl pb (move_to_next_free_list fl it') (vs, fs, errors @ [e])
       | Inr _ \<Rightarrow>
      (let area_size = AREA_SIZES ! unat (fm_area_index fm)
       in if fm_free_list_id fm \<noteq> fm_area_index fm
          then visit_freelist_loop rdv st fl pb (move_to_next_free_list fl it')
                 (vs, fs, errors @ [FreelistAreaSizeMismatch (fm_addr fm) (word_of_nat area_size)
                                      (fm_free_list_id fm) (fm_area_index fm) parent])
          else
     (case insert_area (fm_addr fm) (word_of_nat area_size) (FreeListArea parent) vs of
        (CheckFailed e, vs') \<Rightarrow>
          visit_freelist_loop rdv st fl pb (move_to_next_free_list fl it') (vs', fs, errors @ [e])
      | (CheckPanic, vs') \<Rightarrow> (VisitPanic, (vs', fs, errors))
      | (Checked _, vs') \<Rightarrow>
     (case update_progress_bar pb vs' of
        None \<Rightarrow> (VisitPanic, (vs', fs, errors))
      | Some _ \<Rightarrow>
     (case (count_up area_size (fs_area_counts fs), extra_read_pages (fm_addr fm) area_size) of
        (Some counts, Some pages) \<Rightarrow>
          visit_freelist_loop rdv st fl pb it'
            (vs', \<lparr>fs_area_counts = counts,
                   fs_area_extra_unaligned_page =
                     (if pages > 0 then saturating_add64 (fs_area_extra_unaligned_page fs) 1
                      else fs_area_extra_unaligned_page fs)\<rparr>, errors)
      | _ \<Rightarrow> (VisitPanic, (vs', fs, errors))))))))))"
  by pat_completeness auto
termination
  apply (relation "measures [\<lambda>(_, _, _, _, it, _). lists_left it, \<lambda>(_, _, _, _, _, s). 2 ^ 64 - unat (lr_bytes_in_set (fst s))]")
       apply simp
      apply (clarsimp, drule freelist_move_less, simp)
     apply (clarsimp, drule freelist_move_less, simp)
    apply (clarsimp, drule freelist_move_less, simp)
   apply (clarsimp, drule (1) freelist_stay_less, simp, blast)
  apply (clarsimp, drule freelist_move_less, simp)
  done

declare visit_freelist_loop.simps [simp del]

definition visit_freelist ::
  "nat reader_fn \<Rightarrow> storage \<Rightarrow> check_opt \<Rightarrow> free_lists \<Rightarrow> linear_address_range_set \<Rightarrow>
   (free_lists_stats \<times> checker_error list) visit \<times> linear_address_range_set" where
  "visit_freelist rdv st opt fl vs =
     (case visit_freelist_loop rdv st fl (co_progress_bar opt) (FreeListsIterator_new fl 0) (vs, FreeListsStats_default, []) of
        (Visited _, (vs', fs, errors)) \<Rightarrow> (Visited (fs, errors), vs')
      | (VisitErrors es, (vs', fs, errors)) \<Rightarrow> (VisitErrors es, vs')
      | (VisitPanic, (vs', fs, errors)) \<Rightarrow> (VisitPanic, vs')
      | (VisitOutOfFuel, (vs', fs, errors)) \<Rightarrow> (VisitOutOfFuel, vs'))"

subsection \<open>The whole check\<close>

text \<open>
  \<open>root\<close> and \<open>root_hash\<close> are what \<open>root_as_maybe_persisted_node\<close> and \<open>root_hash\<close> of the checked store
  return.
\<close>

definition check ::
  "hash_fns \<Rightarrow> nat reader_fn \<Rightarrow> node_hash_algorithm \<Rightarrow> storage \<Rightarrow> maybe_persisted option \<Rightarrow> trie_hash option \<Rightarrow>
   node_store_header \<Rightarrow> check_opt \<Rightarrow> checker_report visit" where
  "check hf rdv alg st root root_hash header opt =
     (let high_watermark = h_size header
      in case lr_new high_watermark of
           Inl e \<Rightarrow> Visited \<lparr>cr_errors = [e], cr_db_stats = DBStats_default\<rparr>
         | Inr vs \<Rightarrow>
        (case (case (root, root_hash) of
                 (Some root, Some root_hash) \<Rightarrow>
                   (case as_linear_address root of
                      Some root_address \<Rightarrow> visit_trie hf rdv alg st opt root_address (Hash root_hash) vs
                    | None \<Rightarrow> (Visited (TrieStats_default, [UnpersistedRoot]), vs))
               | _ \<Rightarrow> (Visited (TrieStats_default, []), vs)) of
           (VisitErrors es, _) \<Rightarrow> VisitErrors es | (VisitPanic, _) \<Rightarrow> VisitPanic | (VisitOutOfFuel, _) \<Rightarrow> VisitOutOfFuel
         | (Visited (trie_stats, trie_errors), vs1) \<Rightarrow>
        (case visit_freelist rdv st opt (h_free_lists header) vs1 of
           (VisitErrors es, _) \<Rightarrow> VisitErrors es | (VisitPanic, _) \<Rightarrow> VisitPanic | (VisitOutOfFuel, _) \<Rightarrow> VisitOutOfFuel
         | (Visited (free_list_stats, free_list_errors), vs2) \<Rightarrow>
        (case lr_complement vs2 of
           Inl _ \<Rightarrow> VisitPanic
         | Inr leaked_ranges \<Rightarrow>
             Visited \<lparr>cr_errors = trie_errors @ free_list_errors @
                        (if lr_is_empty leaked_ranges then [] else [AreaLeaks leaked_ranges]),
                      cr_db_stats = \<lparr>ds_high_watermark = high_watermark, ds_trie_stats = trie_stats,
                                     ds_free_list_stats = free_list_stats\<rparr>\<rparr>))))"

subsection \<open>Repairs\<close>

record fix_report =
  fr_fixed :: "checker_error list"
  fr_unfixable :: "(checker_error \<times> io_error option) list"
  fr_db_stats :: db_stats

text \<open>The areas of leaked ranges are an iterator that the code builds and drops, so nothing is read for them.\<close>

fun fix_errors ::
  "(nat \<Rightarrow> u8 list) \<Rightarrow> checker_error list \<Rightarrow> fix_report \<Rightarrow> storage \<times> free_lists \<Rightarrow> fix_report \<times> storage \<times> free_lists" where
  "fix_errors enc [] report s = (report, s)"
| "fix_errors enc (error # errors) report s =
     (case checker_error_parent error of
        Some (TrieNodeArea _) \<Rightarrow>
          fix_errors enc errors (report\<lparr>fr_unfixable := fr_unfixable report @ [(error, None)]\<rparr>) s
      | Some (FreeListArea free_list_parent) \<Rightarrow>
          (case truncate_free_list enc free_list_parent s of
             (Inl e, s') \<Rightarrow>
               fix_errors enc errors (report\<lparr>fr_unfixable := fr_unfixable report @ [(error, Some e)]\<rparr>) s'
           | (Inr _, s') \<Rightarrow> fix_errors enc errors (report\<lparr>fr_fixed := fr_fixed report @ [error]\<rparr>) s')
      | None \<Rightarrow> fix_errors enc errors (report\<lparr>fr_unfixable := fr_unfixable report @ [(error, None)]\<rparr>) s)"

definition fix_proposal ::
  "(nat \<Rightarrow> u8 list) \<Rightarrow> storage \<Rightarrow> node_store_header \<Rightarrow> checker_report \<Rightarrow> fix_report \<times> storage \<times> node_store_header" where
  "fix_proposal enc st header check_report =
     (case fix_errors enc (cr_errors check_report)
             \<lparr>fr_fixed = [], fr_unfixable = [], fr_db_stats = cr_db_stats check_report\<rparr> (st, h_free_lists header) of
        (report, st', fl) \<Rightarrow> (report, st', header\<lparr>h_free_lists := fl\<rparr>))"

definition fix_store ::
  "(nat \<Rightarrow> u8 list) \<Rightarrow> reader \<Rightarrow> deleted_node_tracking \<Rightarrow> maybe_persisted option \<Rightarrow> storage \<Rightarrow> node_store_header \<Rightarrow>
   checker_report \<Rightarrow> (fix_report \<times> storage \<times> node_store_header) io_result" where
  "fix_store enc rd tracking root st header check_report =
     rbind (ns_new rd tracking root) (\<lambda>_. Inr (fix_proposal enc st header check_report))"

subsection \<open>Splitting leaked ranges into areas\<close>

definition read_leaked_area ::
  "node_put \<Rightarrow> cache_read_strategy \<Rightarrow> nat reader_fn \<Rightarrow> node_hash_algorithm \<Rightarrow> storage \<Rightarrow> laddr \<Rightarrow>
   (node_cache, area_index \<times> nat) sresult" where
  "read_leaked_area nput strategy rdv alg st address =
     sbind (\<lambda>cache. (read_stored_area_info rdv st address, cache)) (\<lambda>info.
     sbind (if ai_kind info = NodeArea
            then sbind (read_node_from_disk nput strategy rdv alg st address) (\<lambda>_. sreturn ()) else sreturn ()) (\<lambda>_.
     sreturn (ai_index info, ai_size info)))"

text \<open>
  The first loop: the areas that can be read, until the end of the range (\<open>True\<close>), or until an area that
  cannot be read or reaches beyond it (\<open>False\<close>). A loop that does not end has the value \<open>None\<close>.
\<close>

partial_function (option) leaked_read_loop ::
  "node_put \<Rightarrow> cache_read_strategy \<Rightarrow> nat reader_fn \<Rightarrow> node_hash_algorithm \<Rightarrow> storage \<Rightarrow> laddr \<Rightarrow> laddr \<Rightarrow>
   (laddr \<times> area_index) list \<Rightarrow> node_cache \<Rightarrow>
   ((bool \<times> laddr \<times> (laddr \<times> area_index) list) io_result \<times> node_cache) option" where
  "leaked_read_loop nput strategy rdv alg st end_addr current_addr leaked cache =
     (case read_leaked_area nput strategy rdv alg st current_addr cache of
        (Inl e, cache') \<Rightarrow> Some (if e = Panic then Inl Panic else Inr (False, current_addr, leaked), cache')
      | (Inr (area_index, area_size), cache') \<Rightarrow>
          (case LinearAddress_advance current_addr (word_of_nat area_size) of
             None \<Rightarrow> Some (Inl Panic, cache')
           | Some next_addr \<Rightarrow>
               if next_addr = end_addr then Some (Inr (True, next_addr, leaked @ [(current_addr, area_index)]), cache')
               else if next_addr > end_addr then Some (Inr (False, current_addr, leaked), cache')
               else leaked_read_loop nput strategy rdv alg st end_addr next_addr
                      (leaked @ [(current_addr, area_index)]) cache'))"

text \<open>The second loop, for one area size and for all of them.\<close>

partial_function (option) leaked_fill_loop ::
  "area_index \<Rightarrow> nat \<Rightarrow> laddr \<Rightarrow> laddr \<Rightarrow> (laddr \<times> area_index) list \<Rightarrow>
   (laddr \<times> (laddr \<times> area_index) list) io_result option" where
  "leaked_fill_loop area_index area_size end_addr current_addr leaked =
     (case LinearAddress_advance current_addr (word_of_nat area_size) of
        None \<Rightarrow> Some (Inl Panic)
      | Some next_addr \<Rightarrow>
          if next_addr \<le> end_addr
          then leaked_fill_loop area_index area_size end_addr next_addr (leaked @ [(current_addr, area_index)])
          else Some (Inr (current_addr, leaked)))"

fun leaked_fill :: "(area_index \<times> nat) list \<Rightarrow> laddr \<Rightarrow> laddr \<Rightarrow> (laddr \<times> area_index) list \<Rightarrow>
   (laddr \<times> (laddr \<times> area_index) list) io_result option" where
  "leaked_fill [] end_addr current_addr leaked = Some (Inr (current_addr, leaked))"
| "leaked_fill ((area_index, area_size) # sizes) end_addr current_addr leaked =
     (case leaked_fill_loop area_index area_size end_addr current_addr leaked of
        None \<Rightarrow> None
      | Some (Inl e) \<Rightarrow> Some (Inl e)
      | Some (Inr (current_addr', leaked')) \<Rightarrow> leaked_fill sizes end_addr current_addr' leaked')"

text \<open>The assertion of debug builds after the loops is not part of the definition.\<close>

definition split_range_into_leaked_areas ::
  "node_put \<Rightarrow> cache_read_strategy \<Rightarrow> nat reader_fn \<Rightarrow> node_hash_algorithm \<Rightarrow> storage \<Rightarrow> laddr \<times> laddr \<Rightarrow> node_cache \<Rightarrow>
   ((laddr \<times> area_index) list io_result \<times> node_cache) option" where
  "split_range_into_leaked_areas nput strategy rdv alg st leaked_range cache =
     (case leaked_range of (start, end_addr) \<Rightarrow>
     (case leaked_read_loop nput strategy rdv alg st end_addr start [] cache of
        None \<Rightarrow> None
      | Some (Inl e, cache') \<Rightarrow> Some (Inl e, cache')
      | Some (Inr (finished, current_addr, leaked), cache') \<Rightarrow>
          if finished then Some (Inr leaked, cache')
          else (case leaked_fill (rev area_size_iter) end_addr current_addr leaked of
                  None \<Rightarrow> None
                | Some r \<Rightarrow> Some (rbind r (\<lambda>(_, leaked'). Inr leaked'), cache'))))"

text \<open>What consuming the iterator over several ranges yields.\<close>

fun split_all_leaked_ranges ::
  "node_put \<Rightarrow> cache_read_strategy \<Rightarrow> nat reader_fn \<Rightarrow> node_hash_algorithm \<Rightarrow> storage \<Rightarrow> (laddr \<times> laddr) list \<Rightarrow> node_cache \<Rightarrow>
   ((laddr \<times> area_index) list io_result \<times> node_cache) option" where
  "split_all_leaked_ranges nput strategy rdv alg st [] cache = Some (Inr [], cache)"
| "split_all_leaked_ranges nput strategy rdv alg st (leaked_range # ranges) cache =
     (case split_range_into_leaked_areas nput strategy rdv alg st leaked_range cache of
        None \<Rightarrow> None
      | Some (Inl e, cache') \<Rightarrow> Some (Inl e, cache')
      | Some (Inr leaked, cache') \<Rightarrow>
          (case split_all_leaked_ranges nput strategy rdv alg st ranges cache' of
             None \<Rightarrow> None
           | Some (r, cache'') \<Rightarrow> Some (rbind r (\<lambda>rest. Inr (leaked @ rest)), cache'')))"

end
