(* ===== verification/Checker_Laws.thy ===== *)
theory Checker_Laws
  imports Checker Alloc_Reach
begin

section \<open>What the checker accepts\<close>

text \<open>
  A declarative description of a sound database image, and that the checker accepts exactly those. \<open>trie_at\<close>
  lists the areas of a stored trie all of whose nodes are readable, aligned, of fitting size, with valid keys
  and right hashes; \<open>free_walk\<close> lists the areas of well-formed free lists; \<open>apart\<close> says that areas lie
  between the header and the high water mark and do not overlap.
\<close>

subsection \<open>Areas as sets of addresses\<close>

definition area_words :: "area \<Rightarrow> laddr set" where
  "area_words x = {fst x ..< fst x + word_of_nat (AREA_SIZES ! unat (snd x))}"

definition areas_words :: "area list \<Rightarrow> laddr set" where
  "areas_words xs = (\<Union>x \<in> set xs. area_words x)"

fun apart :: "laddr \<Rightarrow> laddr set \<Rightarrow> area list \<Rightarrow> bool" where
  "apart mx S [] \<longleftrightarrow> True"
| "apart mx S (x # xs) \<longleftrightarrow>
     NODE_STORE_START_ADDR \<le> fst x \<and> unat (fst x) + AREA_SIZES ! unat (snd x) \<le> unat mx \<and>
     S \<inter> area_words x = {} \<and> apart mx (S \<union> area_words x) xs"

lemma areas_words_simps [simp]:
  "areas_words [] = {}" "areas_words (x # xs) = area_words x \<union> areas_words xs"
  "areas_words (xs @ ys) = areas_words xs \<union> areas_words ys"
  by (auto simp: areas_words_def)

lemma apart_append: "apart mx S (xs @ ys) \<longleftrightarrow> apart mx S xs \<and> apart mx (S \<union> areas_words xs) ys"
  by (induction xs arbitrary: S) (auto simp: Un_assoc)

lemma size_word [simp]: "(i :: area_index) < 23 \<Longrightarrow> unat (word_of_nat (AREA_SIZES ! unat i) :: u64) = AREA_SIZES ! unat i"
  using area_size_word by blast

lemma insert_area_apart:
  assumes "lr_ok vs" "i < 23"
  shows "if apart (lr_max_addr vs) (lr_set vs) [(a, i)]
    then \<exists>vs'. insert_area a (word_of_nat (AREA_SIZES ! unat i)) parent vs = (Checked (), vs') \<and> lr_ok vs' \<and>
      lr_max_addr vs' = lr_max_addr vs \<and> lr_set vs' = lr_set vs \<union> area_words (a, i) \<and>
      unat (lr_bytes_in_set vs') = unat (lr_bytes_in_set vs) + AREA_SIZES ! unat i \<and>
      area_in_bounds a (word_of_nat (AREA_SIZES ! unat i)) vs
    else \<exists>e. insert_area a (word_of_nat (AREA_SIZES ! unat i)) parent vs = (CheckFailed e, vs)"
proof (cases "area_in_bounds a (word_of_nat (AREA_SIZES ! unat i)) vs")
  case True
  then have b: "NODE_STORE_START_ADDR \<le> a" "unat a + AREA_SIZES ! unat i \<le> unat (lr_max_addr vs)"
    using assms(2) by (simp_all add: area_in_bounds_def)
  show ?thesis
    using insert_area_spec [OF assms(1) True, of parent] insert_area_Checked(1) [of a _ parent vs] True b assms(2)
    by (auto simp: area_words_def split: if_splits)
next
  case False
  then have "\<not> apart (lr_max_addr vs) (lr_set vs) [(a, i)]" using assms(2) by (auto simp: area_in_bounds_def)
  then show ?thesis using insert_area_out_of_bounds [OF False] by simp
qed

subsection \<open>Statistics never fail\<close>

definition counts_ok :: "(nat \<rightharpoonup> nat) \<Rightarrow> bool" where
  "counts_ok m \<longleftrightarrow> (\<forall>i < 23. m (AREA_SIZES ! i) \<noteq> None)"

definition stats_ok :: "trie_stats \<Rightarrow> bool" where
  "stats_ok ts \<longleftrightarrow> counts_ok (ts_branch_area_counts ts) \<and> counts_ok (ts_leaf_area_counts ts)"

lemma area_size_zeros_ok: "counts_ok area_size_zeros"
proof -
  have sizes: "map snd area_size_iter = AREA_SIZES" by (simp add: area_size_iter_def comp_def case_prod_unfold)
  have "area_size_zeros s = None \<longleftrightarrow> s \<notin> set (map snd area_size_iter)" for s
    by (force simp: area_size_zeros_def map_of_eq_None_iff case_prod_unfold)
  then show ?thesis unfolding sizes by (simp add: counts_ok_def)
qed

lemma TrieStats_default_ok: "stats_ok TrieStats_default"
  by (simp add: stats_ok_def TrieStats_default_def area_size_zeros_ok)

lemma count_up_ok: "counts_ok m \<Longrightarrow> i < 23 \<Longrightarrow> \<exists>m'. count_up (AREA_SIZES ! i) m = Some m' \<and> counts_ok m'"
proof -
  assume m: "counts_ok m" and i: "i < 23"
  then obtain n where "m (AREA_SIZES ! i) = Some n" by (auto simp: counts_ok_def)
  moreover have "counts_ok (m(AREA_SIZES ! i \<mapsto> saturating_add64 n 1))" using m by (simp add: counts_ok_def)
  ultimately show ?thesis by simp
qed

lemma extra_read_pages_ok:
  assumes "unat a + n \<le> 2 ^ 64 - 1"
  shows "\<exists>k. extra_read_pages a n = Some k"
proof -
  have "unat (word_of_nat (n - 1) :: u64) \<le> n - 1" by (simp add: unat_of_nat)
  then have "unat a + unat (word_of_nat (n - 1) :: u64) < 2 ^ 64" using assms by simp
  then show ?thesis by (simp add: extra_read_pages_def LinearAddress_advance_def Let_def)
qed

lemma collect_node_stats_ok:
  assumes "stats_ok ts" "unat a + n \<le> 2 ^ 64 - 1" "k \<le> n"
  shows "\<exists>ts'. collect_node_stats a n k p node ts = Some ts' \<and> stats_ok ts'"
proof -
  obtain x y where "extra_read_pages a n = Some x" "extra_read_pages a k = Some y"
    using extra_read_pages_ok [of a n] extra_read_pages_ok [of a k] assms by auto
  then show ?thesis using assms(1) by (auto simp: collect_node_stats_def stats_ok_def Let_def split: option.splits)
qed

lemma from_size_area: "i < 23 \<Longrightarrow> k \<le> AREA_SIZES ! unat (i :: area_index) \<Longrightarrow> \<exists>j. from_size k = Inr j"
  using area_size_bounds(3) [of i] from_size_error [of k] by (cases "from_size k") auto

lemma collect_kind_stats_ok:
  assumes "stats_ok ts" "i < 23" "k \<le> AREA_SIZES ! unat i"
  shows "\<exists>ts'. collect_branch_stats i (AREA_SIZES ! unat i) k c ts = Some ts' \<and> stats_ok ts'"
    "\<exists>ts'. collect_leaf_stats i (AREA_SIZES ! unat i) k c ts = Some ts' \<and> stats_ok ts'"
proof -
  have i: "unat i < 23" using assms(2) by (simp add: u8_less_23)
  obtain j where j: "from_size k = Inr j" using from_size_area [OF assms(2,3)] by blast
  show "\<exists>ts'. collect_branch_stats i (AREA_SIZES ! unat i) k c ts = Some ts' \<and> stats_ok ts'"
    "\<exists>ts'. collect_leaf_stats i (AREA_SIZES ! unat i) k c ts = Some ts' \<and> stats_ok ts'"
    using count_up_ok [OF _ i, of "ts_branch_area_counts ts"] count_up_ok [OF _ i, of "ts_leaf_area_counts ts"] assms(1) j
    by (auto simp: collect_branch_stats_def collect_leaf_stats_def stats_ok_def simp del: count_up.simps)
qed

subsection \<open>Stored tries\<close>

text \<open>\<open>node_at\<close>: a node that passes every check, in an area of size index \<open>i\<close>.\<close>

definition node_at ::
  "hash_fns \<Rightarrow> nat reader_fn \<Rightarrow> node_hash_algorithm \<Rightarrow> storage \<Rightarrow> bool \<Rightarrow> sub_trie_metadata \<Rightarrow> area_index \<Rightarrow> node \<Rightarrow> bool" where
  "node_at hf rdv alg st hash_check m i n \<longleftrightarrow>
     LinearAddress_is_aligned (sm_root_address m) \<and>
     area_index_and_size st (sm_root_address m) = Inr (i, AREA_SIZES ! unat i) \<and>
     (\<exists>k \<le> AREA_SIZES ! unat i. read_node_with_num_bytes_from_disk rdv alg st (sm_root_address m) = Inr (n, k)) \<and>
     (node_value n = None \<or> is_valid_key alg (sm_path_prefix m @ partial_path n)) \<and>
     (hash_check \<longrightarrow> (\<exists>h. compute_node_ethhash hf alg n (sm_path_prefix m) (sm_has_peers m) = Inr h \<and>
        HashType_eq (hf_keccak256 hf) h (sm_root_hash m)))"

inductive trie_at ::
  "hash_fns \<Rightarrow> nat reader_fn \<Rightarrow> node_hash_algorithm \<Rightarrow> storage \<Rightarrow> bool \<Rightarrow> sub_trie_metadata \<Rightarrow> area list \<Rightarrow> bool"
  for hf rdv alg st hc where
  leaf: "node_at hf rdv alg st hc m i (Leaf p v) \<Longrightarrow> trie_at hf rdv alg st hc m [(sm_root_address m, i)]"
| branch: "node_at hf rdv alg st hc m i (Branch p v cs) \<Longrightarrow>
    list_all2 (trie_at hf rdv alg st hc) (child_subtries m (sm_path_prefix m @ p) cs) xss \<Longrightarrow>
    trie_at hf rdv alg st hc m ((sm_root_address m, i) # concat xss)"

inductive_cases trie_atE: "trie_at hf rdv alg st hc m xs"

lemma area_index_and_size_index: "area_index_and_size st a = Inr (i, n) \<Longrightarrow> i < 23 \<and> n = AREA_SIZES ! unat i"
  by (auto simp: area_index_and_size_def rbind_def ok_or_def split: sum.splits option.splits if_splits)

lemma node_at_unique: "node_at hf rdv alg st hc m i n \<Longrightarrow> node_at hf rdv alg st hc m j n' \<Longrightarrow> j = i \<and> n' = n"
  by (auto simp: node_at_def)

lemma io_visit_simps:
  "io_visit r p = Visited x \<longleftrightarrow> r = Inr x" "io_visit r p \<noteq> VisitOutOfFuel"
  "io_visit r p = VisitErrors es \<Longrightarrow> es \<noteq> []"
  by (auto simp: io_visit_def split: sum.splits io_error.splits)

text \<open>\<open>check_node\<close> passes exactly the nodes of \<open>node_at\<close>.\<close>

lemma check_node_spec:
  "case check_node hf rdv alg st hc m of
     Visited nc \<Rightarrow> node_at hf rdv alg st hc m (nc_area_index nc) (nc_node nc) \<and> nc_area_index nc < 23 \<and>
       nc_area_size nc = AREA_SIZES ! unat (nc_area_index nc) \<and> nc_node_bytes nc \<le> nc_area_size nc
   | VisitErrors es \<Rightarrow> es \<noteq> [] \<and> (\<forall>i n. \<not> node_at hf rdv alg st hc m i n)
   | VisitPanic \<Rightarrow> \<forall>i n. \<not> node_at hf rdv alg st hc m i n
   | VisitOutOfFuel \<Rightarrow> False"
proof (cases "LinearAddress_is_aligned (sm_root_address m)")
  case aligned: True
  show ?thesis
  proof (cases "io_visit (area_index_and_size st (sm_root_address m)) (TrieNodeArea (sm_parent m))")
    case area: (Visited x)
    obtain i n where x: "x = (i, n)" by fastforce
    have i: "area_index_and_size st (sm_root_address m) = Inr (i, n)" "i < 23" "n = AREA_SIZES ! unat i"
      using area area_index_and_size_index [of st "sm_root_address m" i n] by (simp_all add: io_visit_simps x)
    show ?thesis
    proof (cases "io_visit (read_node_with_num_bytes_from_disk rdv alg st (sm_root_address m)) (TrieNodeArea (sm_parent m))")
      case node: (Visited y)
      obtain nd k where y: "y = (nd, k)" by fastforce
      then have "read_node_with_num_bytes_from_disk rdv alg st (sm_root_address m) = Inr (nd, k)"
        using node by (simp add: io_visit_simps)
      then show ?thesis using aligned area node i
        by (cases "compute_node_ethhash hf alg nd (sm_path_prefix m) (sm_has_peers m)")
          (simp_all add: check_node_def check_area_aligned_def node_at_def x y Let_def)
    qed (use aligned area in \<open>auto simp: check_node_def check_area_aligned_def node_at_def x Let_def io_visit_simps
        intro: io_visit_simps(3) simp: io_visit_def split: sum.splits io_error.splits\<close>)
  qed (use aligned in \<open>auto simp: check_node_def check_area_aligned_def node_at_def Let_def io_visit_simps
        intro: io_visit_simps(3) simp: io_visit_def split: sum.splits io_error.splits\<close>)
qed (simp add: check_node_def check_area_aligned_def node_at_def)

lemma list_all2_unique:
  "list_all2 (\<lambda>m xs. P m xs \<and> (\<forall>ys. P m ys \<longrightarrow> ys = xs)) ms xss \<Longrightarrow> list_all2 P ms yss \<Longrightarrow> yss = xss"
proof (induction ms xss arbitrary: yss rule: list_all2_induct)
  case (Cons m ms xs xss)
  then show ?case by (cases yss) auto
qed simp

lemma trie_at_unique: "trie_at hf rdv alg st hc m xs \<Longrightarrow> trie_at hf rdv alg st hc m ys \<Longrightarrow> ys = xs"
proof (induction arbitrary: ys rule: trie_at.induct)
  case (leaf m i p v)
  from leaf.prems show ?case
  proof (cases rule: trie_at.cases)
    case leaf': (leaf j p' v')
    then show ?thesis using node_at_unique [OF leaf.hyps] by blast
  next
    case (branch j p' v' cs yss)
    then show ?thesis using node_at_unique [OF leaf.hyps] by blast
  qed
next
  case (branch m i p v cs xss)
  from branch.prems show ?case
  proof (cases rule: trie_at.cases)
    case (leaf j p' v')
    then show ?thesis using node_at_unique [OF branch.hyps(1)] by blast
  next
    case branch': (branch j p' v' cs' yss)
    then have "j = i" "p' = p" "cs' = cs" using node_at_unique [OF branch.hyps(1)] by blast+
    then show ?thesis using list_all2_unique [OF branch.IH] branch' by simp
  qed
qed

text \<open>
  What a walk does to the visited addresses: \<open>ok\<close> says which areas it may add. A walk that succeeds has added
  them; a walk that fails could not have added any.
\<close>

definition walk_ok :: "linear_address_range_set \<Rightarrow> linear_address_range_set \<Rightarrow> trie_stats \<Rightarrow> bool" where
  "walk_ok vs vs' ts' \<longleftrightarrow> lr_ok vs' \<and> stats_ok ts' \<and> lr_max_addr vs' = lr_max_addr vs \<and> lr_set vs \<subseteq> lr_set vs'"

definition added :: "linear_address_range_set \<Rightarrow> (area list \<Rightarrow> bool) \<Rightarrow> linear_address_range_set \<Rightarrow> bool" where
  "added vs P vs' \<longleftrightarrow> (\<exists>xs. P xs \<and> apart (lr_max_addr vs) (lr_set vs) xs \<and> lr_set vs' = lr_set vs \<union> areas_words xs)"

definition no_room :: "linear_address_range_set \<Rightarrow> (area list \<Rightarrow> bool) \<Rightarrow> bool" where
  "no_room vs P \<longleftrightarrow> (\<nexists>xs. P xs \<and> apart (lr_max_addr vs) (lr_set vs) xs)"

definition walk_left :: "linear_address_range_set \<Rightarrow> nat" where
  "walk_left vs = unat (lr_max_addr vs) - unat (lr_bytes_in_set vs)"

lemma walk_ok_trans: "walk_ok vs vs' ts' \<Longrightarrow> walk_ok vs' vs'' ts'' \<Longrightarrow> walk_ok vs vs'' ts''"
  by (auto simp: walk_ok_def)

lemma walk_left_mono:
  assumes "lr_ok vs" "lr_ok vs'" "lr_max_addr vs' = lr_max_addr vs" "lr_set vs \<subseteq> lr_set vs'"
  shows "walk_left vs' \<le> walk_left vs"
proof -
  have "card (lr_set vs) \<le> card (lr_set vs')"
    using assms(2,4) by (intro card_mono) (auto simp: lr_ok_def intro: finite_subset)
  then show ?thesis using assms by (simp add: walk_left_def lr_ok_def)
qed

text \<open>What a visitor of one subtrie guarantees, with \<open>P\<close> for panics that may happen.\<close>

definition visit_post ::
  "bool \<Rightarrow> linear_address_range_set \<Rightarrow> (area list \<Rightarrow> bool) \<Rightarrow> unit visit \<times> visit_state \<Rightarrow> bool" where
  "visit_post panics vs P r \<longleftrightarrow>
     (case r of (res, (vs', ts')) \<Rightarrow> walk_ok vs vs' ts' \<and>
       (case res of
          Visited _ \<Rightarrow> added vs P vs'
        | VisitErrors es \<Rightarrow> es \<noteq> [] \<and> no_room vs P
        | VisitPanic \<Rightarrow> panics \<and> no_room vs P
        | VisitOutOfFuel \<Rightarrow> False))"

definition children_areas :: "(sub_trie_metadata \<Rightarrow> area list \<Rightarrow> bool) \<Rightarrow> sub_trie_metadata list \<Rightarrow> area list \<Rightarrow> bool" where
  "children_areas P ms xs \<longleftrightarrow> (\<exists>xss. list_all2 P ms xss \<and> xs = concat xss)"

lemma children_areas_simps [simp]:
  "children_areas P [] xs \<longleftrightarrow> xs = []"
  "children_areas P (m # ms) xs \<longleftrightarrow> (\<exists>ys zs. xs = ys @ zs \<and> P m ys \<and> children_areas P ms zs)"
proof -
  show "children_areas P [] xs \<longleftrightarrow> xs = []" by (simp add: children_areas_def)
  have "children_areas P (m # ms) xs \<longleftrightarrow> (\<exists>ys xss. P m ys \<and> list_all2 P ms xss \<and> xs = ys @ concat xss)"
    unfolding children_areas_def list_all2_Cons1 by (metis concat.simps(2))
  then show "children_areas P (m # ms) xs \<longleftrightarrow> (\<exists>ys zs. xs = ys @ zs \<and> P m ys \<and> children_areas P ms zs)"
    unfolding children_areas_def by blast
qed

definition children_post ::
  "bool \<Rightarrow> linear_address_range_set \<Rightarrow> (area list \<Rightarrow> bool) \<Rightarrow> checker_error list \<Rightarrow> checker_error list visit \<times> visit_state \<Rightarrow> bool" where
  "children_post panics vs P es r \<longleftrightarrow>
     (case r of (res, (vs', ts')) \<Rightarrow> walk_ok vs vs' ts' \<and>
       (case res of
          Visited es' \<Rightarrow> \<exists>new. es' = es @ new \<and> (if new = [] then added vs P vs' else no_room vs P)
        | VisitPanic \<Rightarrow> panics \<and> no_room vs P
        | _ \<Rightarrow> False))"

lemma children_post_good:
  assumes "children_post panics vs1 Q es r" "walk_ok vs vs1 ts1"
    and "\<And>vs'. added vs1 Q vs' \<Longrightarrow> added vs P vs'" "no_room vs1 Q \<Longrightarrow> no_room vs P"
  shows "children_post panics vs P es r"
proof -
  obtain res vs2 ts2 where r: "r = (res, (vs2, ts2))" by (metis prod.exhaust)
  then have "walk_ok vs vs2 ts2" using assms(1,2) walk_ok_trans by (auto simp: children_post_def)
  then show ?thesis using assms(1,3,4) unfolding children_post_def r by (cases res) (auto split: if_splits)
qed

lemma children_post_bad:
  assumes "children_post panics vs1 Q (es @ new) r" "walk_ok vs vs1 ts1" "new \<noteq> []" "no_room vs P"
  shows "children_post panics vs P es r"
proof -
  obtain res vs2 ts2 where r: "r = (res, (vs2, ts2))" by (metis prod.exhaust)
  then have "walk_ok vs vs2 ts2" using assms(1,2) walk_ok_trans by (auto simp: children_post_def)
  then show ?thesis using assms(1,3,4) unfolding children_post_def r by (cases res) auto
qed

lemma visit_children_post:
  assumes "\<And>m vs ts. Q m \<Longrightarrow> lr_ok vs \<Longrightarrow> stats_ok ts \<Longrightarrow> walk_left vs < n \<Longrightarrow> visit_post panics vs (P m) (f m (vs, ts))"
    and unique: "\<And>m xs ys. P m xs \<Longrightarrow> P m ys \<Longrightarrow> ys = xs"
    and "list_all Q ms" "lr_ok vs" "stats_ok ts" "walk_left vs < n"
  shows "children_post panics vs (children_areas P ms) es (visit_children f ms es (vs, ts))"
  using assms(3-)
proof (induction ms arbitrary: es vs ts)
  case Nil
  then show ?case by (auto simp: walk_ok_def added_def children_post_def)
next
  case (Cons m ms)
  obtain res vs1 ts1 where f: "f m (vs, ts) = (res, (vs1, ts1))" by (metis prod.exhaust)
  have post: "visit_post panics vs (P m) (res, (vs1, ts1))" using assms(1) [OF _ Cons.prems(2-), of m] Cons.prems(1) f by simp
  then have w: "walk_ok vs vs1 ts1" by (simp add: visit_post_def)
  have left: "walk_left vs1 < n" using walk_left_mono [of vs vs1] Cons.prems w by (auto simp: walk_ok_def)
  have bad: "no_room vs (children_areas P (m # ms))" if "no_room vs (P m)"
    using that by (auto simp: no_room_def apart_append)
  have "list_all Q ms" using Cons.prems(1) by simp
  note IH = Cons.IH [OF this _ _ left, of ts1]
  have ok1: "lr_ok vs1" "stats_ok ts1" "lr_max_addr vs1 = lr_max_addr vs" using w by (simp_all add: walk_ok_def)
  show ?case
  proof (cases res)
    case (Visited u)
    then obtain xs where xs: "P m xs" "apart (lr_max_addr vs) (lr_set vs) xs" "lr_set vs1 = lr_set vs \<union> areas_words xs"
      using post by (auto simp: visit_post_def added_def)
    have "children_post panics vs (children_areas P (m # ms)) es (visit_children f ms es (vs1, ts1))"
    proof (rule children_post_good [OF IH [OF ok1(1,2)] w])
      show "added vs (children_areas P (m # ms)) vs'" if z: "added vs1 (children_areas P ms) vs'" for vs'
      proof -
        obtain zs where "children_areas P ms zs" "apart (lr_max_addr vs1) (lr_set vs1) zs" "lr_set vs' = lr_set vs1 \<union> areas_words zs"
          using z by (auto simp: added_def)
        then show ?thesis unfolding added_def using xs ok1(3)
          by (intro exI [of _ "xs @ zs"]) (auto simp: apart_append)
      qed
      show "no_room vs (children_areas P (m # ms))" if "no_room vs1 (children_areas P ms)"
        unfolding no_room_def
      proof
        assume "\<exists>ws. children_areas P (m # ms) ws \<and> apart (lr_max_addr vs) (lr_set vs) ws"
        then obtain ys zs where "P m ys" "children_areas P ms zs" "apart (lr_max_addr vs) (lr_set vs) (ys @ zs)" by auto
        moreover from this have "ys = xs" using unique xs(1) by blast
        ultimately show False using that xs(3) ok1(3) by (auto simp: no_room_def apart_append)
      qed
    qed
    then show ?thesis using f Visited by (simp del: children_areas_simps)
  next
    case (VisitErrors new)
    then have a: "new \<noteq> []" "no_room vs (P m)" using post by (simp_all add: visit_post_def)
    show ?thesis using children_post_bad [OF IH [OF ok1(1,2), of "es @ new"] w a(1) bad [OF a(2)]] f VisitErrors
      by (simp del: children_areas_simps)
  qed (use post f bad in \<open>auto simp: visit_post_def children_post_def simp del: children_areas_simps\<close>)
qed

text \<open>A node whose area is free can be entered; the statistics and the progress bar do not panic.\<close>

lemma enter_node:
  assumes "lr_ok vs" "stats_ok ts" "i < 23" "k \<le> AREA_SIZES ! unat i" "apart (lr_max_addr vs) (lr_set vs) [(a, i)]"
  shows "\<exists>vs' ts1. insert_area a (word_of_nat (AREA_SIZES ! unat i)) parent vs = (Checked (), vs') \<and>
    update_progress_bar pb vs' = Some () \<and> collect_node_stats a (AREA_SIZES ! unat i) k p n ts = Some ts1 \<and>
    walk_ok vs vs' ts1 \<and> lr_set vs' = lr_set vs \<union> area_words (a, i) \<and> walk_left vs' + 16 \<le> walk_left vs"
proof -
  obtain vs' where vs': "insert_area a (word_of_nat (AREA_SIZES ! unat i)) parent vs = (Checked (), vs')" "lr_ok vs'"
    "lr_max_addr vs' = lr_max_addr vs" "lr_set vs' = lr_set vs \<union> area_words (a, i)"
    "unat (lr_bytes_in_set vs') = unat (lr_bytes_in_set vs) + AREA_SIZES ! unat i"
    "area_in_bounds a (word_of_nat (AREA_SIZES ! unat i)) vs"
    using insert_area_apart [OF assms(1,3), of a parent] assms(5) by (simp only: if_True) blast
  have lt: "unat (lr_max_addr vs) < 2 ^ 64" using unsigned_less [of "lr_max_addr vs", where 'a = nat] by simp
  then have "unat a + AREA_SIZES ! unat i \<le> 2 ^ 64 - 1" using vs'(6) assms(3) by (simp add: area_in_bounds_def)
  then obtain ts1 where ts1: "collect_node_stats a (AREA_SIZES ! unat i) k p n ts = Some ts1" "stats_ok ts1"
    using collect_node_stats_ok [OF assms(2) _ assms(4)] by blast
  have max: "2048 \<le> unat (lr_max_addr vs)" using assms(1)
    by (simp add: lr_ok_def NODE_STORE_START_ADDR_def HEADER_SIZE_def word_le_nat_alt)
  have b: "unat (lr_bytes_in_set vs') \<le> unat (lr_max_addr vs) - 2048" using lr_ok_bytes [OF vs'(2)] vs'(3) by simp
  then have "update_progress_bar pb vs' = Some ()"
    using lt max by (auto simp: update_progress_bar_def HEADER_SIZE_def)
  moreover have "walk_left vs' + 16 \<le> walk_left vs"
    using b max vs'(3,5) area_size_bounds(1) [OF assms(3)] by (simp add: walk_left_def)
  ultimately show ?thesis using vs' ts1 by (auto simp: walk_ok_def)
qed

lemma trie_at_first: "node_at hf rdv alg st hc m i n \<Longrightarrow> trie_at hf rdv alg st hc m xs \<Longrightarrow> \<exists>ys. xs = (sm_root_address m, i) # ys"
  by (erule trie_at.cases) (auto dest: node_at_unique)

lemma trie_at_branch_iff:
  assumes node: "node_at hf rdv alg st hc m i (Branch p v cs)"
  shows "trie_at hf rdv alg st hc m xs \<longleftrightarrow> (\<exists>ys. xs = (sm_root_address m, i) # ys \<and>
    children_areas (trie_at hf rdv alg st hc) (child_subtries m (sm_path_prefix m @ p) cs) ys)"
proof
  assume "trie_at hf rdv alg st hc m xs"
  then show "\<exists>ys. xs = (sm_root_address m, i) # ys \<and>
    children_areas (trie_at hf rdv alg st hc) (child_subtries m (sm_path_prefix m @ p) cs) ys"
    using node_at_unique [OF node] by (cases rule: trie_at.cases) (auto simp: children_areas_def)
qed (use trie_at.branch [OF node] in \<open>auto simp: children_areas_def\<close>)

lemma visit_children_room:
  assumes "apart (lr_max_addr vs) (lr_set vs) [x]" "lr_max_addr vs' = lr_max_addr vs" "lr_set vs' = lr_set vs \<union> area_words x"
    and iff: "\<And>xs. P xs \<longleftrightarrow> (\<exists>ys. xs = x # ys \<and> Q ys)"
  shows "added vs' Q vs'' \<Longrightarrow> added vs P vs''" "no_room vs' Q \<Longrightarrow> no_room vs P"
  using assms(1-3) by (auto simp: added_def no_room_def iff Un_assoc)

text \<open>Below a node that was hashed, every path consists of nibbles.\<close>

definition nibbles_ok :: "bool \<Rightarrow> sub_trie_metadata \<Rightarrow> bool" where
  "nibbles_ok hash_check m \<longleftrightarrow> (hash_check \<longrightarrow> valid_path (sm_path_prefix m))"

lemma as_components_Inr: "as_components p = Inr cs \<Longrightarrow> valid_path p"
  by (induction p arbitrary: cs) (auto simp: rbind_def try_new_def split: sum.splits if_splits option.splits)

lemma from_node_Inr: "from_node pfx n = Inr sh \<Longrightarrow> valid_path (partial_path n)"
  by (cases n) (auto simp: rbind_def dest: as_components_Inr split: sum.splits)

lemma compute_node_ethhash_Inr:
  assumes "compute_node_ethhash hf alg n pfx peers = Inr h"
  shows "valid_path pfx" "valid_path (partial_path n)"
proof -
  show "valid_path pfx"
    using assms by (auto simp: compute_node_ethhash_def rbind_def dest: as_components_Inr split: sum.splits)
  show "valid_path (partial_path n)"
    using assms
    by (cases n) (auto simp: compute_node_ethhash_def hash_node_def rbind_def dest: as_components_Inr from_node_Inr split: sum.splits if_splits)
qed

lemma child_subtries_nibbles:
  assumes "node_at hf rdv alg st hc m i (Branch p v cs)"
  shows "list_all (nibbles_ok hc) (child_subtries m (sm_path_prefix m @ p) cs)"
proof -
  have "valid_path (sm_path_prefix m)" "valid_path p" if hc
    using assms that compute_node_ethhash_Inr by (fastforce simp: node_at_def)+
  moreover have "valid_path [as_u8 c]" for c by (simp add: as_u8_less)
  ultimately show ?thesis by (auto simp: list_all_iff child_subtries_def nibbles_ok_def)
qed

text \<open>The step of the walk at a node that passed its checks, given what the walk over the children does.\<close>

lemma visit_node_post:
  fixes hf rdv alg st opt m nc
  defines "P \<equiv> trie_at hf rdv alg st (co_hash_check opt)"
  defines "i \<equiv> nc_area_index nc"
  assumes check: "check_node hf rdv alg st (co_hash_check opt) m = Visited nc"
    and vs: "lr_ok vs" "stats_ok ts" and room: "apart (lr_max_addr vs) (lr_set vs) [(sm_root_address m, i)]"
    and children: "\<And>ms vs' ts'. list_all (nibbles_ok (co_hash_check opt)) ms \<Longrightarrow> lr_ok vs' \<Longrightarrow> stats_ok ts' \<Longrightarrow> walk_left vs' + 16 \<le> walk_left vs \<Longrightarrow>
      children_post panics vs' (children_areas P ms) [] (visit_children (visit_trie_helper fuel hf rdv alg st opt) ms [] (vs', ts'))"
  shows "visit_post panics vs (P m) (visit_trie_helper (Suc fuel) hf rdv alg st opt m (vs, ts))"
proof -
  have node: "node_at hf rdv alg st (co_hash_check opt) m i (nc_node nc)" and i: "i < 23"
    and sz: "nc_area_size nc = AREA_SIZES ! unat i" and k: "nc_node_bytes nc \<le> AREA_SIZES ! unat i"
    using check_node_spec [of hf rdv alg st "co_hash_check opt" m] check by (simp_all add: i_def)
  let ?a = "sm_root_address m" and ?pre = "sm_path_prefix m @ partial_path (nc_node nc)"
  from enter_node [OF vs i k room] obtain vs' ts1 where
    ins: "insert_area ?a (word_of_nat (AREA_SIZES ! unat i)) (TrieNodeArea (sm_parent m)) vs = (Checked (), vs')"
    and pb: "update_progress_bar (co_progress_bar opt) vs' = Some ()"
    and stats: "collect_node_stats ?a (AREA_SIZES ! unat i) (nc_node_bytes nc) ?pre (nc_node nc) ts = Some ts1"
    and w: "walk_ok vs vs' ts1" and set': "lr_set vs' = lr_set vs \<union> area_words (?a, i)"
    and left: "walk_left vs' + 16 \<le> walk_left vs" by blast
  have ok': "lr_ok vs'" "stats_ok ts1" "lr_max_addr vs' = lr_max_addr vs" using w by (simp_all add: walk_ok_def)
  show ?thesis
  proof (cases "nc_node nc")
    case (Leaf p v)
    obtain ts2 where ts2: "collect_leaf_stats i (AREA_SIZES ! unat i) (nc_node_bytes nc) (sm_depth m) ts1 = Some ts2" "stats_ok ts2"
      using collect_kind_stats_ok(2) [OF ok'(2) i k] by blast
    have "P m [(?a, i)]" using node unfolding P_def Leaf by (rule trie_at.leaf)
    then have "added vs (P m) vs'" using room set' by (auto simp: added_def)
    then show ?thesis using check ins pb stats ts2 w
      by (simp add: visit_post_def Let_def sz i_def [symmetric] Leaf walk_ok_def)
  next
    case (Branch p v cs)
    let ?ms = "child_subtries m (sm_path_prefix m @ p) cs"
    obtain ts2 where ts2: "collect_branch_stats i (AREA_SIZES ! unat i) (nc_node_bytes nc)
        (children_count (branch_persist_info cs)) ts1 = Some ts2" "stats_ok ts2"
      using collect_kind_stats_ok(1) [OF ok'(2) i k] by blast
    have w2: "walk_ok vs vs' ts2" using w ts2(2) by (simp add: walk_ok_def)
    obtain res vs3 ts3 where r: "visit_children (visit_trie_helper fuel hf rdv alg st opt) ?ms [] (vs', ts2) = (res, (vs3, ts3))"
      by (metis prod.exhaust)
    then have post: "children_post panics vs' (children_areas P ?ms) [] (res, (vs3, ts3))"
      using children [OF child_subtries_nibbles [OF node [unfolded Branch]] ok'(1) ts2(2) left] by simp
    have w3: "walk_ok vs vs3 ts3" using walk_ok_trans [OF w2] post by (simp add: children_post_def)
    note iff = trie_at_branch_iff [OF node [unfolded Branch], folded P_def]
    show ?thesis using check ins pb stats ts2(1) r post w3 visit_children_room [OF room ok'(3) set' iff]
      by (cases res) (auto simp: visit_post_def children_post_def Let_def sz i_def [symmetric] Branch split: if_splits)
  qed
qed

lemma visit_trie_helper_post:
  fixes hf rdv alg st opt
  defines "P \<equiv> trie_at hf rdv alg st (co_hash_check opt)"
  defines "panics \<equiv> \<exists>m. nibbles_ok (co_hash_check opt) m \<and> check_node hf rdv alg st (co_hash_check opt) m = VisitPanic"
  assumes "nibbles_ok (co_hash_check opt) m" "lr_ok vs" "stats_ok ts" "walk_left vs < 16 * fuel"
  shows "visit_post panics vs (P m) (visit_trie_helper fuel hf rdv alg st opt m (vs, ts))"
  using assms(3-)
proof (induction fuel arbitrary: m vs ts)
  case (Suc fuel)
  let ?hc = "co_hash_check opt"
  have refl: "walk_ok vs vs ts" using Suc.prems by (simp add: walk_ok_def)
  note spec = check_node_spec [of hf rdv alg st ?hc m]
  have none: "no_room vs (P m)" if "\<forall>i n. \<not> node_at hf rdv alg st ?hc m i n"
    using that by (auto simp: no_room_def P_def elim: trie_atE)
  show ?case
  proof (cases "check_node hf rdv alg st ?hc m")
    case (Visited nc)
    define i where "i = nc_area_index nc"
    have node: "node_at hf rdv alg st ?hc m i (nc_node nc)" and i: "i < 23" and sz: "nc_area_size nc = AREA_SIZES ! unat i"
      using spec Visited by (simp_all add: i_def)
    show ?thesis
    proof (cases "apart (lr_max_addr vs) (lr_set vs) [(sm_root_address m, i)]")
      case False
      then obtain e where e: "insert_area (sm_root_address m) (word_of_nat (AREA_SIZES ! unat i)) (TrieNodeArea (sm_parent m)) vs = (CheckFailed e, vs)"
        using insert_area_apart [OF Suc.prems(2) i, of "sm_root_address m" "TrieNodeArea (sm_parent m)"]
        by (simp only: if_False) blast
      have "no_room vs (P m)" using False trie_at_first [OF node] by (fastforce simp: no_room_def P_def)
      then show ?thesis using Visited e refl by (simp add: visit_post_def Let_def sz i_def [symmetric])
    next
      case True
      show ?thesis unfolding P_def
      proof (rule visit_node_post [OF Visited Suc.prems(2,3) True [unfolded i_def]])
        fix ms vs' ts' assume "list_all (nibbles_ok ?hc) ms" "lr_ok vs'" "stats_ok ts'" "walk_left vs' + 16 \<le> walk_left vs"
        then show "children_post panics vs' (children_areas (trie_at hf rdv alg st ?hc) ms) []
            (visit_children (visit_trie_helper fuel hf rdv alg st opt) ms [] (vs', ts'))"
          using Suc.prems(4) by (intro visit_children_post [OF Suc.IH [unfolded P_def]]) (auto intro: trie_at_unique)
      qed
    qed
  next
    case (VisitErrors es)
    then show ?thesis using spec none refl by (simp add: visit_post_def)
  next
    case VisitPanic
    then show ?thesis using spec none refl Suc.prems(1) by (auto simp: visit_post_def panics_def)
  qed (use spec in simp)
qed simp

subsection \<open>Free lists\<close>

text \<open>
  \<open>free_walk\<close>: from list \<open>i\<close> at link \<open>m\<close> on, every free list up to the last one is a finite chain of
  aligned free areas of its own size; the areas in order.
\<close>

inductive free_walk :: "nat reader_fn \<Rightarrow> storage \<Rightarrow> free_lists \<Rightarrow> area_index \<Rightarrow> laddr option \<Rightarrow> area list \<Rightarrow> bool"
  for rdv st heads where
  free_end: "unat i = 22 \<Longrightarrow> free_walk rdv st heads i None []"
| free_list: "unat i < 22 \<Longrightarrow> free_walk rdv st heads (i + 1) (heads ! unat (i + 1)) xs \<Longrightarrow> free_walk rdv st heads i None xs"
| free_item: "FreeArea_from_storage rdv st a = Inr (fa, i) \<Longrightarrow> LinearAddress_is_aligned a \<Longrightarrow>
    free_walk rdv st heads i (next_free_block fa) xs \<Longrightarrow> free_walk rdv st heads i (Some a) ((a, i) # xs)"

inductive_simps free_walk_None: "free_walk rdv st heads i None xs"
inductive_simps free_walk_Some: "free_walk rdv st heads i (Some a) xs"

text \<open>The iterator stands in list \<open>i\<close> before link \<open>m\<close>, or it is at its end.\<close>

definition iter_pos :: "free_lists_iter \<Rightarrow> area_index \<Rightarrow> laddr option \<Rightarrow> bool" where
  "iter_pos it i m \<longleftrightarrow> i < 23 \<and> fli_next_free_list_id it = next_area_index i \<and>
     (\<exists>fi. fli_current it = Some (i, fi) \<and> fi_next_addr fi = m \<and> fi_id fi = i)"

lemma iter_pos_new: "iter_pos (FreeListsIterator_new heads 0) 0 (heads ! 0)"
  by (simp add: iter_pos_def FreeListsIterator_new_def free_list_iterator_def FreeListIterator_new_def)

lemma iter_pos_move:
  assumes "iter_pos it i m"
  shows "if unat i = 22 then fli_current (move_to_next_free_list heads it) = None
    else iter_pos (move_to_next_free_list heads it) (i + 1) (heads ! unat (i + 1))"
proof -
  have i: "i < 23" "fli_next_free_list_id it = next_area_index i" using assms by (auto simp: iter_pos_def)
  then have "unat i \<noteq> 22 \<Longrightarrow> i + 1 < 23" by (auto simp: word_less_nat_alt unat_word_ariths)
  then show ?thesis using i next_area_index_Some [OF i(1)]
    by (simp add: move_to_next_free_list_def iter_pos_def free_list_iterator_def FreeListIterator_new_def)
qed

lemma fli_next_with_metadata_None: "fli_current it = None \<Longrightarrow> fli_next_with_metadata rdv st heads it = (None, it)"
  by (simp add: fli_next_with_metadata_def next_inner.simps)

lemma fli_next_with_metadata_skip:
  assumes "iter_pos it i None"
  shows "fli_next_with_metadata rdv st heads it = fli_next_with_metadata rdv st heads (move_to_next_free_list heads it)"
proof -
  obtain fi where fi: "fli_current it = Some (i, fi)" "fi_next_addr fi = None" using assms by (auto simp: iter_pos_def)
  have same: "it\<lparr>fli_current := Some (i, fi)\<rparr> = it" using fi(1) by (cases it) simp
  show ?thesis using fi
    by (subst fli_next_with_metadata_def, subst next_inner.simps)
      (simp add: fi_next_with_metadata_def fi_next_def fli_next_with_metadata_def same)
qed

lemma fli_next_with_metadata_Some:
  assumes "iter_pos it i (Some a)"
  shows "\<exists>parent it'. (case FreeArea_from_storage rdv st a of
      Inl e \<Rightarrow> fli_next_with_metadata rdv st heads it = (Some (Inl e, parent), it') \<and> iter_pos it' i None
    | Inr (fa, k) \<Rightarrow> fli_next_with_metadata rdv st heads it =
        (Some (Inr \<lparr>fm_addr = a, fm_area_index = k, fm_free_list_id = i\<rparr>, parent), it') \<and> iter_pos it' i (next_free_block fa))"
proof -
  obtain fi where fi: "fli_current it = Some (i, fi)" "fi_next_addr fi = Some a" "fi_id fi = i"
    and i: "i < 23" "fli_next_free_list_id it = next_area_index i" using assms by (auto simp: iter_pos_def)
  show ?thesis using fi i
    by (cases "FreeArea_from_storage rdv st a")
      (auto simp: fli_next_with_metadata_def next_inner.simps fi_next_with_metadata_def fi_next_def iter_pos_def)
qed

definition freelist_post ::
  "bool \<Rightarrow> linear_address_range_set \<Rightarrow> (area list \<Rightarrow> bool) \<Rightarrow> checker_error list \<Rightarrow> unit visit \<times> freelist_state \<Rightarrow> bool" where
  "freelist_post panics vs P es r \<longleftrightarrow>
     (case r of (res, (vs', fs', es')) \<Rightarrow>
        lr_ok vs' \<and> lr_max_addr vs' = lr_max_addr vs \<and> (\<exists>new. es' = es @ new \<and>
          (case res of
             Visited _ \<Rightarrow> if new = [] then added vs P vs' else no_room vs P
           | VisitPanic \<Rightarrow> panics \<and> no_room vs P
           | _ \<Rightarrow> False)))"

lemma freelist_post_good:
  assumes "freelist_post panics vs1 Q es r" "lr_max_addr vs1 = lr_max_addr vs"
    and "\<And>vs'. added vs1 Q vs' \<Longrightarrow> added vs P vs'" "no_room vs1 Q \<Longrightarrow> no_room vs P"
  shows "freelist_post panics vs P es r"
proof -
  obtain res vs2 fs2 es2 where r: "r = (res, (vs2, fs2, es2))" by (metis prod.exhaust)
  show ?thesis using assms unfolding freelist_post_def r by (cases res) (auto split: if_splits)
qed

lemma freelist_post_bad:
  assumes "freelist_post panics vs Q (es @ [e]) r" "no_room vs P"
  shows "freelist_post panics vs P es r"
proof -
  obtain res vs2 fs2 es2 where r: "r = (res, (vs2, fs2, es2))" by (metis prod.exhaust)
  show ?thesis using assms unfolding freelist_post_def r by (cases res) auto
qed

lemma visit_freelist_loop_end:
  "fli_current it = None \<Longrightarrow> visit_freelist_loop rdv st heads pb it s = (Visited (), s)"
  by (cases s) (simp add: visit_freelist_loop.simps fli_next_with_metadata_None)

lemma visit_freelist_loop_skip:
  assumes "iter_pos it i None"
  shows "visit_freelist_loop rdv st heads pb it s = visit_freelist_loop rdv st heads pb (move_to_next_free_list heads it) s"
  unfolding visit_freelist_loop.simps [of rdv st heads pb it] visit_freelist_loop.simps [of rdv st heads pb "move_to_next_free_list heads it"]
    fli_next_with_metadata_skip [OF assms] ..

text \<open>The iterations still possible: free lists to come, then addresses not yet visited.\<close>

definition freelist_left :: "free_lists_iter \<Rightarrow> linear_address_range_set \<Rightarrow> nat \<times> nat" where
  "freelist_left it vs = (lists_left it, 2 ^ 64 - unat (lr_bytes_in_set vs))"

abbreviation freelist_less :: "((nat \<times> nat) \<times> nat \<times> nat) set" where
  "freelist_less \<equiv> less_than <*lex*> less_than"

text \<open>One free area: it is entered, or it is reported and its list is left.\<close>

definition free_item_ok :: "nat reader_fn \<Rightarrow> storage \<Rightarrow> linear_address_range_set \<Rightarrow> area \<Rightarrow> free_area \<Rightarrow> bool" where
  "free_item_ok rdv st vs x fa \<longleftrightarrow> FreeArea_from_storage rdv st (fst x) = Inr (fa, snd x) \<and>
     LinearAddress_is_aligned (fst x) \<and> apart (lr_max_addr vs) (lr_set vs) [x]"

lemma visit_freelist_loop_bad:
  assumes pos: "iter_pos it i (Some a)" and vs: "lr_ok vs"
    and bad: "\<And>fa. \<not> free_item_ok rdv st vs (a, i) fa" "FreeArea_from_storage rdv st a \<noteq> Inl Panic"
  shows "\<exists>it' m' e. iter_pos it' i m' \<and> lists_left (move_to_next_free_list heads it') < lists_left it \<and>
    visit_freelist_loop rdv st heads pb it (vs, fs, es) =
    visit_freelist_loop rdv st heads pb (move_to_next_free_list heads it') (vs, fs, es @ [e])"
proof (cases "FreeArea_from_storage rdv st a")
  case (Inl e)
  then obtain parent it' where nxt: "fli_next_with_metadata rdv st heads it = (Some (Inl e, parent), it')" "iter_pos it' i None"
    using fli_next_with_metadata_Some [OF pos, of rdv st heads] by auto
  have "lists_left (move_to_next_free_list heads it') < lists_left it" using freelist_move_less [OF nxt(1) [symmetric]] .
  then show ?thesis using nxt Inl bad(2) by (subst visit_freelist_loop.simps) fastforce
next
  case (Inr y)
  obtain fa k where y: "FreeArea_from_storage rdv st a = Inr (fa, k)" using Inr by (cases y) simp
  then obtain parent it' where nxt: "fli_next_with_metadata rdv st heads it =
      (Some (Inr \<lparr>fm_addr = a, fm_area_index = k, fm_free_list_id = i\<rparr>, parent), it')" "iter_pos it' i (next_free_block fa)"
    using fli_next_with_metadata_Some [OF pos, of rdv st heads] by auto
  have less: "lists_left (move_to_next_free_list heads it') < lists_left it" using freelist_move_less [OF nxt(1) [symmetric]] .
  have i: "i < 23" using pos by (simp add: iter_pos_def)
  have "\<exists>e. visit_freelist_loop rdv st heads pb it (vs, fs, es) =
    visit_freelist_loop rdv st heads pb (move_to_next_free_list heads it') (vs, fs, es @ [e])"
  proof (cases "LinearAddress_is_aligned a \<and> k = i")
    case True
    then have "\<not> apart (lr_max_addr vs) (lr_set vs) [(a, i)]" using bad(1) [of fa] y by (auto simp: free_item_ok_def)
    then obtain e where "insert_area a (word_of_nat (AREA_SIZES ! unat i)) (FreeListArea parent) vs = (CheckFailed e, vs)"
      using insert_area_apart [OF vs i, of a "FreeListArea parent"] by (simp only: if_False) blast
    then show ?thesis using nxt True by (subst visit_freelist_loop.simps) (auto simp: check_area_aligned_def)
  qed (use nxt in \<open>subst visit_freelist_loop.simps, auto simp: check_area_aligned_def\<close>)
  then show ?thesis using nxt(2) less by blast
qed

lemma visit_freelist_loop_good:
  assumes pos: "iter_pos it i (Some a)" and vs: "lr_ok vs" "counts_ok (fs_area_counts fs)" and ok: "free_item_ok rdv st vs (a, i) fa"
  shows "\<exists>it' vs' fs'. iter_pos it' i (next_free_block fa) \<and> (freelist_left it' vs', freelist_left it vs) \<in> freelist_less \<and>
    lr_ok vs' \<and> counts_ok (fs_area_counts fs') \<and> lr_max_addr vs' = lr_max_addr vs \<and> lr_set vs' = lr_set vs \<union> area_words (a, i) \<and>
    visit_freelist_loop rdv st heads pb it (vs, fs, es) = visit_freelist_loop rdv st heads pb it' (vs', fs', es)"
proof -
  have i: "i < 23" "unat i < 23" using pos by (simp_all add: iter_pos_def u8_less_23)
  obtain parent it' where nxt: "fli_next_with_metadata rdv st heads it =
      (Some (Inr \<lparr>fm_addr = a, fm_area_index = i, fm_free_list_id = i\<rparr>, parent), it')" "iter_pos it' i (next_free_block fa)"
    using fli_next_with_metadata_Some [OF pos, of rdv st heads] ok by (auto simp: free_item_ok_def)
  obtain vs' where ins: "insert_area a (word_of_nat (AREA_SIZES ! unat i)) (FreeListArea parent) vs = (Checked (), vs')"
    and pb: "update_progress_bar pb vs' = Some ()" and w: "walk_ok vs vs' TrieStats_default" "lr_set vs' = lr_set vs \<union> area_words (a, i)"
    using enter_node [OF vs(1) TrieStats_default_ok i(1) le_refl, of a "FreeListArea parent" pb "[]" "Leaf [] []"] ok
    by (auto simp: free_item_ok_def walk_ok_def TrieStats_default_ok)
  obtain m where m: "count_up (AREA_SIZES ! unat i) (fs_area_counts fs) = Some m" "counts_ok m"
    using count_up_ok [OF vs(2) i(2)] by blast
  have "unat a + AREA_SIZES ! unat i \<le> unat (lr_max_addr vs)" using ok by (simp add: free_item_ok_def)
  moreover have "unat (lr_max_addr vs) < 2 ^ 64" using unsigned_less [of "lr_max_addr vs", where 'a = nat] by simp
  ultimately obtain k where k: "extra_read_pages a (AREA_SIZES ! unat i) = Some k"
    using extra_read_pages_ok [of a "AREA_SIZES ! unat i"] by (auto simp: Suc_le_eq)
  have "(freelist_left it' vs', freelist_left it vs) \<in> freelist_less"
    using freelist_stay_less [OF nxt(1) [symmetric], of "()" vs' a "FreeListArea parent" vs] ins by (auto simp: freelist_left_def)
  moreover have "visit_freelist_loop rdv st heads pb it (vs, fs, es) = visit_freelist_loop rdv st heads pb it'
      (vs', \<lparr>fs_area_counts = m, fs_area_extra_unaligned_page = (if k > 0 then saturating_add64 (fs_area_extra_unaligned_page fs) 1
        else fs_area_extra_unaligned_page fs)\<rparr>, es)"
    using nxt ins pb m k ok unfolding visit_freelist_loop.simps [of rdv st heads pb it]
    by (simp add: check_area_aligned_def free_item_ok_def del: count_up.simps)
  ultimately show ?thesis using nxt(2) w m(2) unfolding walk_ok_def by (metis free_lists_stats.select_convs(1))
qed

lemma no_room_item:
  "(\<And>fa. \<not> free_item_ok rdv st vs (a, i) fa) \<Longrightarrow> no_room vs (free_walk rdv st heads i (Some a))"
  unfolding no_room_def free_walk_Some free_item_ok_def by fastforce

lemma free_walk_room:
  assumes "free_item_ok rdv st vs (a, i) fa" "lr_max_addr vs' = lr_max_addr vs" "lr_set vs' = lr_set vs \<union> area_words (a, i)"
  shows "added vs' (free_walk rdv st heads i (next_free_block fa)) vs'' \<Longrightarrow> added vs (free_walk rdv st heads i (Some a)) vs''"
    "no_room vs' (free_walk rdv st heads i (next_free_block fa)) \<Longrightarrow> no_room vs (free_walk rdv st heads i (Some a))"
proof -
  have iff: "free_walk rdv st heads i (Some a) xs \<longleftrightarrow> (\<exists>ys. xs = (a, i) # ys \<and> free_walk rdv st heads i (next_free_block fa) ys)" for xs
    using assms(1) by (auto simp: free_walk_Some free_item_ok_def)
  have room: "apart (lr_max_addr vs) (lr_set vs) [(a, i)]" using assms(1) by (simp add: free_item_ok_def)
  show "added vs' (free_walk rdv st heads i (next_free_block fa)) vs'' \<Longrightarrow> added vs (free_walk rdv st heads i (Some a)) vs''"
    "no_room vs' (free_walk rdv st heads i (next_free_block fa)) \<Longrightarrow> no_room vs (free_walk rdv st heads i (Some a))"
    using visit_children_room [OF room assms(2,3) iff] by blast+
qed

lemma wf_freelist_less: "wf freelist_less"
  by (intro wf_lex_prod wf_less_than)

lemma visit_freelist_loop_post:
  assumes "lr_ok vs" "counts_ok (fs_area_counts fs)" "iter_pos it i m"
  shows "freelist_post (\<exists>a. FreeArea_from_storage rdv st a = Inl Panic) vs (free_walk rdv st heads i m) es
    (visit_freelist_loop rdv st heads pb it (vs, fs, es))"
  using assms
proof (induction "freelist_left it vs" arbitrary: it vs fs i m es rule: wf_induct_rule [OF wf_freelist_less])
  case (1 it vs fs i m es)
  note IH = 1(1) and vs = 1(2) and counts = 1(3) and at = 1(4)
  have i: "i < 23" using at by (simp add: iter_pos_def)
  have move: "freelist_post (\<exists>a. FreeArea_from_storage rdv st a = Inl Panic) vs
      (if unat i = 22 then (\<lambda>xs. xs = []) else free_walk rdv st heads (i + 1) (heads ! unat (i + 1))) es'
      (visit_freelist_loop rdv st heads pb (move_to_next_free_list heads it') (vs, fs, es'))"
    if it': "iter_pos it' i m'" "lists_left (move_to_next_free_list heads it') < lists_left it" for it' m' es'
  proof (cases "unat i = 22")
    case True
    then show ?thesis using iter_pos_move [OF it'(1), of heads] vs
      by (simp add: visit_freelist_loop_end freelist_post_def added_def)
  next
    case False
    then show ?thesis using iter_pos_move [OF it'(1), of heads] it'(2) vs counts
      by (auto intro!: IH simp: freelist_left_def)
  qed
  show ?case
  proof (cases m)
    case None
    have less: "lists_left (move_to_next_free_list heads it) < lists_left it"
      using lists_left_move' [of it it heads] at by (auto simp: iter_pos_def)
    have "free_walk rdv st heads i None = (if unat i = 22 then (\<lambda>xs. xs = []) else free_walk rdv st heads (i + 1) (heads ! unat (i + 1)))"
      using i by (auto simp: free_walk_None word_less_nat_alt fun_eq_iff)
    then show ?thesis using move [OF at less] visit_freelist_loop_skip [OF at [unfolded None]] None by simp
  next
    case (Some a)
    note pos = at [unfolded Some]
    consider "FreeArea_from_storage rdv st a = Inl Panic" | fa where "free_item_ok rdv st vs (a, i) fa"
      | "FreeArea_from_storage rdv st a \<noteq> Inl Panic" "\<And>fa. \<not> free_item_ok rdv st vs (a, i) fa" by blast
    then show ?thesis
    proof cases
      case 1
      then have "visit_freelist_loop rdv st heads pb it (vs, fs, es) = (VisitPanic, (vs, fs, es))"
        using fli_next_with_metadata_Some [OF pos, of rdv st heads] by (auto simp: visit_freelist_loop.simps [of rdv st heads pb it])
      moreover have "no_room vs (free_walk rdv st heads i (Some a))"
        using 1 by (intro no_room_item) (simp add: free_item_ok_def)
      ultimately show ?thesis using 1 vs Some by (auto simp: freelist_post_def)
    next
      case (2 fa)
      note ok = this
      from visit_freelist_loop_good [OF pos vs counts ok, of heads pb es] obtain it' vs' fs' where
        s: "iter_pos it' i (next_free_block fa)" "(freelist_left it' vs', freelist_left it vs) \<in> freelist_less" "lr_ok vs'"
        "counts_ok (fs_area_counts fs')" "lr_max_addr vs' = lr_max_addr vs" "lr_set vs' = lr_set vs \<union> area_words (a, i)"
        "visit_freelist_loop rdv st heads pb it (vs, fs, es) = visit_freelist_loop rdv st heads pb it' (vs', fs', es)" by blast
      show ?thesis unfolding s(7) Some
        by (rule freelist_post_good [OF IH [OF s(2,3,4,1)] s(5) free_walk_room [OF ok s(5,6)]])
    next
      case 3
      from visit_freelist_loop_bad [OF pos vs 3(2,1), of heads pb fs es] obtain it' m' e where
        s: "iter_pos it' i m'" "lists_left (move_to_next_free_list heads it') < lists_left it"
        "visit_freelist_loop rdv st heads pb it (vs, fs, es) =
         visit_freelist_loop rdv st heads pb (move_to_next_free_list heads it') (vs, fs, es @ [e])" by blast
      show ?thesis unfolding s(3) Some
        by (rule freelist_post_bad [OF move [OF s(1,2)] no_room_item [OF 3(2)]])
    qed
  qed
qed

subsection \<open>The whole check\<close>

definition root_subtrie :: "laddr \<Rightarrow> trie_hash \<Rightarrow> sub_trie_metadata" where
  "root_subtrie a h = \<lparr>sm_root_address = a, sm_root_hash = Hash h, sm_parent = TrieRoot, sm_depth = 0,
     sm_path_prefix = [], sm_has_peers = False\<rparr>"

definition root_areas ::
  "hash_fns \<Rightarrow> nat reader_fn \<Rightarrow> node_hash_algorithm \<Rightarrow> storage \<Rightarrow> bool \<Rightarrow> maybe_persisted option \<Rightarrow> trie_hash option \<Rightarrow> area list \<Rightarrow> bool" where
  "root_areas hf rdv alg st hc root root_hash xs \<longleftrightarrow>
     (case (root, root_hash) of
        (Some r, Some h) \<Rightarrow>
          (case as_linear_address r of Some a \<Rightarrow> trie_at hf rdv alg st hc (root_subtrie a h) xs | None \<Rightarrow> False)
      | _ \<Rightarrow> xs = [])"

text \<open>The panics that are possible: while a node or a free area is read, or while a node is hashed.\<close>

definition may_panic :: "hash_fns \<Rightarrow> nat reader_fn \<Rightarrow> node_hash_algorithm \<Rightarrow> storage \<Rightarrow> bool \<Rightarrow> bool" where
  "may_panic hf rdv alg st hc \<longleftrightarrow>
     (\<exists>m. nibbles_ok hc m \<and> check_node hf rdv alg st hc m = VisitPanic) \<or> (\<exists>a. FreeArea_from_storage rdv st a = Inl Panic)"

lemma visit_trie_post:
  assumes "lr_ok vs"
  shows "case visit_trie hf rdv alg st opt a (Hash h) vs of (res, vs') \<Rightarrow> lr_ok vs' \<and> lr_max_addr vs' = lr_max_addr vs \<and>
    (let P = trie_at hf rdv alg st (co_hash_check opt) (root_subtrie a h)
     in case res of
          Visited (ts, es) \<Rightarrow> if es = [] then added vs P vs' else no_room vs P
        | VisitPanic \<Rightarrow> may_panic hf rdv alg st (co_hash_check opt) \<and> no_room vs P
        | _ \<Rightarrow> False)"
proof -
  have "walk_left vs < 16 * trie_fuel vs"
    unfolding walk_left_def trie_fuel_def using div_mult_mod_eq [of "unat (lr_max_addr vs)" 16] mod_less_divisor [of 16 "unat (lr_max_addr vs)"]
    by (simp add: algebra_simps)
  moreover have "nibbles_ok (co_hash_check opt) (root_subtrie a h)" by (simp add: nibbles_ok_def root_subtrie_def)
  ultimately have full: "visit_post (\<exists>m. nibbles_ok (co_hash_check opt) m \<and> check_node hf rdv alg st (co_hash_check opt) m = VisitPanic) vs
      (trie_at hf rdv alg st (co_hash_check opt) (root_subtrie a h))
      (visit_trie_helper (trie_fuel vs) hf rdv alg st opt (root_subtrie a h) (vs, TrieStats_default))"
    by (intro visit_trie_helper_post assms TrieStats_default_ok)
  obtain res vs' ts' where r: "visit_trie_helper (trie_fuel vs) hf rdv alg st opt (root_subtrie a h) (vs, TrieStats_default) = (res, (vs', ts'))"
    by (metis prod.exhaust)
  note post = full [unfolded r]
  show ?thesis using post
    by (cases res) (auto simp: visit_trie_def r [unfolded root_subtrie_def] visit_post_def walk_ok_def may_panic_def root_subtrie_def Let_def)
qed

lemma visit_freelist_post:
  assumes "lr_ok vs"
  shows "case visit_freelist rdv st opt heads vs of (res, vs') \<Rightarrow> lr_ok vs' \<and> lr_max_addr vs' = lr_max_addr vs \<and>
    (let P = free_walk rdv st heads 0 (heads ! 0)
     in case res of
          Visited (fs, es) \<Rightarrow> if es = [] then added vs P vs' else no_room vs P
        | VisitPanic \<Rightarrow> (\<exists>a. FreeArea_from_storage rdv st a = Inl Panic) \<and> no_room vs P
        | _ \<Rightarrow> False)"
proof -
  have "counts_ok (fs_area_counts FreeListsStats_default)" by (simp add: FreeListsStats_default_def area_size_zeros_ok)
  from visit_freelist_loop_post [OF assms this iter_pos_new, where rdv = rdv and st = st and heads = heads and es = "[]" and pb = "co_progress_bar opt"]
  obtain res vs' fs' es' where r: "visit_freelist_loop rdv st heads (co_progress_bar opt) (FreeListsIterator_new heads 0)
      (vs, FreeListsStats_default, []) = (res, (vs', fs', es'))"
    and post: "freelist_post (\<exists>a. FreeArea_from_storage rdv st a = Inl Panic) vs (free_walk rdv st heads 0 (heads ! 0)) [] (res, (vs', fs', es'))"
    by (metis prod.exhaust)
  show ?thesis using post by (cases res) (auto simp: visit_freelist_def r freelist_post_def Let_def)
qed

text \<open>The areas of the trie and of the free lists, in the order of the walk.\<close>

definition image_areas ::
  "hash_fns \<Rightarrow> nat reader_fn \<Rightarrow> node_hash_algorithm \<Rightarrow> storage \<Rightarrow> bool \<Rightarrow> maybe_persisted option \<Rightarrow> trie_hash option \<Rightarrow>
   free_lists \<Rightarrow> area list \<Rightarrow> area list \<Rightarrow> bool" where
  "image_areas hf rdv alg st hc root root_hash heads ts fs \<longleftrightarrow>
     root_areas hf rdv alg st hc root root_hash ts \<and> free_walk rdv st heads 0 (heads ! 0) fs"

lemma root_areas_unique:
  "root_areas hf rdv alg st hc root root_hash xs \<Longrightarrow> root_areas hf rdv alg st hc root root_hash ys \<Longrightarrow> ys = xs"
  by (auto simp: root_areas_def trie_at_unique split: option.splits)

lemma free_walk_unique: "free_walk rdv st heads i m xs \<Longrightarrow> free_walk rdv st heads i m ys \<Longrightarrow> ys = xs"
proof (induction arbitrary: ys rule: free_walk.induct)
  case (free_end i)
  from free_end.prems show ?case by (cases rule: free_walk.cases) (use free_end.hyps in simp_all)
next
  case (free_list i xs)
  from free_list.prems free_list.hyps(1) have "free_walk rdv st heads (i + 1) (heads ! unat (i + 1)) ys"
    by (cases rule: free_walk.cases) simp_all
  then show ?case by (rule free_list.IH)
next
  case (free_item a fa i xs)
  from free_item.prems free_item.hyps(1) obtain zs where "ys = (a, i) # zs" "free_walk rdv st heads i (next_free_block fa) zs"
    by (cases rule: free_walk.cases) simp_all
  with free_item.IH show ?case by blast
qed

definition root_visit ::
  "hash_fns \<Rightarrow> nat reader_fn \<Rightarrow> node_hash_algorithm \<Rightarrow> storage \<Rightarrow> check_opt \<Rightarrow> maybe_persisted option \<Rightarrow> trie_hash option \<Rightarrow>
   linear_address_range_set \<Rightarrow> (trie_stats \<times> checker_error list) visit \<times> linear_address_range_set" where
  "root_visit hf rdv alg st opt root root_hash vs =
     (case (root, root_hash) of
        (Some root, Some root_hash) \<Rightarrow>
          (case as_linear_address root of
             Some root_address \<Rightarrow> visit_trie hf rdv alg st opt root_address (Hash root_hash) vs
           | None \<Rightarrow> (Visited (TrieStats_default, [UnpersistedRoot]), vs))
      | _ \<Rightarrow> (Visited (TrieStats_default, []), vs))"

lemma root_visit_post:
  assumes "lr_ok vs"
  shows "case root_visit hf rdv alg st opt root root_hash vs of (res, vs') \<Rightarrow> lr_ok vs' \<and> lr_max_addr vs' = lr_max_addr vs \<and>
    (let P = root_areas hf rdv alg st (co_hash_check opt) root root_hash
     in case res of
          Visited (ts, es) \<Rightarrow> if es = [] then added vs P vs' else no_room vs P
        | VisitPanic \<Rightarrow> may_panic hf rdv alg st (co_hash_check opt) \<and> no_room vs P
        | _ \<Rightarrow> False)"
proof (cases "\<exists>r h a. root = Some r \<and> root_hash = Some h \<and> as_linear_address r = Some a")
  case True
  then obtain r h a where eq: "root = Some r" "root_hash = Some h" "as_linear_address r = Some a" by blast
  then have "root_areas hf rdv alg st (co_hash_check opt) root root_hash = trie_at hf rdv alg st (co_hash_check opt) (root_subtrie a h)"
    by (simp add: root_areas_def fun_eq_iff)
  then show ?thesis using visit_trie_post [OF assms, of hf rdv alg st opt a h] eq by (simp add: root_visit_def Let_def)
next
  case False
  then show ?thesis using assms
    by (auto simp: root_visit_def root_areas_def added_def no_room_def Let_def split: option.splits)
qed

text \<open>The areas do not overlap and leave no gap between the header and the high water mark.\<close>

definition exact_cover :: "u64 \<Rightarrow> area list \<Rightarrow> bool" where
  "exact_cover hwm xs \<longleftrightarrow> apart hwm {} xs \<and> areas_words xs = {NODE_STORE_START_ADDR ..< hwm}"

definition sound_image ::
  "hash_fns \<Rightarrow> nat reader_fn \<Rightarrow> node_hash_algorithm \<Rightarrow> storage \<Rightarrow> bool \<Rightarrow> maybe_persisted option \<Rightarrow> trie_hash option \<Rightarrow>
   node_store_header \<Rightarrow> bool" where
  "sound_image hf rdv alg st hc root root_hash header \<longleftrightarrow>
     (\<exists>ts fs. image_areas hf rdv alg st hc root root_hash (h_free_lists header) ts fs \<and> exact_cover (h_size header) (ts @ fs))"

lemma leaks_post:
  assumes "lr_ok vs"
  shows "\<exists>c. lr_complement vs = Inr c \<and> (lr_is_empty c \<longleftrightarrow> lr_set vs = {NODE_STORE_START_ADDR ..< lr_max_addr vs})"
proof -
  obtain c where c: "lr_complement vs = Inr c" "lr_ok c" "lr_set c = {NODE_STORE_START_ADDR ..< lr_max_addr vs} - lr_set vs"
    using lr_complement_spec [OF assms] by blast
  moreover have "lr_set vs \<subseteq> {NODE_STORE_START_ADDR ..< lr_max_addr vs}" using assms by (simp add: lr_ok_def)
  ultimately have "lr_is_empty c \<longleftrightarrow> lr_set vs = {NODE_STORE_START_ADDR ..< lr_max_addr vs}"
    using lr_is_empty_iff [OF c(2)] by blast
  with c(1) show ?thesis by blast
qed

lemma check_root_failed:
  assumes "lr_set vs = {}" "lr_max_addr vs = h_size header" "no_room vs (root_areas hf rdv alg st hc root root_hash)"
  shows "\<not> sound_image hf rdv alg st hc root root_hash header"
  using assms by (auto simp: sound_image_def exact_cover_def image_areas_def no_room_def apart_append)

lemma check_lists_failed:
  assumes "lr_set vs = {}" "lr_max_addr vs = h_size header" "lr_max_addr vs' = h_size header"
    and "added vs (root_areas hf rdv alg st hc root root_hash) vs'"
    and "no_room vs' (free_walk rdv st (h_free_lists header) 0 (h_free_lists header ! 0))"
  shows "\<not> sound_image hf rdv alg st hc root root_hash header"
proof
  assume "sound_image hf rdv alg st hc root root_hash header"
  then obtain ts fs where *: "root_areas hf rdv alg st hc root root_hash ts"
    "free_walk rdv st (h_free_lists header) 0 (h_free_lists header ! 0) fs" "apart (h_size header) {} (ts @ fs)"
    unfolding sound_image_def exact_cover_def image_areas_def by blast
  obtain xs where "root_areas hf rdv alg st hc root root_hash xs" "lr_set vs' = areas_words xs"
    using assms(1,4) by (auto simp: added_def)
  with root_areas_unique [OF *(1)] have "lr_set vs' = areas_words ts" by metis
  then show False using * assms(3,5) by (auto simp: no_room_def apart_append)
qed

lemma check_clean:
  assumes "lr_set vs = {}" "lr_max_addr vs = h_size header" "lr_max_addr vs' = h_size header"
    and "added vs (root_areas hf rdv alg st hc root root_hash) vs'"
    and "added vs' (free_walk rdv st (h_free_lists header) 0 (h_free_lists header ! 0)) vs''"
  shows "sound_image hf rdv alg st hc root root_hash header \<longleftrightarrow> lr_set vs'' = {NODE_STORE_START_ADDR ..< h_size header}"
proof -
  obtain ts where ts: "root_areas hf rdv alg st hc root root_hash ts" "apart (h_size header) {} ts" "lr_set vs' = areas_words ts"
    using assms(1,2,4) by (auto simp: added_def)
  obtain fs where fs: "free_walk rdv st (h_free_lists header) 0 (h_free_lists header ! 0) fs"
    "apart (h_size header) (lr_set vs') fs" "lr_set vs'' = lr_set vs' \<union> areas_words fs"
    using assms(3,5) by (auto simp: added_def)
  have iff: "image_areas hf rdv alg st hc root root_hash (h_free_lists header) ts' fs' \<longleftrightarrow> ts' = ts \<and> fs' = fs" for ts' fs'
    using ts(1) fs(1) root_areas_unique free_walk_unique unfolding image_areas_def by blast
  show ?thesis using ts fs unfolding sound_image_def iff by (simp add: exact_cover_def apart_append)
qed

lemma check_post:
  assumes "HEADER_SIZE \<le> h_size header"
  shows "case check hf rdv alg st root root_hash header opt of
      Visited r \<Rightarrow> cr_errors r = [] \<longleftrightarrow> sound_image hf rdv alg st (co_hash_check opt) root root_hash header
    | VisitPanic \<Rightarrow> may_panic hf rdv alg st (co_hash_check opt) \<and> \<not> sound_image hf rdv alg st (co_hash_check opt) root root_hash header
    | _ \<Rightarrow> False"
proof -
  obtain vs where new: "lr_new (h_size header) = Inr vs" using assms by (auto simp: lr_new_def not_less [symmetric])
  then have vs: "lr_ok vs" "lr_set vs = {}" "lr_max_addr vs = h_size header" using lr_new_ok by blast+
  let ?P = "root_areas hf rdv alg st (co_hash_check opt) root root_hash"
  let ?F = "free_walk rdv st (h_free_lists header) 0 (h_free_lists header ! 0)"
  obtain res vs1 where r: "root_visit hf rdv alg st opt root root_hash vs = (res, vs1)" by fastforce
  note post = root_visit_post [OF vs(1), of hf rdv alg st opt root root_hash, unfolded r]
  have vs1: "lr_ok vs1" "lr_max_addr vs1 = h_size header" using post vs(3) by simp_all
  obtain res' vs2 where f: "visit_freelist rdv st opt (h_free_lists header) vs1 = (res', vs2)" by fastforce
  note fpost = visit_freelist_post [OF vs1(1), where rdv = rdv and st = st and opt = opt and heads = "h_free_lists header", unfolded f]
  have vs2: "lr_ok vs2" "lr_max_addr vs2 = h_size header" using fpost vs1(2) by simp_all
  obtain c where c: "lr_complement vs2 = Inr c" "lr_is_empty c \<longleftrightarrow> lr_set vs2 = {NODE_STORE_START_ADDR ..< h_size header}"
    using leaks_post [OF vs2(1)] vs2(2) by auto
  note failed = check_root_failed [OF vs(2,3), of hf rdv alg st "co_hash_check opt" root root_hash]
  note lists = check_lists_failed [OF vs(2,3) vs1(2), of hf rdv alg st "co_hash_check opt" root root_hash]
  note clean = check_clean [OF vs(2,3) vs1(2), of hf rdv alg st "co_hash_check opt" root root_hash vs2]
  note unfolded = check_def [of hf rdv alg st root root_hash header opt, folded root_visit_def]
  show ?thesis
  proof (cases res)
    case (Visited x)
    obtain ts es where x: "x = (ts, es)" by fastforce
    have p: "if es = [] then added vs ?P vs1 else no_room vs ?P" using post Visited x by (simp add: Let_def)
    show ?thesis
    proof (cases res')
      case vf: (Visited y)
      obtain fs es' where y: "y = (fs, es')" by fastforce
      have q: "if es' = [] then added vs1 ?F vs2 else no_room vs1 ?F" using fpost vf y by (simp add: Let_def)
      show ?thesis using p q failed lists clean c
        by (simp add: unfolded new r Visited x f vf y Let_def split: if_splits)
    next
      case VisitPanic
      then have q: "\<exists>a. FreeArea_from_storage rdv st a = Inl Panic" "no_room vs1 ?F" using fpost by (simp_all add: Let_def)
      show ?thesis using p q failed lists
        by (simp add: unfolded new r Visited x f VisitPanic may_panic_def Let_def split: if_splits)
    qed (use fpost in simp_all)
  next
    case VisitPanic
    then show ?thesis using post failed by (simp add: unfolded new r Let_def)
  qed (use post in simp_all)
qed

end
