(* ===== verification/Checker_Properties.thy ===== *)
theory Checker_Properties
  imports Checker_Laws Storage_Properties Hash_Properties
begin

section \<open>What the checker guarantees\<close>

text \<open>
  The properties of the checker and of the range set: it accepts exactly the sound images, it always ends, and
  what the allocator produces is accepted; the splitting of leaked ranges and repairs.
\<close>

subsection \<open>Areas as sets of words and as intervals\<close>

definition area_shape :: "area \<Rightarrow> bool" where
  "area_shape x \<longleftrightarrow> snd x < 23 \<and> 16 dvd unat (fst x)"

lemma area_words_mem:
  assumes "i < 23" "unat a + AREA_SIZES ! unat i < 2 ^ 64"
  shows "w \<in> area_words (a, i) \<longleftrightarrow> area_start (a, i) \<le> unat w \<and> unat w < area_end (a, i)"
proof -
  have "unat (a + word_of_nat (AREA_SIZES ! unat i)) = unat a + AREA_SIZES ! unat i"
    using assms by (simp add: unat_word_ariths)
  then show ?thesis by (simp add: area_words_def word_le_nat_alt word_less_nat_alt)
qed

lemma area_words_disjoint:
  assumes "snd x < 23" "snd y < 23" "area_end x < 2 ^ 64" "area_end y < 2 ^ 64"
  shows "area_words x \<inter> area_words y = {} \<longleftrightarrow> disjoint_areas x y"
proof -
  obtain a i b j where x: "x = (a, i)" and y: "y = (b, j)" by (metis prod.exhaust)
  have mem: "w \<in> area_words x \<inter> area_words y \<longleftrightarrow>
      area_start x \<le> unat w \<and> unat w < area_end x \<and> area_start y \<le> unat w \<and> unat w < area_end y" for w
    using area_words_mem [of i a w] area_words_mem [of j b w] assms by (auto simp: x y)
  have sz: "16 \<le> AREA_SIZES ! unat i" "16 \<le> AREA_SIZES ! unat j" using area_size_bounds(1) assms(1,2) by (simp_all add: x y)
  show ?thesis
  proof
    assume e: "area_words x \<inter> area_words y = {}"
    have "\<not> (a \<in> area_words x \<inter> area_words y)" "\<not> (b \<in> area_words x \<inter> area_words y)" using e by blast+
    then show "disjoint_areas x y" unfolding mem disjoint_areas_def using sz by (auto simp: x y)
  next
    assume "disjoint_areas x y"
    then have "\<not> (w \<in> area_words x \<inter> area_words y)" for w unfolding mem disjoint_areas_def by auto
    then show "area_words x \<inter> area_words y = {}" by blast
  qed
qed

lemma apart_pairwise:
  "apart mx S xs \<longleftrightarrow>
   list_all (\<lambda>x. NODE_STORE_START_ADDR \<le> fst x \<and> area_end x \<le> unat mx \<and> S \<inter> area_words x = {}) xs \<and>
   sorted_wrt (\<lambda>x y. area_words x \<inter> area_words y = {}) xs"
  by (induction xs arbitrary: S) (auto simp: list_all_iff split: prod.splits)

lemma sorted_wrt_pairwise:
  "(\<And>x y. x \<in> set xs \<Longrightarrow> y \<in> set xs \<Longrightarrow> R x y \<longleftrightarrow> R y x) \<Longrightarrow> (\<And>x. x \<in> set xs \<Longrightarrow> \<not> R x x) \<Longrightarrow>
   sorted_wrt R xs \<longleftrightarrow> distinct xs \<and> pairwise R (set xs)"
proof (induction xs)
  case (Cons x xs)
  have "sorted_wrt R xs \<longleftrightarrow> distinct xs \<and> pairwise R (set xs)" using Cons.prems by (intro Cons.IH) auto
  moreover have "(\<forall>y \<in> set xs. R x y) \<longleftrightarrow> x \<notin> set xs \<and> (\<forall>y \<in> set xs. y \<noteq> x \<longrightarrow> R x y \<and> R y x)"
    using Cons.prems by (metis list.set_intros)
  ultimately show ?case by (auto simp: pairwise_insert)
qed simp

lemma sorted_wrt_eq:
  "(\<And>x y. x \<in> set xs \<Longrightarrow> y \<in> set xs \<Longrightarrow> R x y \<longleftrightarrow> R' x y) \<Longrightarrow> sorted_wrt R xs \<longleftrightarrow> sorted_wrt R' xs"
  using sorted_wrt_mono_rel [of xs R R'] sorted_wrt_mono_rel [of xs R' R] by blast

lemma area_ok_shape: "area_shape x \<Longrightarrow> area_ok hwm x \<longleftrightarrow> 2048 \<le> area_start x \<and> area_end x \<le> hwm"
  by (cases x) (auto simp: area_shape_def)

lemma apart_areas_ok:
  assumes "list_all area_shape xs"
  shows "apart mx {} xs \<longleftrightarrow> areas_ok (unat mx) (set xs) \<and> distinct xs"
proof -
  let ?b = "\<lambda>x. 2048 \<le> area_start x \<and> area_end x \<le> unat mx"
  have mx: "unat mx < 2 ^ 64" using unsigned_less [of mx, where 'a = nat] by simp
  have b: "NODE_STORE_START_ADDR \<le> fst x \<and> area_end x \<le> unat mx \<and> {} \<inter> area_words x = {} \<longleftrightarrow> ?b x" for x
    by (cases x) (simp add: NODE_STORE_START_ADDR_def HEADER_SIZE_def word_le_nat_alt)
  have "sorted_wrt (\<lambda>x y. area_words x \<inter> area_words y = {}) xs \<longleftrightarrow> sorted_wrt disjoint_areas xs" if "list_all ?b xs"
  proof (rule sorted_wrt_eq)
    fix x y assume "x \<in> set xs" "y \<in> set xs"
    then have "snd x < 23" "snd y < 23" "area_end x \<le> unat mx" "area_end y \<le> unat mx"
      using assms that unfolding list_all_iff area_shape_def by blast+
    then show "area_words x \<inter> area_words y = {} \<longleftrightarrow> disjoint_areas x y"
      using mx by (intro area_words_disjoint) simp_all
  qed
  moreover have "sorted_wrt disjoint_areas xs \<longleftrightarrow> distinct xs \<and> pairwise disjoint_areas (set xs)"
    using assms by (intro sorted_wrt_pairwise)
      (auto simp: disjoint_areas_sym disjoint_areas_irrefl list_all_iff area_shape_def)
  moreover have "(\<forall>x \<in> set xs. area_ok (unat mx) x) \<longleftrightarrow> list_all ?b xs"
    using assms area_ok_shape by (auto simp: list_all_iff)
  ultimately show ?thesis unfolding apart_pairwise b areas_ok_def by blast
qed

lemma areas_words_tiled:
  assumes "list_all area_shape xs" "list_all (\<lambda>x. area_end x \<le> unat mx) xs" "2048 \<le> unat mx"
  shows "areas_words xs = {NODE_STORE_START_ADDR ..< mx} \<longleftrightarrow> tiled (unat mx) (set xs)"
proof -
  have mx: "unat mx < 2 ^ 64" using unsigned_less [of mx, where 'a = nat] by simp
  have "w \<in> areas_words xs \<longleftrightarrow> unat w \<in> (\<Union>x \<in> set xs. {area_start x ..< area_end x})" for w
  proof -
    have "w \<in> area_words x \<longleftrightarrow> unat w \<in> {area_start x ..< area_end x}" if "x \<in> set xs" for x
    proof -
      obtain a i where x: "x = (a, i)" by fastforce
      then have "i < 23" "unat a + AREA_SIZES ! unat i < 2 ^ 64"
        using assms(1,2) mx that by (auto simp: list_all_iff area_shape_def)
      then show ?thesis using area_words_mem [of i a w] by (simp add: x)
    qed
    then show ?thesis by (auto simp: areas_words_def)
  qed
  then have "areas_words xs = unat -` (\<Union>x \<in> set xs. {area_start x ..< area_end x})" unfolding vimage_def by blast
  moreover have "{NODE_STORE_START_ADDR ..< mx} = unat -` {2048 ..< unat mx}"
    by (auto simp: NODE_STORE_START_ADDR_def HEADER_SIZE_def word_le_nat_alt word_less_nat_alt)
  moreover have "{..< unat mx} \<subseteq> range (unat :: u64 \<Rightarrow> nat)"
  proof
    fix k assume "k \<in> {..< unat mx}"
    then have "unat (word_of_nat k :: u64) = k" using mx by (simp add: unat_of_nat)
    then show "k \<in> range (unat :: u64 \<Rightarrow> nat)" by (metis rangeI)
  qed
  moreover have "(\<Union>x \<in> set xs. {area_start x ..< area_end x}) \<subseteq> {..< unat mx}" "{2048 ..< unat mx} \<subseteq> {..< unat mx}"
    using assms(2) by (fastforce simp: list_all_iff)+
  ultimately show ?thesis unfolding tiled_def by (metis (no_types, lifting) image_vimage_eq Int_absorb2 subset_trans)
qed

lemma exact_cover_iff:
  assumes "list_all area_shape xs" "2048 \<le> unat hwm"
  shows "exact_cover hwm xs \<longleftrightarrow> areas_ok (unat hwm) (set xs) \<and> distinct xs \<and> tiled (unat hwm) (set xs)"
proof -
  have "list_all (\<lambda>x. area_end x \<le> unat hwm) xs" if "areas_ok (unat hwm) (set xs)"
    using that assms(1) area_ok_shape by (auto simp: areas_ok_def list_all_iff)
  then show ?thesis unfolding exact_cover_def apart_areas_ok [OF assms(1)] using areas_words_tiled [OF assms(1) _ assms(2)] by blast
qed

lemma node_at_shape: "node_at hf rdv alg st hc m i n \<Longrightarrow> area_shape (sm_root_address m, i)"
proof -
  assume "node_at hf rdv alg st hc m i n"
  then have "area_index_and_size st (sm_root_address m) = Inr (i, AREA_SIZES ! unat i)" "LinearAddress_is_aligned (sm_root_address m)"
    unfolding node_at_def by blast+
  then show ?thesis using area_index_and_size_index
    by (auto simp: area_shape_def LinearAddress_is_aligned_def dvd_eq_mod_eq_0)
qed

lemma trie_at_shape: "trie_at hf rdv alg st hc m xs \<Longrightarrow> list_all area_shape xs"
proof (induction rule: trie_at.induct)
  case (leaf m i p v)
  then show ?case using node_at_shape by simp
next
  case (branch m i p v cs xss)
  have "list_all (list_all area_shape) xss"
    using branch.IH by (induction rule: list_all2_induct) simp_all
  then have "list_all area_shape (concat xss)" by (auto simp: list_all_iff)
  then show ?case using node_at_shape [OF branch.hyps] by simp
qed

lemma free_walk_shape: "free_walk rdv st heads i m xs \<Longrightarrow> i < 23 \<Longrightarrow> list_all area_shape xs"
proof (induction rule: free_walk.induct)
  case (free_list i xs)
  then have "i + 1 < 23" by (simp add: word_less_nat_alt unat_word_ariths)
  then show ?case by (rule free_list.IH)
next
  case (free_item a fa i xs)
  then show ?case by (simp add: area_shape_def LinearAddress_is_aligned_def dvd_eq_mod_eq_0)
qed simp

lemma image_areas_shape:
  "image_areas hf rdv alg st hc root root_hash heads ts fs \<Longrightarrow> list_all area_shape (ts @ fs)"
  using free_walk_shape [of rdv st heads 0 "heads ! 0" fs]
  by (auto simp: image_areas_def root_areas_def trie_at_shape split: option.splits)

lemma sound_image_iff:
  assumes "HEADER_SIZE \<le> h_size header"
  shows "sound_image hf rdv alg st hc root root_hash header \<longleftrightarrow>
    (\<exists>ts fs. root_areas hf rdv alg st hc root root_hash ts \<and>
       free_walk rdv st (h_free_lists header) 0 (h_free_lists header ! 0) fs \<and>
       areas_ok (unat (h_size header)) (set (ts @ fs)) \<and> distinct (ts @ fs) \<and>
       tiled (unat (h_size header)) (set (ts @ fs)))"
proof -
  have "2048 \<le> unat (h_size header)" using assms by (simp add: HEADER_SIZE_def word_le_nat_alt)
  then have "image_areas hf rdv alg st hc root root_hash (h_free_lists header) ts fs \<Longrightarrow>
      exact_cover (h_size header) (ts @ fs) \<longleftrightarrow> areas_ok (unat (h_size header)) (set (ts @ fs)) \<and> distinct (ts @ fs) \<and>
       tiled (unat (h_size header)) (set (ts @ fs))" for ts fs
    by (intro exact_cover_iff image_areas_shape)
  then show ?thesis unfolding sound_image_def by (metis image_areas_def)
qed

subsection \<open>Stored nodes\<close>

lemma saturating_succ_eq: "unat a < 2 ^ 64 - 1 \<Longrightarrow> unat (saturating_succ a) = Suc (unat a)"
  by (auto simp: saturating_succ_def unat_word_ariths unsigned_minus_1_eq_mask mask_eq_exp_minus_1)

lemma read_node_holds:
  assumes "reads (from_reader rdv alg) body n" "holds (st_bytes st) (unat a) (i # body)" "unat a < 2 ^ 64 - 1" "length body < 2 ^ 64 - 1"
  shows "read_node_with_num_bytes_from_disk rdv alg st a = Inr (n, length body + 1)"
proof -
  obtain rest where "drop (unat a) (st_bytes st) = i # body @ rest" using assms(2) by (auto simp: holds_def prefix_def)
  then have "drop (Suc (unat a)) (st_bytes st) = body @ rest" by (metis drop_Suc list.sel(3) tl_drop)
  then have "stream_from st (unat (saturating_succ a)) = body @ rest" using saturating_succ_eq [OF assms(3)] by (simp add: stream_from_def)
  then show ?thesis using assms(4) readsD [OF assms(1), of rest]
    by (simp add: read_node_with_num_bytes_from_disk_def Let_def saturating_add64_def)
qed

lemma compute_node_ethhash_valid:
  assumes "valid_path pfx" "valid_path (partial_path n)"
  shows "\<exists>h. compute_node_ethhash hf alg n pfx peers = Inr h"
  using assms by (cases n) (simp_all add: compute_node_ethhash_def hash_node_def as_components_comps)

lemma may_panic_cases:
  assumes "may_panic hf rdv alg st hc"
  shows "(\<exists>a. read_node_with_num_bytes_from_disk rdv alg st a = Inl Panic) \<or> (\<exists>a. FreeArea_from_storage rdv st a = Inl Panic) \<or>
    (hc \<and> (\<exists>a n k. read_node_with_num_bytes_from_disk rdv alg st a = Inr (n, k) \<and> \<not> valid_path (partial_path n)))"
proof (rule ccontr)
  assume no: "\<not> ?thesis"
  with assms obtain m where m: "nibbles_ok hc m" "check_node hf rdv alg st hc m = VisitPanic" by (auto simp: may_panic_def)
  let ?a = "sm_root_address m"
  have "area_index_and_size st ?a \<noteq> Inl Panic"
    by (auto simp: area_index_and_size_def rbind_def ok_or_def split: sum.splits option.splits)
  moreover have "read_node_with_num_bytes_from_disk rdv alg st ?a \<noteq> Inl Panic" using no by blast
  ultimately obtain i sz n k where r: "read_node_with_num_bytes_from_disk rdv alg st ?a = Inr (n, k)"
    "hc" "\<And>h. compute_node_ethhash hf alg n (sm_path_prefix m) (sm_has_peers m) \<noteq> Inr h"
    using m(2) by (fastforce simp: check_node_def io_visit_def Let_def split: sum.splits io_error.splits if_splits)
  then have "valid_path (sm_path_prefix m)" "valid_path (partial_path n)" using no m(1) unfolding nibbles_ok_def by blast+
  then show False using compute_node_ethhash_valid r(3) by blast
qed

text \<open>A small database for the witnesses: one leaf in the first area after the header.\<close>

definition leaf_image :: "u8 list \<Rightarrow> allocator" where
  "leaf_image body =
     sample_allocator\<lparr>al_header := (al_header sample_allocator)\<lparr>h_size := 2064\<rparr>,
       al_storage := (al_storage sample_allocator)\<lparr>st_bytes :=
         write_bytes (st_bytes (al_storage sample_allocator)) 2048 (0 # body)\<rparr>\<rparr>"

lemma from_size_small: "n \<le> 16 \<Longrightarrow> from_size n = Inr 0"
  by (auto simp: from_size_def partition_point_def AREA_SIZES_def)

lemma leaf_image_reach:
  assumes "length body \<le> 15"
  shows "alloc_reach enc rdv lput (leaf_image body) [(2048, 0) \<mapsto> 0 # body]"
proof -
  have start: "alloc_reach enc rdv lput sample_allocator Map.empty" unfolding sample_allocator_def by (rule alloc_reach.start)
  have "from_size (length (0 # body)) = Inr 0" using assms by (intro from_size_small) simp
  moreover from this have "allocate_node rdv (0 # body) sample_allocator =
     (Inr (2048, 0), sample_allocator\<lparr>al_header := (al_header sample_allocator)\<lparr>h_size := 2064\<rparr>\<rparr>)"
    by (simp add: allocate_node_def AREA_SIZES_def sbind_def allocate_from_freed_def
        get_head_def allocate_from_end_def LinearAddress_new_def saturating_add_def)
  moreover have "unat (h_size (al_header sample_allocator)) + MAX_AREA_SIZE < 2 ^ 64" by simp
  ultimately show ?thesis
    using persist [OF start, of 0 body 2048 _ "length (0 # body)" "al_storage (leaf_image body)"]
    by (simp add: leaf_image_def storage_write_def)
qed

lemma leaf_image_simps [simp]:
  "h_size (al_header (leaf_image body)) = 2064" "h_free_lists (al_header (leaf_image body)) = replicate 23 None"
  by (simp_all add: leaf_image_def)

lemma leaf_image_read:
  assumes "storable MerkleDB (Leaf p v)" "encode_node leb128_encode MerkleDB (Leaf p v) = Inr body" "length body \<le> 15"
  shows "read_node_with_num_bytes_from_disk (leb128_read 10) MerkleDB (al_storage (leaf_image body)) 2048 = Inr (Leaf p v, length body + 1)"
    "area_index_and_size (al_storage (leaf_image body)) 2048 = Inr (0, 16)"
proof -
  have h: "holds (st_bytes (al_storage (leaf_image body))) 2048 (0 # body)" by (simp add: leaf_image_def holds_write_same)
  have "reads (from_reader (leb128_read 10) MerkleDB) body (Leaf p v)"
    using leb128.reads_node [OF assms(1)] assms(2) by auto
  then show "read_node_with_num_bytes_from_disk (leb128_read 10) MerkleDB (al_storage (leaf_image body)) 2048 = Inr (Leaf p v, length body + 1)"
    using h assms(3) by (intro read_node_holds [where i = 0]) auto
  have "holds (st_bytes (al_storage (leaf_image body))) (unat (2048 :: laddr)) [0]"
    using holds_prefix [OF h, of "[0]"] by simp
  from area_index_and_size_holds [OF this] show "area_index_and_size (al_storage (leaf_image body)) 2048 = Inr (0, 16)"
    by (simp add: AREA_SIZES_def)
qed

definition good_leaf :: "u8 list" where
  "good_leaf = [5, 1, 2, 1, 7]"

definition bad_leaf :: "u8 list" where
  "bad_leaf = [5, 1, 77, 1, 7]"

lemma sample_leaves:
  "encode_node leb128_encode MerkleDB (Leaf [1, 2] [7]) = Inr good_leaf"
  "encode_node leb128_encode MerkleDB (Leaf [1, 77] [7]) = Inr bad_leaf"
  by code_simp+

lemma sample_leaves_read:
  "read_node_with_num_bytes_from_disk (leb128_read 10) MerkleDB (al_storage (leaf_image good_leaf)) 2048 = Inr (Leaf [1, 2] [7], 6)"
  "read_node_with_num_bytes_from_disk (leb128_read 10) MerkleDB (al_storage (leaf_image bad_leaf)) 2048 = Inr (Leaf [1, 77] [7], 6)"
  "area_index_and_size (al_storage (leaf_image good_leaf)) 2048 = Inr (0, 16)"
  "area_index_and_size (al_storage (leaf_image bad_leaf)) 2048 = Inr (0, 16)"
  using leaf_image_read [OF _ sample_leaves(1)] leaf_image_read [OF _ sample_leaves(2)]
  by (simp_all add: good_leaf_def bad_leaf_def isize_max_def)

lemma sample_leaf_hash:
  "\<exists>h. compute_node_ethhash sample_hf MerkleDB (Leaf [1, 2] [7]) [] False = Inr (Hash h)"
proof -
  have "as_components [1, 2] = Inr (comps [1, 2])" by (rule as_components_comps) simp
  then show ?thesis
    by (simp add: compute_node_ethhash_def hash_node_def merkledb_to_hash_def del: as_components.simps(2))
qed

lemma no_free_areas: "unat i < 23 \<Longrightarrow> free_walk rdv st (replicate 23 None) i None []"
proof (induction "22 - unat i" arbitrary: i)
  case 0
  then show ?case by (intro free_end) simp
next
  case (Suc k)
  then have i: "unat i < 22" "unat (i + 1) = unat i + 1" by (simp_all add: unat_word_ariths)
  then have "free_walk rdv st (replicate 23 None) (i + 1) None []" using Suc.hyps(2) by (intro Suc.hyps(1)) simp_all
  then show ?case using i by (intro free_list) simp_all
qed

definition full_check :: check_opt where
  "full_check = \<lparr>co_hash_check = True, co_progress_bar = True\<rparr>"

lemma sample_root_areas:
  assumes "compute_node_ethhash sample_hf MerkleDB (Leaf [1, 2] [7]) [] False = Inr (Hash h)"
  shows "root_areas sample_hf (leb128_read 10) MerkleDB (al_storage (leaf_image good_leaf)) True (Some (Persisted 2048)) (Some h) [(2048, 0)]"
proof -
  have "node_at sample_hf (leb128_read 10) MerkleDB (al_storage (leaf_image good_leaf)) True (root_subtrie 2048 h) 0 (Leaf [1, 2] [7])"
    using sample_leaves_read(1,3) assms
    by (auto simp: node_at_def root_subtrie_def LinearAddress_is_aligned_def AREA_SIZES_def)
  from trie_at.leaf [OF this] show ?thesis by (simp add: root_areas_def root_subtrie_def)
qed

subsection \<open>The checker is exact\<close>

text \<open>
  C10. The checker reports no error exactly for sound database images: the trie from the root is stored in
  readable nodes that fit their aligned areas, with valid keys and, if asked for, right hashes
  (\<open>root_areas\<close>); every free list is a chain of free areas of its size (\<open>free_walk\<close>); no two of these areas
  overlap; and together they cover the space between the header and the high water mark without a gap.
\<close>

theorem check_exact:
  assumes "HEADER_SIZE \<le> h_size header"
  shows "(\<exists>r. check hf rdv alg st root root_hash header opt = Visited r \<and> cr_errors r = []) \<longleftrightarrow>
    (\<exists>ts fs. root_areas hf rdv alg st (co_hash_check opt) root root_hash ts \<and>
       free_walk rdv st (h_free_lists header) 0 (h_free_lists header ! 0) fs \<and>
       areas_ok (unat (h_size header)) (set (ts @ fs)) \<and> distinct (ts @ fs) \<and>
       tiled (unat (h_size header)) (set (ts @ fs)))"
  using check_post [OF assms, of hf rdv alg st opt root root_hash]
  unfolding sound_image_iff [OF assms, symmetric]
  by (cases "check hf rdv alg st root root_hash header opt") auto

theorem check_exact_witness:
  "HEADER_SIZE \<le> h_size (al_header (leaf_image good_leaf)) \<and>
   (\<exists>h r. check sample_hf (leb128_read 10) MerkleDB (al_storage (leaf_image good_leaf)) (Some (Persisted 2048)) (Some h)
      (al_header (leaf_image good_leaf)) full_check = Visited r \<and> cr_errors r = [])"
proof -
  let ?al = "leaf_image good_leaf"
  have hdr: "HEADER_SIZE \<le> h_size (al_header ?al)" by (simp add: HEADER_SIZE_def)
  obtain h where h: "compute_node_ethhash sample_hf MerkleDB (Leaf [1, 2] [7]) [] False = Inr (Hash h)" using sample_leaf_hash by blast
  have none: "free_walk (leb128_read 10) (al_storage ?al) (replicate 23 None) 0 None []" by (rule no_free_areas) simp
  have "areas_ok 2064 {(2048 :: laddr, 0 :: area_index)}" "tiled 2064 {(2048 :: laddr, 0 :: area_index)}"
    by (simp_all add: areas_ok_def tiled_def AREA_SIZES_def)
  then have "\<exists>r. check sample_hf (leb128_read 10) MerkleDB (al_storage ?al) (Some (Persisted 2048)) (Some h) (al_header ?al) full_check = Visited r \<and>
      cr_errors r = []"
    unfolding check_exact [OF hdr] using sample_root_areas [OF h] none
    by (intro exI [of _ "[(2048, 0)]"] exI [of _ "[]"]) (simp add: full_check_def)
  then show ?thesis using hdr by blast
qed

text \<open>
  C11. The checker ends with a report on every image, however damaged: cyclic or shared trie nodes, cyclic free
  lists and wild addresses included, with any high water mark. The depth bound of the walk is never reached and
  none of its own expectations fails. The only panics are those of the readers of nodes and free areas and, with
  hash checking, a stored path with a byte that is no nibble.
\<close>

theorem check_returns:
  assumes "\<And>a. read_node_with_num_bytes_from_disk rdv alg st a \<noteq> Inl Panic" "\<And>a. FreeArea_from_storage rdv st a \<noteq> Inl Panic"
    and "\<And>a n k. co_hash_check opt \<Longrightarrow> read_node_with_num_bytes_from_disk rdv alg st a = Inr (n, k) \<Longrightarrow> valid_path (partial_path n)"
  shows "\<exists>r. check hf rdv alg st root root_hash header opt = Visited r"
proof (cases "HEADER_SIZE \<le> h_size header")
  case True
  have "\<not> may_panic hf rdv alg st (co_hash_check opt)" using may_panic_cases assms by blast
  then show ?thesis using check_post [OF True, of hf rdv alg st opt root root_hash]
    by (cases "check hf rdv alg st root root_hash header opt") auto
qed (simp add: check_def lr_new_def not_le)

theorem check_returns_witness:
  "\<exists>r. check sample_hf (leb128_read 10) MerkleDB \<lparr>st_bytes = [], st_free_cache = Map.empty\<rparr>
      (Some (Persisted 2048)) (Some (replicate 32 0)) ((NodeStoreHeader_new sample_build MerkleDB)\<lparr>h_size := 4096\<rparr>) full_check = Visited r"
proof (rule check_returns)
  let ?st = "\<lparr>st_bytes = [], st_free_cache = Map.empty\<rparr> :: storage"
  have eof: "read_node_with_num_bytes_from_disk (leb128_read 10) MerkleDB ?st a = Inl UnexpectedEof" for a
    by (simp add: read_node_with_num_bytes_from_disk_def stream_from_def from_reader_def read_byte_def read_exact_def pbind_def rbind_def)
  show "read_node_with_num_bytes_from_disk (leb128_read 10) MerkleDB ?st a \<noteq> Inl Panic" for a using eof [of a] by simp
  show "FreeArea_from_storage (leb128_read 10) ?st a \<noteq> Inl Panic" for a
    by (simp add: FreeArea_from_storage_def FreeArea_from_storage_reader_def stream_from_def read_byte_def read_exact_def pbind_def rbind_def)
  show "valid_path (partial_path n)"
    if "read_node_with_num_bytes_from_disk (leb128_read 10) MerkleDB ?st a = Inr (n, k)" for a n k
    using that by (simp add: eof)
qed



subsection \<open>What the allocator produces is accepted\<close>

lemma chain_free_walk:
  assumes "\<And>j. j < 23 \<Longrightarrow> chain rdv st j (heads ! unat j) (fl j)" "\<And>j a. j < 23 \<Longrightarrow> a \<in> set (fl j) \<Longrightarrow> LinearAddress_is_aligned a"
    and "i < 23" "chain rdv st i m l" "\<And>a. a \<in> set l \<Longrightarrow> LinearAddress_is_aligned a"
  shows "free_walk rdv st heads i m (items_left fl i l)"
  using assms(3-)
proof (induction "22 - unat i" arbitrary: i m l rule: less_induct)
  case less
  have lists: "free_walk rdv st heads i None (items_left fl i [])"
  proof (cases "unat i = 22")
    case True
    then show ?thesis using less.prems(1) by (simp add: items_left_Nil free_end)
  next
    case False
    then have i1: "i + 1 < 23" "22 - unat (i + 1) < 22 - unat i" "unat i < 22"
      using less.prems(1) by (auto simp: word_less_nat_alt unat_word_ariths)
    have "free_walk rdv st heads (i + 1) (heads ! unat (i + 1)) (items_left fl (i + 1) (fl (i + 1)))"
      using less.hyps [OF i1(2,1) assms(1) [OF i1(1)]] assms(2) [OF i1(1)] by blast
    then show ?thesis using free_list [OF i1(3)] less.prems(1) False by (simp add: items_left_Nil)
  qed
  show ?case using less.prems(2,3)
  proof (induction l arbitrary: m)
    case Nil
    then show ?case using lists by simp
  next
    case (Cons a l)
    then obtain m' where m': "m = Some a" "free_at rdv st i a m'" "chain rdv st i m' l" by auto
    have "free_walk rdv st heads i m' (items_left fl i l)" using Cons.IH [OF m'(3)] Cons.prems(2) by simp
    then show ?case using free_item [OF free_at_read [OF m'(2)]] m'(1) Cons.prems(2) by (simp add: items_left_def)
  qed
qed

lemma set_lists_from: "set (lists_from 0) = {i. i < 23}"
proof -
  have "word_of_nat ` {0..<23} = {i :: area_index. i < 23}"
  proof (intro set_eqI iffI)
    fix i :: area_index assume "i \<in> {i. i < 23}"
    then show "i \<in> word_of_nat ` {0..<23}" by (intro image_eqI [of _ _ "unat i"]) (simp_all add: u8_less_23)
  qed (auto simp: word_less_nat_alt unat_of_nat)
  then show ?thesis by (simp add: lists_from_def)
qed

lemma items_left_all:
  "set (items_left fl 0 (fl 0)) = free_areas fl" "(\<And>i. i < 23 \<Longrightarrow> distinct (fl i)) \<Longrightarrow> distinct (items_left fl 0 (fl 0))"
proof -
  have eq: "items_left fl 0 (fl 0) = free_items fl (lists_from 0)"
    using lists_from_Cons [of 0] by (simp add: items_left_def free_items_def)
  show "set (items_left fl 0 (fl 0)) = free_areas fl"
    unfolding eq free_items_def using set_lists_from by (auto simp: free_areas_def)
  assume d: "\<And>i. i < 23 \<Longrightarrow> distinct (fl i)"
  have "distinct is \<Longrightarrow> (\<And>i. i \<in> set is \<Longrightarrow> distinct (fl i)) \<Longrightarrow> distinct (free_items fl is)" for "is"
    by (induction "is") (auto simp: free_items_def distinct_map inj_on_def)
  moreover have "distinct (lists_from 0)"
    unfolding lists_from_def by (auto simp: distinct_map inj_on_def word_of_nat_eq_iff take_bit_nat_def)
  ultimately show "distinct (items_left fl 0 (fl 0))" unfolding eq using set_lists_from d by blast
qed

text \<open>
  C12. A database that was built by allocating, writing and deleting, in any order, passes the check, provided the
  areas still in use are exactly the areas of a trie that is stored soundly. So the allocator never loses an
  area: what is neither in the trie nor in a free list cannot exist.
\<close>

theorem allocator_passes_check:
  assumes "varint enc rdv" "lru_cache lput" "alloc_reach enc rdv lput al C"
    and "root_areas hf rdv alg (al_storage al) (co_hash_check opt) root root_hash ts" "set ts = dom C" "distinct ts"
  shows "\<exists>r. check hf rdv alg (al_storage al) root root_hash (al_header al) opt = Visited r \<and> cr_errors r = []"
proof -
  obtain fl where inv: "alloc_inv rdv al (dom C) fl" and tiles: "tiled (unat (h_size (al_header al))) (dom C \<union> free_areas fl)"
    using alloc_reach_tiled [OF assms(1-3)] by blast
  have hdr: "HEADER_SIZE \<le> h_size (al_header al)" using inv by (simp add: alloc_inv_def HEADER_SIZE_def word_le_nat_alt)
  have ok: "areas_ok (unat (h_size (al_header al))) (dom C \<union> free_areas fl)" using inv by (simp add: alloc_inv_def)
  have aligned: "LinearAddress_is_aligned a" if "j < 23" "a \<in> set (fl j)" for a j
    using areas_okD [OF ok, of "(a, j)"] that by (simp add: free_areas_def LinearAddress_is_aligned_def dvd_eq_mod_eq_0)
  have walk: "free_walk rdv (al_storage al) (h_free_lists (al_header al)) 0 (h_free_lists (al_header al) ! 0) (items_left fl 0 (fl 0))"
    using alloc_inv_list(1) [OF inv] alloc_inv_list(1) [OF inv, of 0] aligned aligned [of 0]
    by (intro chain_free_walk) (auto simp: get_head_def)
  have "set (ts @ items_left fl 0 (fl 0)) = dom C \<union> free_areas fl" by (simp add: assms(5) items_left_all(1))
  moreover have "distinct (ts @ items_left fl 0 (fl 0))"
    using items_left_all(2) [of fl] alloc_inv_list(2) [OF inv] inv assms(5,6)
    by (auto simp: items_left_all(1) alloc_inv_def)
  ultimately have "sound_image hf rdv alg (al_storage al) (co_hash_check opt) root root_hash (al_header al)"
    unfolding sound_image_iff [OF hdr] using assms(4) walk ok tiles by metis
  then show ?thesis using check_post [OF hdr, of hf rdv alg "al_storage al" opt root root_hash]
    by (cases "check hf rdv alg (al_storage al) root root_hash (al_header al) opt") auto
qed

theorem allocator_passes_check_witness:
  "\<exists>h r. alloc_reach leb128_encode (leb128_read 10) uncached_put (leaf_image good_leaf) [(2048, 0) \<mapsto> 0 # good_leaf] \<and>
     check sample_hf (leb128_read 10) MerkleDB (al_storage (leaf_image good_leaf)) (Some (Persisted 2048)) (Some h)
       (al_header (leaf_image good_leaf)) full_check = Visited r \<and> cr_errors r = []"
proof -
  obtain h where h: "compute_node_ethhash sample_hf MerkleDB (Leaf [1, 2] [7]) [] False = Inr (Hash h)" using sample_leaf_hash by blast
  have reach: "alloc_reach leb128_encode (leb128_read 10) uncached_put (leaf_image good_leaf) [(2048, 0) \<mapsto> 0 # good_leaf]"
    by (rule leaf_image_reach) (simp add: good_leaf_def)
  have "root_areas sample_hf (leb128_read 10) MerkleDB (al_storage (leaf_image good_leaf)) (co_hash_check full_check)
      (Some (Persisted 2048)) (Some h) [(2048, 0)]"
    using sample_root_areas [OF h] by (simp add: full_check_def)
  from allocator_passes_check [OF leb128.varint_axioms uncached.lru_cache_axioms reach this] show ?thesis using reach by auto
qed

end
