(* ===== verification/Checker_Repair.thy ===== *)
theory Checker_Repair
  imports Checker_Properties
begin

section \<open>Repairs, leaked ranges and the range set\<close>

text \<open>
  The range set of the checker behaves as a set of addresses; leaked ranges are split into areas without a
  remainder; repairs truncate exactly the free lists with errors.
\<close>

subsection \<open>Splitting a leaked range\<close>

text \<open>Areas one after the other from \<open>s\<close> to \<open>e\<close>.\<close>

fun contiguous :: "nat \<Rightarrow> area list \<Rightarrow> nat \<Rightarrow> bool" where
  "contiguous s [] e \<longleftrightarrow> s = e"
| "contiguous s (x # xs) e \<longleftrightarrow> area_start x = s \<and> snd x < 23 \<and> contiguous (area_end x) xs e"

lemma contiguous_append: "contiguous s (xs @ ys) e \<longleftrightarrow> (\<exists>m. contiguous s xs m \<and> contiguous m ys e)"
  by (induction xs arbitrary: s) auto

lemma contiguous_snoc:
  "contiguous s xs (unat a) \<Longrightarrow> i < 23 \<Longrightarrow> e = unat a + AREA_SIZES ! unat i \<Longrightarrow> contiguous s (xs @ [(a, i)]) e"
  by (auto simp: contiguous_append)

lemma advance_area:
  fixes i :: area_index and a e :: laddr
  assumes "i < 23" "unat a \<le> unat e" "unat e + MAX_AREA_SIZE < 2 ^ 64"
  shows "LinearAddress_advance a (word_of_nat (AREA_SIZES ! unat i)) = Some (a + word_of_nat (AREA_SIZES ! unat i))"
    "unat (a + word_of_nat (AREA_SIZES ! unat i)) = unat a + AREA_SIZES ! unat i"
proof -
  have "AREA_SIZES ! unat i \<le> MAX_AREA_SIZE" by (rule area_size_bounds(3) [OF assms(1)])
  then have "unat a + AREA_SIZES ! unat i < 2 ^ 64" using assms(2,3) by linarith
  then show "LinearAddress_advance a (word_of_nat (AREA_SIZES ! unat i)) = Some (a + word_of_nat (AREA_SIZES ! unat i))"
    "unat (a + word_of_nat (AREA_SIZES ! unat i)) = unat a + AREA_SIZES ! unat i"
    using assms(1) by (simp_all add: LinearAddress_advance_def unat_word_ariths)
qed

lemma leaked_fill_loop_spec:
  assumes "i < 23" "unat e + MAX_AREA_SIZE < 2 ^ 64" "unat a \<le> unat e" "contiguous s xs (unat a)" "16 dvd unat a"
  shows "\<exists>a' xs'. leaked_fill_loop i (AREA_SIZES ! unat i) e a xs = Some (Inr (a', xs')) \<and> contiguous s xs' (unat a') \<and>
    unat a' \<le> unat e \<and> unat e - unat a' < AREA_SIZES ! unat i \<and> 16 dvd unat a'"
  using assms(3-)
proof (induction "unat e - unat a" arbitrary: a xs rule: less_induct)
  case less
  let ?n = "AREA_SIZES ! unat i" and ?b = "a + word_of_nat (AREA_SIZES ! unat i)"
  note adv = advance_area [OF assms(1) less.prems(1) assms(2)]
  note sz = area_size_bounds [OF assms(1)]
  show ?case
  proof (cases "?b \<le> e")
    case True
    then have le: "unat ?b \<le> unat e" by (simp add: word_le_nat_alt)
    then have "unat e - unat ?b < unat e - unat a" using sz(1) unfolding adv(2) by linarith
    moreover have "contiguous s (xs @ [(a, i)]) (unat ?b)" using less.prems(2) assms(1) adv(2) by (rule contiguous_snoc)
    moreover have "16 dvd unat ?b" unfolding adv(2) using less.prems(3) sz(2) by (rule dvd_add)
    ultimately show ?thesis using less.hyps [OF _ le, of "xs @ [(a, i)]"] True adv(1)
      by (subst leaked_fill_loop.simps) simp
  next
    case False
    then have "unat e < unat a + ?n" using adv(2) by (simp add: word_le_nat_alt)
    then have "unat e - unat a < ?n" using less.prems(1) by linarith
    then show ?thesis using less.prems False adv(1) by (subst leaked_fill_loop.simps) simp
  qed
qed

lemma leaked_fill_spec:
  assumes "list_all (\<lambda>(i, n). i < 23 \<and> n = AREA_SIZES ! unat i) sizes" "unat e + MAX_AREA_SIZE < 2 ^ 64"
    and "unat a \<le> unat e" "contiguous s xs (unat a)" "16 dvd unat a" "sizes \<noteq> []" "last sizes = (0, 16)"
  shows "\<exists>a' xs'. leaked_fill sizes e a xs = Some (Inr (a', xs')) \<and> contiguous s xs' (unat a') \<and>
    unat a' \<le> unat e \<and> unat e - unat a' < 16 \<and> 16 dvd unat a'"
  using assms(1,3-)
proof (induction sizes arbitrary: a xs)
  case (Cons x sizes)
  obtain i where x: "x = (i, AREA_SIZES ! unat i)" "i < 23" using Cons.prems(1) by (cases x) auto
  obtain b ys where b: "leaked_fill_loop i (AREA_SIZES ! unat i) e a xs = Some (Inr (b, ys))" "contiguous s ys (unat b)"
    "unat b \<le> unat e" "unat e - unat b < AREA_SIZES ! unat i" "16 dvd unat b"
    using leaked_fill_loop_spec [OF x(2) assms(2) Cons.prems(2-4)] by blast
  show ?case
  proof (cases "sizes = []")
    case True
    then show ?thesis using b Cons.prems(6) by (simp add: x AREA_SIZES_def)
  next
    case False
    then show ?thesis using Cons.IH [of b ys] b Cons.prems by (simp add: x)
  qed
qed simp

lemma area_size_iter_rev:
  "list_all (\<lambda>(i, n). i < 23 \<and> n = AREA_SIZES ! unat i) (rev area_size_iter)" "rev area_size_iter \<noteq> []" "last (rev area_size_iter) = (0, 16)"
proof -
  have "list_all (\<lambda>(i, n). i < 23 \<and> n = AREA_SIZES ! unat i) area_size_iter"
    by (auto simp: area_size_iter_def list_all_iff in_set_enumerate_eq word_less_nat_alt unat_of_nat)
  then show "list_all (\<lambda>(i, n). i < 23 \<and> n = AREA_SIZES ! unat i) (rev area_size_iter)" by simp
  show "rev area_size_iter \<noteq> []" "last (rev area_size_iter) = (0, 16)"
    by (simp_all add: area_size_iter_def last_rev AREA_SIZES_def)
qed

lemma read_leaked_area_index:
  "read_leaked_area nput strategy rdv alg st a cache = (Inr (i, n), cache') \<Longrightarrow> i < 23 \<and> n = AREA_SIZES ! unat i"
proof -
  assume "read_leaked_area nput strategy rdv alg st a cache = (Inr (i, n), cache')"
  then obtain info where info: "read_stored_area_info rdv st a = Inr info" "i = ai_index info" "n = ai_size info"
    by (auto simp: read_leaked_area_def sbind_eq_Inr)
  then obtain rest where "read_stored_area_info_from_reader rdv (stream_from st (unat a)) = Inr (info, rest)"
    by (auto simp: read_stored_area_info_def rbind_def split: sum.splits)
  then have "ai_index info < 23 \<and> ai_size info = AREA_SIZES ! unat (ai_index info)"
    by (auto simp: read_stored_area_info_from_reader_def pbind_eq_Inr pcheck_eq_Inr preturn_def)
  then show ?thesis using info by simp
qed

lemma leaked_read_loop_spec:
  assumes "unat e + MAX_AREA_SIZE < 2 ^ 64" "16 dvd unat e" "\<And>a c. fst (read_leaked_area nput strategy rdv alg st a c) \<noteq> Inl Panic"
    and "unat a < unat e" "contiguous s xs (unat a)" "16 dvd unat a"
  shows "\<exists>finished a' xs' cache'. leaked_read_loop nput strategy rdv alg st e a xs cache = Some (Inr (finished, a', xs'), cache') \<and>
    contiguous s xs' (unat a') \<and> 16 dvd unat a' \<and> (if finished then a' = e else unat a' < unat e)"
  using assms(4-)
proof (induction "unat e - unat a" arbitrary: a xs cache rule: less_induct)
  case less
  obtain r c where r: "read_leaked_area nput strategy rdv alg st a cache = (r, c)" by fastforce
  show ?case
  proof (cases r)
    case (Inl err)
    then have "err \<noteq> Panic" using assms(3) [of a cache] r by auto
    then show ?thesis using less.prems r Inl by (subst leaked_read_loop.simps) (simp add: exI [of _ False])
  next
    case (Inr y)
    obtain i where i: "y = (i, AREA_SIZES ! unat i)" "i < 23" using read_leaked_area_index r Inr by (cases y) blast
    let ?b = "a + word_of_nat (AREA_SIZES ! unat i)"
    note adv = advance_area [OF i(2) less_imp_le [OF less.prems(1)] assms(1)]
    note sz = area_size_bounds [OF i(2)]
    have b: "contiguous s (xs @ [(a, i)]) (unat ?b)" using less.prems(2) i(2) adv(2) by (rule contiguous_snoc)
    have al: "16 dvd unat ?b" unfolding adv(2) using less.prems(3) sz(2) by (rule dvd_add)
    consider "?b = e" | "?b > e" | "?b < e" by (rule linorder_cases [of ?b e])
    then show ?thesis
    proof cases
      case 1
      then show ?thesis using r Inr i adv(1) b al by (subst leaked_read_loop.simps) (simp add: exI [of _ True])
    next
      case 2
      then show ?thesis using r Inr i adv(1) less.prems by (subst leaked_read_loop.simps) (auto simp: exI [of _ False])
    next
      case 3
      then have lt: "unat ?b < unat e" by (simp add: word_less_nat_alt)
      then have "unat e - unat ?b < unat e - unat a" using sz(1) unfolding adv(2) by linarith
      from less.hyps [OF this lt b al, of c] show ?thesis using r Inr i adv(1) less_imp_not_less [OF 3] less_imp_neq [OF 3]
        by (subst leaked_read_loop.simps) simp
    qed
  qed
qed



subsection \<open>Repairs\<close>

definition free_list_error :: "checker_error \<Rightarrow> bool" where
  "free_list_error e \<longleftrightarrow> (\<exists>p. checker_error_parent e = Some (FreeListArea p))"

text \<open>What truncating at a parent does to storage and heads.\<close>

fun truncated :: "(nat \<Rightarrow> u8 list) \<Rightarrow> free_list_parent \<Rightarrow> storage \<times> free_lists \<Rightarrow> storage \<times> free_lists" where
  "truncated enc (FreeListHead i) (st, fl) = (st, fl[unat i := None])"
| "truncated enc (PrevFreeArea i a) (st, fl) =
     (st\<lparr>st_bytes := write_bytes (st_bytes st) (unat a) (FreeArea_as_bytes enc (FreeArea_new None) i)\<rparr>, fl)"

lemma truncate_free_list_truncated: "truncate_free_list enc p s = (Inr (), truncated enc p s)"
  by (cases s; cases p) (simp_all add: truncate_free_list_def storage_write_def)

definition error_lists :: "checker_error list \<Rightarrow> free_list_parent list" where
  "error_lists es = List.map_filter (\<lambda>e. case checker_error_parent e of Some (FreeListArea p) \<Rightarrow> Some p | _ \<Rightarrow> None) es"

lemma fix_errors_spec:
  "fix_errors enc es report s =
     (report\<lparr>fr_fixed := fr_fixed report @ filter free_list_error es,
             fr_unfixable := fr_unfixable report @ map (\<lambda>e. (e, None)) (filter (\<lambda>e. \<not> free_list_error e) es)\<rparr>,
      fold (truncated enc) (error_lists es) s)"
proof (induction es arbitrary: report s)
  case (Cons e es)
  show ?case
  proof (cases "checker_error_parent e")
    case (Some q)
    then show ?thesis using Cons.IH
      by (cases q) (simp_all add: free_list_error_def error_lists_def map_filter_simps truncate_free_list_truncated)
  qed (simp add: Cons.IH free_list_error_def error_lists_def map_filter_simps)
qed (simp add: error_lists_def map_filter_simps)


subsection \<open>The range set\<close>

text \<open>
  C36. The range set of the checker is a set of addresses with an exact byte count. \<open>insert_area\<close> succeeds
  exactly if the area lies between the header and the high water mark and meets no address of the set; it then
  adds its addresses. Otherwise the set is unchanged, and an overlap is reported exactly. \<open>complement\<close> is the
  complement. No operation panics, and the ranges stay sorted, disjoint and merged.
\<close>

theorem range_set_exact:
  assumes "lr_ok vs"
  shows "(case insert_area addr n parent vs of
      (Checked _, vs') \<Rightarrow> area_in_bounds addr n vs \<and> lr_set vs \<inter> {addr ..< addr + n} = {} \<and> lr_ok vs' \<and>
        lr_set vs' = lr_set vs \<union> {addr ..< addr + n} \<and> unat (lr_bytes_in_set vs') = card (lr_set vs')
    | (CheckFailed e, vs') \<Rightarrow> vs' = vs \<and>
        (if area_in_bounds addr n vs
         then \<exists>is. e = AreaIntersects addr n is parent \<and> is \<noteq> [] \<and> (\<Union>x \<in> set is. {fst x ..< snd x}) = lr_set vs \<inter> {addr ..< addr + n}
         else e = AreaOutOfBounds addr n (NODE_STORE_START_ADDR, lr_max_addr vs) parent)
    | (CheckPanic, vs') \<Rightarrow> False) \<and>
    (\<exists>c. lr_complement vs = Inr c \<and> lr_ok c \<and> lr_set c = {NODE_STORE_START_ADDR ..< lr_max_addr vs} - lr_set vs \<and>
      unat (lr_bytes_in_set c) = card (lr_set c))"
proof
  have card: "unat (lr_bytes_in_set vs') = card (lr_set vs')" if "lr_ok vs'" for vs' using that by (simp add: lr_ok_def)
  show "\<exists>c. lr_complement vs = Inr c \<and> lr_ok c \<and> lr_set c = {NODE_STORE_START_ADDR ..< lr_max_addr vs} - lr_set vs \<and>
      unat (lr_bytes_in_set c) = card (lr_set c)"
    using lr_complement_spec [OF assms] card by blast
  consider "\<not> area_in_bounds addr n vs" | "area_in_bounds addr n vs" "lr_set vs \<inter> {addr ..< addr + n} \<noteq> {}"
    | "area_in_bounds addr n vs" "lr_set vs \<inter> {addr ..< addr + n} = {}" by blast
  then show "case insert_area addr n parent vs of
      (Checked _, vs') \<Rightarrow> area_in_bounds addr n vs \<and> lr_set vs \<inter> {addr ..< addr + n} = {} \<and> lr_ok vs' \<and>
        lr_set vs' = lr_set vs \<union> {addr ..< addr + n} \<and> unat (lr_bytes_in_set vs') = card (lr_set vs')
    | (CheckFailed e, vs') \<Rightarrow> vs' = vs \<and>
        (if area_in_bounds addr n vs
         then \<exists>is. e = AreaIntersects addr n is parent \<and> is \<noteq> [] \<and> (\<Union>x \<in> set is. {fst x ..< snd x}) = lr_set vs \<inter> {addr ..< addr + n}
         else e = AreaOutOfBounds addr n (NODE_STORE_START_ADDR, lr_max_addr vs) parent)
    | (CheckPanic, vs') \<Rightarrow> False"
  proof cases
    case 1
    then show ?thesis by (simp add: insert_area_out_of_bounds)
  next
    case 2
    then obtain "is" where "insert_area addr n parent vs = (CheckFailed (AreaIntersects addr n is parent), vs)"
      "(\<Union>x \<in> set is. {fst x ..< snd x}) = lr_set vs \<inter> {addr ..< addr + n}"
      using insert_area_spec [OF assms 2(1), of parent] by auto
    then show ?thesis using 2 by auto
  next
    case 3
    then obtain vs' where "insert_area addr n parent vs = (Checked (), vs')" "lr_ok vs'" "lr_set vs' = lr_set vs \<union> {addr ..< addr + n}"
      using insert_area_spec [OF assms 3(1), of parent] by auto
    then show ?thesis using 3 card by simp
  qed
qed

definition sample_ranges :: linear_address_range_set where
  "sample_ranges = \<lparr>lr_range_set = [(2064, 2048), (3072, 2560)], lr_max_addr = 4096, lr_bytes_in_set = 528\<rparr>"

theorem range_set_exact_witness:
  "lr_ok sample_ranges \<and>
   (\<exists>is. insert_area 3000 256 (TrieNodeArea TrieRoot) sample_ranges =
      (CheckFailed (AreaIntersects 3000 256 is (TrieNodeArea TrieRoot)), sample_ranges) \<and> is \<noteq> []) \<and>
   (\<exists>c. lr_complement sample_ranges = Inr c \<and> unat (lr_bytes_in_set c) = card (lr_set c))"
proof -
  have "card ({2048 ..< 2064} \<union> {2560 ..< 3072} :: laddr set) = 528"
    by (subst card_Un_disjoint) (auto simp: card_word_range)
  then have ok: "lr_ok sample_ranges"
    by (auto simp: sample_ranges_def lr_ok_def rs_ok_def rs_set_def NODE_STORE_START_ADDR_def HEADER_SIZE_def)
  have "area_in_bounds 3000 256 sample_ranges"
    by (simp add: area_in_bounds_def sample_ranges_def NODE_STORE_START_ADDR_def HEADER_SIZE_def)
  moreover have "3000 \<in> lr_set sample_ranges \<inter> {3000 ..< 3000 + 256}" by (simp add: sample_ranges_def rs_set_def)
  ultimately show ?thesis using range_set_exact [OF ok, of 3000 256 "TrieNodeArea TrieRoot"] ok
    by (cases "insert_area 3000 256 (TrieNodeArea TrieRoot) sample_ranges") (auto split: checked.splits)
qed

end
