(* ===== verification/Trie_Iter.thy ===== *)
theory Trie_Iter
  imports Hashing "HOL-Library.List_Lexorder"
begin

section \<open>Iteration over a trie\<close>

text \<open>
  The iterators of \<open>firewood/src/iter.rs\<close>: over the nodes of a trie from a start key on, over its
  key-value pairs, over the nodes on the path to a key, and the adaptor that stops after a last key.

  A call of \<open>next\<close> is a function from the iterator's state to an item and the next state. Where it loops over
  stored nodes it is a partial function whose value \<open>None\<close> means that the call does not return. An item is
  a \<open>Result\<close>; a panic is its error \<open>Panic\<close>. Keys are ordered as Rust orders slices, lexicographically. A
  stack is a list with its top first, and a children iterator the list of the children it still yields.
\<close>

type_synonym ('s, 'a) item_fn = "'s \<Rightarrow> ('a option \<times> 's) option"

subsection \<open>The reader of a trie\<close>

record trie_reader =
  tr_root :: "node option"
  tr_read :: reader
  tr_must_recompute :: bool
  tr_algorithm :: node_hash_algorithm

subsection \<open>Comparing a node's path with a key\<close>

datatype ordering = Less | Equal | Greater

definition cmp :: "'a::linorder \<Rightarrow> 'a \<Rightarrow> ordering" where
  "cmp a b = (if a < b then Less else if a = b then Equal else Greater)"

fun compare_partial_path :: "path \<Rightarrow> u8 list \<Rightarrow> ordering \<times> u8 list" where
  "compare_partial_path [] unmatched = (Equal, unmatched)"
| "compare_partial_path (p # ppath) [] = (Greater, [])"
| "compare_partial_path (p # ppath) (k # unmatched) =
     (case cmp p k of
        Less \<Rightarrow> (Less, unmatched)
      | Greater \<Rightarrow> (Greater, unmatched)
      | Equal \<Rightarrow> compare_partial_path ppath unmatched)"

definition as_enumerated_children_iter :: "child option children \<Rightarrow> (pc \<times> child) list" where
  "as_enumerated_children_iter cs =
     List.map_filter (\<lambda>(pos, child). map_option (\<lambda>child. (pos, child)) child) (children_iter cs)"

fun key_from_nibble_iter :: "u8 list \<Rightarrow> u8 list io_result" where
  "key_from_nibble_iter (hi # lo # rest) =
     (let v = push_bit 4 hi
      in if unat v + unat lo < 256
         then rbind (key_from_nibble_iter rest) (\<lambda>key. Inr ((v + lo) # key))
         else Inl Panic)"
| "key_from_nibble_iter _ = Inr []"

subsection \<open>Nodes in key order\<close>

datatype iteration_node =
    Unvisited path node
  | Visited path "(pc \<times> child) list"

datatype node_iter_state =
    StartFromKey "u8 list"
  | Iterating "iteration_node list"

lemma compare_partial_path_length: "length (snd (compare_partial_path p u)) \<le> length u"
  by (induction p u rule: compare_partial_path.induct) (auto split: ordering.splits)

text \<open>The loop that descends towards the start key; it returns the stack of the state \<open>Iterating\<close>.\<close>

function initial_loop :: "reader \<Rightarrow> node \<Rightarrow> path \<Rightarrow> u8 list \<Rightarrow> iteration_node list \<Rightarrow> iteration_node list io_result" where
  "initial_loop rd node matched unmatched stack =
     (let ppath = partial_path node;
          (comparison, unmatched) = compare_partial_path ppath unmatched;
          matched = matched @ ppath
      in case comparison of
           Less \<Rightarrow> Inr stack
         | Greater \<Rightarrow> Inr (Unvisited matched node # stack)
         | Equal \<Rightarrow>
             (case node of
                Leaf _ _ \<Rightarrow> (if unmatched = [] then Inr (Unvisited matched node # stack) else Inr stack)
              | Branch _ _ cs \<Rightarrow>
                  (case unmatched of
                     [] \<Rightarrow> Inr (Unvisited matched node # stack)
                   | nibble # unmatched \<Rightarrow>
                       (case try_new nibble of
                          None \<Rightarrow> Inl Panic
                        | Some nib \<Rightarrow>
                            let stack = Visited matched
                                  (filter (\<lambda>(pos, _). pos > nib) (as_enumerated_children_iter cs)) # stack
                            in case cs nib of
                                 None \<Rightarrow> Inr stack
                               | Some child \<Rightarrow>
                                   rbind (child_as_shared_node child rd) (\<lambda>node.
                                   initial_loop rd node (matched @ [as_u8 nib]) unmatched stack)))))"
  by pat_completeness auto

termination
  by (relation "measure (\<lambda>(rd, node, matched, unmatched, stack). length unmatched)")
    (auto, metis compare_partial_path_length le_imp_less_Suc length_Cons less_le_trans lessI not_less snd_conv)

declare initial_loop.simps [simp del]

definition get_iterator_intial_state :: "trie_reader \<Rightarrow> u8 list \<Rightarrow> iteration_node list io_result" where
  "get_iterator_intial_state tr key =
     (case tr_root tr of
        None \<Rightarrow> Inr []
      | Some root \<Rightarrow> initial_loop (tr_read tr) root [] (nibbles key) [])"

text \<open>
  The inner loop of \<open>MerkleNodeIter::next\<close>. When a child cannot be read, the visited node is already off
  the stack.
\<close>

fun stack_weight :: "iteration_node \<Rightarrow> nat" where
  "stack_weight (Unvisited _ _) = 1"
| "stack_weight (Visited _ cs) = 2 * length cs + 1"

function stack_next ::
  "reader \<Rightarrow> iteration_node list \<Rightarrow> (u8 list \<times> node) io_result option \<times> iteration_node list" where
  "stack_next rd [] = (None, [])"
| "stack_next rd (Unvisited key node # stack) =
     (let stack = (case node of
                     Leaf _ _ \<Rightarrow> stack
                   | Branch _ _ cs \<Rightarrow> Visited key (as_enumerated_children_iter cs) # stack)
      in (Some (rbind (key_from_nibble_iter key) (\<lambda>key. Inr (key, node))), stack))"
| "stack_next rd (Visited key [] # stack) = stack_next rd stack"
| "stack_next rd (Visited key ((pos, child) # cs) # stack) =
     (case child_as_shared_node child rd of
        Inl e \<Rightarrow> (Some (Inl e), stack)
      | Inr child \<Rightarrow>
          stack_next rd (Unvisited (key @ as_u8 pos # partial_path child) child # Visited key cs # stack))"
  by pat_completeness auto

termination
  by (relation "measure (\<lambda>(rd, stack). sum_list (map stack_weight stack))") auto

fun node_iter_next ::
  "trie_reader \<Rightarrow> node_iter_state \<Rightarrow> (u8 list \<times> node) io_result option \<times> node_iter_state" where
  "node_iter_next tr (StartFromKey key) =
     (case get_iterator_intial_state tr key of
        Inl e \<Rightarrow> (Some (Inl e), StartFromKey key)
      | Inr stack \<Rightarrow> let (item, stack) = stack_next (tr_read tr) stack in (item, Iterating stack))"
| "node_iter_next tr (Iterating stack) =
     (let (item, stack) = stack_next (tr_read tr) stack in (item, Iterating stack))"

subsection \<open>Key-value pairs\<close>

type_synonym kv = "u8 list \<times> val"

definition fix_account_value ::
  "hash_fns \<Rightarrow> u8 list \<Rightarrow> val \<Rightarrow> hash_type option children \<Rightarrow> bool \<Rightarrow> node_hash_algorithm \<Rightarrow> kv option" where
  "fix_account_value hf key v child_hashes must_recompute algorithm =
     (case (if is_ethereum algorithm \<and> must_recompute \<and> length key = 32
            then fix_account_storage_root_value hf v child_hashes else None) of
        Some fixed \<Rightarrow> Some (key, fixed)
      | None \<Rightarrow> Some (key, v))"

fun kv_of_node :: "hash_fns \<Rightarrow> trie_reader \<Rightarrow> u8 list \<Rightarrow> node \<Rightarrow> kv option" where
  "kv_of_node hf tr key (Branch _ v cs) =
     (case v of
        None \<Rightarrow> None
      | Some v \<Rightarrow>
          let child_hashes = (if tr_must_recompute tr \<and> length key = 32 then children_hashes cs else children_new)
          in fix_account_value hf key v child_hashes (tr_must_recompute tr) (tr_algorithm tr))"
| "kv_of_node hf tr key (Leaf _ v) =
     fix_account_value hf key v children_new (tr_must_recompute tr) (tr_algorithm tr)"

partial_function (option) kv_iter_next ::
  "hash_fns \<Rightarrow> trie_reader \<Rightarrow> node_iter_state \<Rightarrow> (kv io_result option \<times> node_iter_state) option" where
  "kv_iter_next hf tr st =
     (case node_iter_next tr st of
        (None, st) \<Rightarrow> Some (None, st)
      | (Some (Inl e), st) \<Rightarrow> Some (Some (Inl e), st)
      | (Some (Inr (key, node)), st) \<Rightarrow>
          (case kv_of_node hf tr key node of
             Some pair \<Rightarrow> Some (Some (Inr pair), st)
           | None \<Rightarrow> kv_iter_next hf tr st))"

definition kv_from_key :: "u8 list \<Rightarrow> node_iter_state" where
  "kv_from_key key = StartFromKey key"

definition kv_from :: node_iter_state where
  "kv_from = StartFromKey []"

subsection \<open>Stopping after a last key\<close>

datatype 'i filtered_iter =
    Unfiltered 'i
  | Filtered 'i "u8 list"
  | FilterExhausted

definition filtered_new :: "'i \<Rightarrow> u8 list option \<Rightarrow> 'i filtered_iter" where
  "filtered_new it last_key = (case last_key of Some k \<Rightarrow> Filtered it k | None \<Rightarrow> Unfiltered it)"

definition stop_after_key :: "node_iter_state \<Rightarrow> u8 list option \<Rightarrow> node_iter_state filtered_iter" where
  "stop_after_key it last_key = filtered_new it last_key"

fun filtered_next :: "('i, kv io_result) item_fn \<Rightarrow> ('i filtered_iter, kv io_result) item_fn" where
  "filtered_next nxt (Unfiltered it) = map_option (\<lambda>(item, it). (item, Unfiltered it)) (nxt it)"
| "filtered_next nxt (Filtered it last_key) =
     map_option (\<lambda>(item, it).
       case item of
         Some (Inr (key, v)) \<Rightarrow>
           if key \<le> last_key then (Some (Inr (key, v)), Filtered it last_key) else (None, FilterExhausted)
       | Some (Inl e) \<Rightarrow> (Some (Inl e), Filtered it last_key)
       | None \<Rightarrow> (None, FilterExhausted)) (nxt it)"
| "filtered_next nxt FilterExhausted = Some (None, FilterExhausted)"

subsection \<open>The nodes on the path to a key\<close>

record path_iter_item =
  pi_key_nibbles :: "pc list"
  pi_node :: node
  pi_next_nibble :: "pc option"
  pi_must_recompute :: bool

datatype path_iterator_state =
    PathIterating path "u8 list" node
  | PathExhausted

definition path_iterator_new :: "trie_reader \<Rightarrow> u8 list \<Rightarrow> path_iterator_state" where
  "path_iterator_new tr key =
     (case tr_root tr of
        None \<Rightarrow> PathExhausted
      | Some root \<Rightarrow> PathIterating [] (nibbles key) root)"

fun path_iter_next ::
  "trie_reader \<Rightarrow> path_iterator_state \<Rightarrow> path_iter_item io_result option \<times> path_iterator_state" where
  "path_iter_next tr PathExhausted = (None, PathExhausted)"
| "path_iter_next tr (PathIterating matched unmatched node) =
     (let (comparison, unmatched) = compare_partial_path (partial_path node) unmatched;
          matched = matched @ partial_path node
      in case as_components matched of
           Inl e \<Rightarrow> (Some (Inl e), PathIterating matched unmatched node)
         | Inr node_key \<Rightarrow>
             let item = (\<lambda>next_nibble. \<lparr>pi_key_nibbles = node_key, pi_node = node,
                   pi_next_nibble = next_nibble, pi_must_recompute = tr_must_recompute tr\<rparr>)
             in case node of
                  Leaf _ _ \<Rightarrow> (Some (Inr (item None)), PathExhausted)
                | Branch _ _ cs \<Rightarrow>
                    if comparison \<noteq> Equal then (Some (Inr (item None)), PathExhausted)
                    else case unmatched of
                      [] \<Rightarrow> (Some (Inr (item None)), PathExhausted)
                    | nibble # unmatched \<Rightarrow>
                        (case try_new nibble of
                           None \<Rightarrow> (Some (Inl Panic), PathIterating matched unmatched node)
                         | Some nib \<Rightarrow>
                             (case cs nib of
                                None \<Rightarrow> (Some (Inr (item None)), PathExhausted)
                              | Some child \<Rightarrow>
                                  (case child_as_shared_node child (tr_read tr) of
                                     Inl e \<Rightarrow> (Some (Inl e), PathIterating matched unmatched node)
                                   | Inr child \<Rightarrow>
                                       (Some (Inr (item (Some nib))),
                                        PathIterating (matched @ [as_u8 nib]) unmatched child)))))"

end
