(* ===== verification/Iter_Laws.thy ===== *)
theory Iter_Laws
  imports Trie_Iter Merkle_Map
begin

section \<open>What the iterators yield\<close>

text \<open>
  The contract of an iterator that delivers a known sequence of items and then ends (the locale
  \<open>seq_iter\<close>), the sequence of nodes of a trie in key order, and that the iterators over a trie deliver
  it from the start key on.
\<close>

subsection \<open>The contract of an iterator\<close>

fun iter_calls :: "('s, 'a) item_fn \<Rightarrow> nat \<Rightarrow> 's \<Rightarrow> 'a option list option" where
  "iter_calls nxt 0 st = Some []"
| "iter_calls nxt (Suc n) st =
     Option.bind (nxt st) (\<lambda>(item, st). map_option ((#) item) (iter_calls nxt n st))"

text \<open>Any number of calls return: the items in order, and \<open>None\<close> after the last.\<close>

definition delivers :: "('s, 'a) item_fn \<Rightarrow> 's \<Rightarrow> 'a list \<Rightarrow> bool" where
  "delivers nxt st xs \<longleftrightarrow>
     (\<forall>n. iter_calls nxt n st = Some (map (\<lambda>i. if i < length xs then Some (xs ! i) else None) [0..<n]))"

locale seq_iter =
  fixes nxt :: "('s, 'a) item_fn"
    and yields :: "'s \<Rightarrow> 'a list \<Rightarrow> bool"
  assumes yields_end: "yields st [] \<Longrightarrow> \<exists>st'. nxt st = Some (None, st') \<and> yields st' []"
    and yields_item: "yields st (x # xs) \<Longrightarrow> \<exists>st'. nxt st = Some (Some x, st') \<and> yields st' xs"
begin

lemma delivers_items:
  assumes "yields st xs"
  shows "delivers nxt st xs"
proof -
  have "iter_calls nxt n st = Some (map (\<lambda>i. if i < length xs then Some (xs ! i) else None) [0..<n])"
    if "yields st xs" for n st xs
    using that
  proof (induction n arbitrary: st xs)
    case (Suc n)
    have upt: "[0..<Suc n] = 0 # map Suc [0..<n]" by (simp add: map_Suc_upt upt_conv_Cons del: upt_Suc)
    show ?case
    proof (cases xs)
      case Nil
      then obtain st' where "nxt st = Some (None, st')" "yields st' []"
        using yields_end Suc.prems by blast
      with Suc.IH [of st' "[]"] Nil show ?thesis unfolding upt by (simp add: o_def)
    next
      case (Cons x ys)
      then obtain st' where "nxt st = Some (Some x, st')" "yields st' ys"
        using yields_item Suc.prems by blast
      with Suc.IH [of st' ys] Cons show ?thesis unfolding upt by (simp add: o_def)
    qed
  qed simp
  then show ?thesis using assms by (simp add: delivers_def)
qed

end

subsection \<open>The nodes of a trie in key order\<close>

text \<open>
  \<open>visits t k\<close> are the nodes below and including the root of \<open>t\<close>, whose full key is \<open>k\<close>: the key and the
  value of each.
\<close>

primrec visits :: "trie \<Rightarrow> path \<Rightarrow> (path \<times> val option) list" where
  "visits (TLeaf p v) = (\<lambda>k. [(k, Some v)])"
| "visits (TBranch p v ts) =
     (\<lambda>k. (k, v) # concat (map (\<lambda>c.
        case (map_option (\<lambda>t. (tpath t, visits t)) \<circ> ts) c of
          None \<Rightarrow> []
        | Some (q, f) \<Rightarrow> f (k @ as_u8 c # q)) pc_ALL))"

declare visits.simps(2) [simp del]

definition child_visits :: "(pc \<Rightarrow> trie option) \<Rightarrow> path \<Rightarrow> pc \<Rightarrow> (path \<times> val option) list" where
  "child_visits ts k c = (case ts c of None \<Rightarrow> [] | Some t \<Rightarrow> visits t (k @ as_u8 c # tpath t))"

lemma visits_TBranch:
  "visits (TBranch p v ts) k = (k, v) # concat (map (child_visits ts k) pc_ALL)"
  by (auto simp: visits.simps child_visits_def intro!: arg_cong [of _ _ concat] split: option.splits)

lemma child_visits_Some: "ts c = Some t \<Longrightarrow> child_visits ts k c = visits t (k @ as_u8 c # tpath t)"
  by (simp add: child_visits_def)

lemma child_visits_None [simp]: "ts c = None \<Longrightarrow> child_visits ts k c = []"
  by (simp add: child_visits_def)

text \<open>Every key of the sequence extends the root's, and the values are those of the map.\<close>

lemma visits_prefix: "(k', v) \<in> set (visits t k) \<Longrightarrow> prefix k k'"
proof (induction t arbitrary: k rule: trie_induct)
  case (TBranch p w ts)
  then consider "k' = k" | c where "(k', v) \<in> set (child_visits ts k c)"
    by (auto simp: visits_TBranch)
  then show ?case
  proof cases
    case (2 c)
    then obtain t where "ts c = Some t" by (cases "ts c") auto
    with TBranch.IH [OF this] 2 have "prefix (k @ as_u8 c # tpath t) k'" by (simp add: child_visits_Some)
    then show ?thesis using append_prefixD by blast
  qed simp
qed simp

lemma child_visits_prefix: "(k', v) \<in> set (child_visits ts k c) \<Longrightarrow> prefix (k @ [as_u8 c]) k'"
proof -
  assume v: "(k', v) \<in> set (child_visits ts k c)"
  then obtain t where "ts c = Some t" by (cases "ts c") auto
  with v visits_prefix have "prefix (k @ as_u8 c # tpath t) k'" by (force simp: child_visits_Some)
  then have "prefix ((k @ [as_u8 c]) @ tpath t) k'" by simp
  then show ?thesis using append_prefixD by blast
qed

lemma visits_value: "(k', Some v) \<in> set (visits t k) \<longleftrightarrow> (\<exists>r. k' = k @ r \<and> below t r = Some v)"
proof (induction t arbitrary: k k' rule: trie_induct)
  case (TBranch p w ts)
  have child: "(k', Some v) \<in> set (child_visits ts k c) \<longleftrightarrow>
      (\<exists>r. k' = k @ as_u8 c # r \<and> Option.bind (ts c) (\<lambda>t. lookup_t t r) = Some v)" for c
  proof (cases "ts c")
    case (Some t)
    have "(\<exists>r. k' = k @ as_u8 c # r \<and> lookup_t t r = Some v) \<longleftrightarrow>
        (\<exists>r. k' = (k @ as_u8 c # tpath t) @ r \<and> below t r = Some v)" (is "?l \<longleftrightarrow> ?r")
    proof
      assume ?l
      then obtain r where r: "k' = k @ as_u8 c # r" "lookup_t t r = Some v" by blast
      then obtain r' where "r = tpath t @ r'" using lookup_t_prefix [of t r] by (auto elim: prefixE)
      with r show ?r by (intro exI [of _ r']) (simp add: lookup_t_append)
    qed (auto simp: lookup_t_append)
    then show ?thesis using TBranch.IH [OF Some] Some by (simp add: child_visits_Some)
  qed simp
  have "(k', Some v) \<in> set (visits (TBranch p w ts) k) \<longleftrightarrow>
      (k' = k \<and> w = Some v) \<or> (\<exists>c. (k', Some v) \<in> set (child_visits ts k c))"
    by (auto simp: visits_TBranch)
  also have "\<dots> \<longleftrightarrow> (\<exists>r. k' = k @ r \<and> below (TBranch p w ts) r = Some v)" (is "?l \<longleftrightarrow> ?r")
  proof
    assume ?l
    then show ?r
      unfolding child by (elim disjE exE conjE) (force, metis below_TBranch(2) bind.bind_lunit try_new_as_u8)
  next
    assume ?r
    then obtain r where r: "k' = k @ r" "below (TBranch p w ts) r = Some v" by blast
    then show ?l unfolding child
      by (cases r) (auto split: bind_splits)
  qed
  finally show ?case .
qed auto

subsection \<open>The order of the sequence\<close>

lemma list_less_append_cancel [simp]: "p @ q < p @ r \<longleftrightarrow> q < (r :: 'a::linorder list)"
  by (induction p) auto

lemma list_less_append: "r \<noteq> [] \<Longrightarrow> p < p @ (r :: 'a::linorder list)"
  using list_less_append_cancel [of p "[]" r] by (cases r) auto

lemma list_less_diverge: "a < b \<Longrightarrow> p @ a # q < p @ b # (r :: 'a::linorder list)"
  by simp

lemma as_u8_less_iff [simp]: "as_u8 a < as_u8 b \<longleftrightarrow> a < b"
  by (simp add: word_less_nat_alt)

lemma sorted_pc_ALL: "sorted_wrt (<) pc_ALL"
  by (simp add: pc_ALL_def)

lemma child_visits_less:
  assumes "c < d" "(x, v) \<in> set (child_visits ts k c)" "(y, w) \<in> set (child_visits ts' k d)"
  shows "x < y"
proof -
  obtain q r where "x = k @ as_u8 c # q" "y = k @ as_u8 d # r"
    using child_visits_prefix [OF assms(2)] child_visits_prefix [OF assms(3)] by (auto elim!: prefixE)
  then show ?thesis using assms(1) by simp
qed

lemma sorted_wrt_concat:
  assumes "\<And>xs. xs \<in> set xss \<Longrightarrow> sorted_wrt P xs"
    and "sorted_wrt (\<lambda>xs ys. \<forall>x \<in> set xs. \<forall>y \<in> set ys. P x y) xss"
  shows "sorted_wrt P (concat xss)"
  using assms by (induction xss) (auto simp: sorted_wrt_append)

lemma sorted_visits: "sorted_wrt (<) (map fst (visits t k))"
proof (induction t arbitrary: k rule: trie_induct)
  case (TBranch p w ts)
  have child: "sorted_wrt (<) (map fst (child_visits ts k c))" for c
    using TBranch.IH by (cases "ts c") (auto simp: child_visits_Some)
  have less: "k < k'" if "(k', v) \<in> set (child_visits ts k c)" for k' v c
    using child_visits_prefix [OF that] by (auto elim!: prefixE simp: list_less_append)
  have "sorted_wrt (<) (concat (map (\<lambda>c. map fst (child_visits ts k c)) pc_ALL))"
    by (rule sorted_wrt_concat)
      (use child sorted_pc_ALL in \<open>auto simp: sorted_wrt_map child_visits_less elim!: sorted_wrt_mono_rel [rotated]\<close>)
  then have "sorted_wrt (<) (map fst (concat (map (child_visits ts k) pc_ALL)))"
    by (simp add: map_concat o_def)
  then show ?case using less by (auto simp: visits_TBranch)
qed simp

subsection \<open>Stacks of the node iterator\<close>

text \<open>\<open>pending rd stack vs\<close>: the nodes still to be visited from the stack are \<open>vs\<close>.\<close>

inductive pending :: "reader \<Rightarrow> iteration_node list \<Rightarrow> (path \<times> val option) list \<Rightarrow> bool" for rd where
  pending_Nil: "pending rd [] []"
| pending_Unvisited: "repr rd n t A \<Longrightarrow> pending rd stack vs \<Longrightarrow>
    pending rd (Unvisited k n # stack) (visits t k @ vs)"
| pending_Visited_Nil: "pending rd stack vs \<Longrightarrow> pending rd (Visited k [] # stack) vs"
| pending_Visited_Cons: "child_as_shared_node ch rd = Inr n \<Longrightarrow> repr rd n t A \<Longrightarrow>
    pending rd (Visited k cs # stack) vs \<Longrightarrow>
    pending rd (Visited k ((c, ch) # cs) # stack) (visits t (k @ as_u8 c # tpath t) @ vs)"

inductive_cases pending_NilE: "pending rd [] vs"
inductive_cases pending_UnvisitedE: "pending rd (Unvisited k n # stack) vs"
inductive_cases pending_Visited_NilE: "pending rd (Visited k [] # stack) vs"
inductive_cases pending_Visited_ConsE: "pending rd (Visited k ((c, ch) # cs) # stack) vs"

definition slots_from :: "pc list \<Rightarrow> child option children \<Rightarrow> (pc \<times> child) list" where
  "slots_from ps cs = List.map_filter (\<lambda>i. map_option (\<lambda>ch. (i, ch)) (cs i)) ps"

lemma slots_from_simps:
  "slots_from [] cs = []"
  "slots_from (i # ps) cs = (case cs i of None \<Rightarrow> slots_from ps cs | Some ch \<Rightarrow> (i, ch) # slots_from ps cs)"
  by (auto simp: slots_from_def map_filter_simps split: option.splits)

lemma enumerated_slots: "as_enumerated_children_iter cs = slots_from pc_ALL cs"
proof -
  have "List.map_filter (\<lambda>(pos, child). map_option (\<lambda>child. (pos, child)) child) (map (\<lambda>i. (i, cs i)) ps) =
      slots_from ps cs" for "ps"
    by (induction "ps") (auto simp: slots_from_simps map_filter_simps split: option.splits)
  then show ?thesis by (simp add: as_enumerated_children_iter_def children_iter_def)
qed

lemma filter_slots: "filter (\<lambda>(i, _). P i) (slots_from ps cs) = slots_from (filter P ps) cs"
  by (induction "ps") (auto simp: slots_from_simps split: option.splits)

lemma pending_slots:
  assumes "repr rd (Branch p v cs) (TBranch p v ts) A" "pending rd stack vs"
  shows "pending rd (Visited k (slots_from ps cs) # stack) (concat (map (child_visits ts k) ps) @ vs)"
proof (induction "ps")
  case Nil
  show ?case by (simp add: slots_from_simps pending_Visited_Nil assms(2))
next
  case (Cons i "ps")
  show ?case
  proof (rule repr_Branch_slot [OF assms(1), of i], goal_cases)
    case (1 R)
    show ?thesis
    proof (cases "cs i")
      case None
      with 1(1) Cons show ?thesis by (simp add: slots_from_simps)
    next
      case (Some ch)
      with 1(2) obtain n u B where "child_as_shared_node ch rd = Inr n" "repr rd n u B" "ts i = Some u" by blast
      with pending_Visited_Cons [OF this(1,2) Cons] Some show ?thesis
        by (simp add: slots_from_simps child_visits_Some)
    qed
  qed
qed

lemma visits_not_Nil [simp]: "visits t k \<noteq> []"
  by (cases t) (simp_all add: visits_TBranch)

lemma stack_next_Unvisited:
  assumes "repr rd n t A" "pending rd stack vs"
  shows "\<exists>stack' vs' v. stack_next rd (Unvisited k n # stack) =
       (Some (rbind (key_from_nibble_iter k) (\<lambda>key. Inr (key, n))), stack') \<and>
     visits t k @ vs = (k, v) # vs' \<and> node_value n = v \<and> pending rd stack' vs'"
  using assms(1)
proof cases
  case (repr_Leaf p v)
  then show ?thesis using assms(2) by auto
next
  case (repr_Branch cs ts As p v)
  then have "repr rd (Branch p v cs) (TBranch p v ts) A" using assms(1) by simp
  from pending_slots [OF this assms(2)] repr_Branch show ?thesis
    by (simp add: visits_TBranch enumerated_slots)
qed

text \<open>A call visits the next pending node.\<close>

lemma stack_next_pending:
  "pending rd stack vs \<Longrightarrow>
   (case vs of
      [] \<Rightarrow> stack_next rd stack = (None, [])
    | (k, v) # vs' \<Rightarrow> \<exists>n stack'. stack_next rd stack =
         (Some (rbind (key_from_nibble_iter k) (\<lambda>key. Inr (key, n))), stack') \<and>
         node_value n = v \<and> pending rd stack' vs')"
proof (induction rd stack arbitrary: vs rule: stack_next.induct)
  case (1 rd)
  then show ?case by (auto elim: pending_NilE)
next
  case (2 rd key node stack)
  then obtain t A vs1 where "repr rd node t A" "pending rd stack vs1" "vs = visits t key @ vs1"
    by (auto elim: pending_UnvisitedE)
  with stack_next_Unvisited [OF this(1,2), of key] show ?case by (auto simp del: stack_next.simps)
next
  case (3 rd key stack)
  then have "pending rd stack vs" by (auto elim: pending_Visited_NilE)
  from "3.IH" [OF this] show ?case unfolding stack_next.simps(3) .
next
  case (4 rd key pos child cs stack)
  from "4.prems" obtain n t A vs1 where n: "child_as_shared_node child rd = Inr n" "repr rd n t A"
    "pending rd (Visited key cs # stack) vs1" "vs = visits t (key @ as_u8 pos # tpath t) @ vs1"
    by (auto elim: pending_Visited_ConsE)
  have "pending rd (Unvisited (key @ as_u8 pos # partial_path n) n # Visited key cs # stack) vs"
    using pending_Unvisited [OF n(2,3)] n(4) repr_tpath [OF n(2)] by simp
  from "4.IH" [OF n(1) this] show ?case unfolding stack_next.simps(4) n(1) sum.case .
qed

subsection \<open>The descent to the start key\<close>

lemma compare_partial_path_spec:
  "case compare_partial_path p u of
     (Equal, r) \<Rightarrow> u = p @ r
   | (Less, r) \<Rightarrow> \<forall>q. p @ q < u
   | (Greater, r) \<Rightarrow> \<forall>q. u < p @ q"
  by (induction p u rule: compare_partial_path.induct) (auto simp: cmp_def split: ordering.splits)

definition from_on :: "path \<Rightarrow> (path \<times> 'a) list \<Rightarrow> (path \<times> 'a) list" where
  "from_on k = filter (\<lambda>(k', _). k \<le> k')"

lemma from_on_all: "(\<And>k' v. (k', v) \<in> set vs \<Longrightarrow> k \<le> k') \<Longrightarrow> from_on k vs = vs"
  by (auto simp: from_on_def filter_id_conv)

lemma from_on_none: "(\<And>k' v. (k', v) \<in> set vs \<Longrightarrow> k' < k) \<Longrightarrow> from_on k vs = []"
  by (auto simp: from_on_def filter_empty_conv) (meson leD)

lemma from_on_append: "from_on k (xs @ ys) = from_on k xs @ from_on k ys"
  by (simp add: from_on_def)

lemma split_pc_ALL: "pc_ALL = filter (\<lambda>c. c < i) pc_ALL @ i # filter (\<lambda>c. c > i) pc_ALL"
proof -
  have "xs = filter (\<lambda>c. c < i) xs @ i # filter (\<lambda>c. c > i) xs"
    if "sorted_wrt (<) xs" "i \<in> set xs" for xs :: "pc list"
    using that
  proof (induction xs)
    case (Cons x xs)
    show ?case
    proof (cases "x = i")
      case True
      have "filter (\<lambda>c. c < i) xs = []" using Cons.prems(1) True by (auto simp: filter_empty_conv)
      moreover have "filter (\<lambda>c. c > i) xs = xs" using Cons.prems(1) True by (auto simp: filter_id_conv)
      ultimately show ?thesis using True by simp
    next
      case False
      then have "i \<in> set xs" "x < i" using Cons.prems by auto
      with Cons show ?thesis by auto
    qed
  qed simp
  from this [OF sorted_pc_ALL] show ?thesis by simp
qed

text \<open>Below a branch whose key is a strict prefix of the start key, with the next nibble \<open>i\<close>.\<close>

lemma from_on_branch:
  "from_on (k @ as_u8 i # r) (visits (TBranch p v ts) k) =
     from_on (k @ as_u8 i # r) (child_visits ts k i) @ concat (map (child_visits ts k) (filter (\<lambda>c. c > i) pc_ALL))"
proof -
  let ?K = "k @ as_u8 i # r"
  have low: "from_on ?K (concat (map (child_visits ts k) (filter (\<lambda>c. c < i) pc_ALL))) = []"
  proof (rule from_on_none)
    fix k' w
    assume "(k', w) \<in> set (concat (map (child_visits ts k) (filter (\<lambda>c. c < i) pc_ALL)))"
    then obtain c where c: "c < i" "(k', w) \<in> set (child_visits ts k c)" by auto
    then show "k' < ?K" using child_visits_prefix [OF c(2)] by (auto elim!: prefixE)
  qed
  have high: "from_on ?K (concat (map (child_visits ts k) (filter (\<lambda>c. c > i) pc_ALL))) =
      concat (map (child_visits ts k) (filter (\<lambda>c. c > i) pc_ALL))"
  proof (rule from_on_all)
    fix k' w
    assume "(k', w) \<in> set (concat (map (child_visits ts k) (filter (\<lambda>c. c > i) pc_ALL)))"
    then obtain c where c: "c > i" "(k', w) \<in> set (child_visits ts k c)" by auto
    then have "?K < k'" using child_visits_prefix [OF c(2)] by (auto elim!: prefixE)
    then show "?K \<le> k'" by simp
  qed
  have "\<not> ?K \<le> k" by (simp add: not_le list_less_append)
  then have "from_on ?K (visits (TBranch p v ts) k) = from_on ?K (concat (map (child_visits ts k) pc_ALL))"
    by (simp add: visits_TBranch from_on_def)
  also have "\<dots> = from_on ?K (child_visits ts k i) @ concat (map (child_visits ts k) (filter (\<lambda>c. c > i) pc_ALL))"
    by (subst split_pc_ALL [of i]) (simp add: from_on_append low high)
  finally show ?thesis .
qed

lemma visits_from_on_Less:
  assumes "\<forall>q. tpath t @ q < u"
  shows "from_on (k @ u) (visits t (k @ tpath t)) = []"
  using assms visits_prefix by (intro from_on_none) (force elim!: prefixE)

lemma visits_from_on_Greater:
  assumes "\<forall>q. u < tpath t @ q"
  shows "from_on (k @ u) (visits t (k @ tpath t)) = visits t (k @ tpath t)"
  using assms visits_prefix by (intro from_on_all) (force elim!: prefixE simp: order_less_imp_le)

lemma visits_from_on_Equal: "from_on k (visits t k) = visits t k"
  using visits_prefix by (intro from_on_all) (fastforce elim!: prefixE simp: le_less list_less_append)

lemma initial_loop_pending:
  assumes "repr rd node t A" "pending rd stack vs" "valid_path unmatched"
  shows "\<exists>stack'. initial_loop rd node matched unmatched stack = Inr stack' \<and>
    pending rd stack' (from_on (matched @ unmatched) (visits t (matched @ tpath t)) @ vs)"
  using assms
proof (induction unmatched arbitrary: node matched stack t A vs rule: measure_induct_rule [of length])
  case (less unmatched)
  note tp = repr_tpath [OF less.prems(1)]
  note vis = pending_Unvisited [OF less.prems(1,2)]
  obtain comp rest where c: "compare_partial_path (partial_path node) unmatched = (comp, rest)"
    by (cases "compare_partial_path (partial_path node) unmatched")
  note spec = compare_partial_path_spec [of "partial_path node" unmatched, unfolded c prod.case]
  show ?case
  proof (cases comp)
    case Less
    then have "from_on (matched @ unmatched) (visits t (matched @ tpath t)) = []"
      using spec tp by (intro visits_from_on_Less) simp
    then show ?thesis using Less c less.prems(2) by (simp add: initial_loop.simps)
  next
    case Greater
    then have "from_on (matched @ unmatched) (visits t (matched @ tpath t)) = visits t (matched @ tpath t)"
      using spec tp by (intro visits_from_on_Greater) simp
    then show ?thesis using Greater c vis tp by (simp add: initial_loop.simps)
  next
    case Equal
    then have u: "unmatched = tpath t @ rest" using spec tp by simp
    show ?thesis
    proof (cases rest)
      case Nil
      then have "from_on (matched @ unmatched) (visits t (matched @ tpath t)) = visits t (matched @ tpath t)"
        using u visits_from_on_Equal by simp
      then show ?thesis using Equal c vis tp Nil by (cases node) (simp_all add: initial_loop.simps)
    next
      case (Cons b r)
      show ?thesis using less.prems(1)
      proof cases
        case (repr_Leaf p v)
        then show ?thesis using less.prems(2) u Equal c Cons list_less_append [of "b # r" "matched @ p"]
          by (simp add: initial_loop.simps from_on_def flip: not_less)
      next
        case (repr_Branch cs ts As p v)
        have rep: "repr rd (Branch p v cs) (TBranch p v ts) A" using less.prems(1) repr_Branch by simp
        obtain i where i: "b = as_u8 i" "valid_path r"
          using less.prems(3) u Cons by (auto elim: less_16_cases)
        let ?stack = "Visited (matched @ p) (slots_from (filter (\<lambda>c. c > i) pc_ALL) cs) # stack"
        have split: "from_on (matched @ unmatched) (visits t (matched @ tpath t)) =
            from_on (matched @ unmatched) (child_visits ts (matched @ p) i) @
            concat (map (child_visits ts (matched @ p)) (filter (\<lambda>c. c > i) pc_ALL))"
          using from_on_branch [of "matched @ p" i r p v ts] u i Cons repr_Branch by simp
        have pend: "pending rd ?stack
            (concat (map (child_visits ts (matched @ p)) (filter (\<lambda>c. c > i) pc_ALL)) @ vs)"
          by (rule pending_slots [OF rep less.prems(2)])
        have step: "initial_loop rd node matched unmatched stack =
          (case cs i of None \<Rightarrow> Inr ?stack
           | Some child \<Rightarrow> rbind (child_as_shared_node child rd) (\<lambda>node.
               initial_loop rd node ((matched @ p) @ [as_u8 i]) r ?stack))"
          using c Equal Cons i repr_Branch(1)
          by (subst initial_loop.simps) (simp add: enumerated_slots filter_slots Let_def)
        show ?thesis
        proof (cases "cs i")
          case None
          then have "ts i = None" using repr_slot_None [OF rep] by simp
          then show ?thesis using step None pend split by (simp add: from_on_def)
        next
          case (Some ch)
          obtain n t' B where n: "child_as_shared_node ch rd = Inr n" "repr rd n t' B" "ts i = Some t'"
            using repr_Branch_slot [OF rep, of i] Some by metis
          have "\<exists>stack'. initial_loop rd n (matched @ p @ [as_u8 i]) r ?stack = Inr stack' \<and>
            pending rd stack' (from_on ((matched @ p @ [as_u8 i]) @ r) (visits t' ((matched @ p @ [as_u8 i]) @ tpath t')) @
              concat (map (child_visits ts (matched @ p)) (filter (\<lambda>c. c > i) pc_ALL)) @ vs)"
            by (rule less.IH [OF _ n(2) pend]) (use u Cons i in simp_all)
          then show ?thesis using step Some n split u i Cons repr_Branch
            by (simp add: child_visits_Some)
        qed
      qed
    qed
  qed
qed

subsection \<open>Byte keys\<close>

lemma byte_less_nibbles:
  "(drop_bit 4 a < drop_bit 4 b \<or> drop_bit 4 a = drop_bit 4 b \<and> (a AND 0xf) < (b AND 0xf)) \<longleftrightarrow> (a :: u8) < b"
proof -
  have "i < k \<or> i = k \<and> j < l \<longleftrightarrow> 16 * i + j < 16 * k + l" if "j < 16" "l < 16" for i j k l :: nat
    using that by linarith
  from this [of "unat a mod 16" "unat b mod 16" "unat a div 16" "unat b div 16"]
  have "unat a div 16 < unat b div 16 \<or> unat a div 16 = unat b div 16 \<and> unat a mod 16 < unat b mod 16 \<longleftrightarrow>
      unat a < unat b" by simp
  then show ?thesis by (simp only: word_less_nat_alt word_unat_eq_iff unat_low_nibble unat_high_nibble)
qed

lemma nibbles_less [simp]: "nibbles a < nibbles b \<longleftrightarrow> a < b"
proof (induction a arbitrary: b)
  case Nil
  then show ?case by (cases b) auto
next
  case (Cons x a)
  show ?case
  proof (cases b)
    case (Cons y b')
    have "x = y" if "drop_bit 4 x = drop_bit 4 y" "x AND 0xf = y AND 0xf"
      using that byte_of_nibbles by metis
    then show ?thesis using Cons.IH [of b'] Cons byte_less_nibbles [of x y] by auto
  qed simp
qed

lemma nibbles_le [simp]: "nibbles a \<le> nibbles b \<longleftrightarrow> a \<le> b"
  using nibbles_less [of b a] by (simp only: flip: not_less)

lemma key_from_nibbles [simp]: "key_from_nibble_iter (nibbles key) = Inr key"
proof (induction key)
  case (Cons b key)
  have "unat (push_bit 4 (drop_bit 4 b)) = (unat b div 16) * 16"
    using u8_less_256 [of b] by (simp add: push_bit_eq_mult unat_word_ariths unat_high_nibble)
  moreover have "push_bit 4 (drop_bit 4 b) + (b AND 0xf) = b"
    using byte_of_nibbles [of b] by (simp add: push_bit_eq_mult)
  moreover have "unat b < 256" by (rule u8_less_256)
  ultimately show ?case using Cons by (simp add: Let_def unat_low_nibble)
qed simp

lemma key_from_valid: "valid_path k \<Longrightarrow> \<exists>key. key_from_nibble_iter k = Inr key"
proof (induction k rule: key_from_nibble_iter.induct)
  case (1 hi lo k)
  have "unat hi < 16" "unat lo < 16" using 1 by (simp_all add: word_less_nat_alt)
  then have "unat (push_bit 4 hi) + unat lo < 256"
    by (simp add: push_bit_eq_mult unat_word_ariths)
  then show ?case using 1 by (auto simp: Let_def)
qed auto

lemma visits_valid:
  "valid_t t \<Longrightarrow> valid_path k \<Longrightarrow> (k', v) \<in> set (visits t k) \<Longrightarrow> valid_path k'"
proof (induction t arbitrary: k rule: trie_induct)
  case (TBranch p w ts)
  then consider "k' = k" | c where "(k', v) \<in> set (child_visits ts k c)"
    by (auto simp: visits_TBranch)
  then show ?case
  proof cases
    case (2 c)
    then obtain t where t: "ts c = Some t" by (cases "ts c") auto
    then have val: "valid_t t" "valid_path (k @ as_u8 c # tpath t)" using TBranch.prems valid_t_tpath by auto
    show ?thesis by (rule TBranch.IH [OF t val]) (use 2 t in \<open>simp add: child_visits_Some\<close>)
  qed (use TBranch.prems in simp)
qed simp

subsection \<open>The key-value iterator\<close>

text \<open>Readers whose values need no splice of storage roots.\<close>

definition plain :: "trie_reader \<Rightarrow> bool" where
  "plain tr \<longleftrightarrow> \<not> (is_ethereum (tr_algorithm tr) \<and> tr_must_recompute tr)"

lemma kv_of_node_plain: "plain tr \<Longrightarrow> kv_of_node hf tr key n = map_option (Pair key) (node_value n)"
  by (cases n) (auto simp: plain_def fix_account_value_def split: option.splits)

definition entries_of :: "(path \<times> val option) list \<Rightarrow> (path \<times> val) list" where
  "entries_of vs = List.map_filter (\<lambda>(k, v). map_option (Pair k) v) vs"

lemma entries_of_simps [simp]:
  "entries_of [] = []"
  "entries_of ((k, None) # vs) = entries_of vs"
  "entries_of ((k, Some v) # vs) = (k, v) # entries_of vs"
  by (simp_all add: entries_of_def map_filter_simps)

lemma entries_of_append [simp]: "entries_of (xs @ ys) = entries_of xs @ entries_of ys"
  by (induction xs rule: list.induct) (auto simp: entries_of_def map_filter_simps split: option.splits)

lemma set_entries_of [simp]: "(k, v) \<in> set (entries_of vs) \<longleftrightarrow> (k, Some v) \<in> set vs"
  by (induction vs) (auto simp: entries_of_def map_filter_simps split: option.splits)

lemma entries_of_from_on: "entries_of (from_on k vs) = from_on k (entries_of vs)"
  by (induction vs) (auto simp: entries_of_def from_on_def map_filter_simps split: option.splits)

lemma sorted_entries_of: "sorted_wrt (<) (map fst vs) \<Longrightarrow> sorted_wrt (<) (map fst (entries_of vs))"
proof (induction vs)
  case (Cons x vs)
  obtain k v where x: "x = (k, v)" by (cases x)
  then show ?case using Cons by (cases v) (auto, fastforce)
qed simp

definition kv_yields :: "trie_reader \<Rightarrow> node_iter_state \<Rightarrow> kv io_result list \<Rightarrow> bool" where
  "kv_yields tr st xs \<longleftrightarrow> plain tr \<and>
     (\<exists>kvs stack vs. xs = map Inr kvs \<and>
        (case st of StartFromKey key \<Rightarrow> get_iterator_intial_state tr key = Inr stack | Iterating stack' \<Rightarrow> stack = stack') \<and>
        pending (tr_read tr) stack vs \<and> list_all (valid_path \<circ> fst) vs \<and>
        entries_of vs = map (map_prod nibbles id) kvs)"

lemma kv_iter_next_pending:
  assumes "plain tr" "pending (tr_read tr) stack vs" "list_all (valid_path \<circ> fst) vs"
    "entries_of vs = map (map_prod nibbles id) kvs"
  shows "\<exists>stack'. kv_iter_next hf tr (Iterating stack) =
      Some (case kvs of [] \<Rightarrow> None | kv # _ \<Rightarrow> Some (Inr kv), Iterating stack') \<and>
    kv_yields tr (Iterating stack') (map Inr (tl kvs))"
  using assms(2-)
proof (induction vs arbitrary: stack rule: list.induct)
  case Nil
  then have "stack_next (tr_read tr) stack = (None, [])" "kvs = []"
    using stack_next_pending [OF Nil(1)] by auto
  then show ?case
    by (intro exI [of _ "[]"]) (auto simp: kv_iter_next.simps [of hf tr "Iterating stack"] kv_yields_def assms(1)
        intro!: exI [of _ "[]"] pending_Nil)
next
  case (Cons x vs)
  obtain k v where x: "x = (k, v)" by (cases x)
  obtain n stack' where nx: "stack_next (tr_read tr) stack =
      (Some (rbind (key_from_nibble_iter k) (\<lambda>key. Inr (key, n))), stack')" "node_value n = v"
      "pending (tr_read tr) stack' vs"
    using stack_next_pending [OF Cons.prems(1)] x by auto
  show ?case
  proof (cases v)
    case None
    obtain key where "key_from_nibble_iter k = Inr key" using key_from_valid Cons.prems(2) x by auto
    then have "kv_iter_next hf tr (Iterating stack) = kv_iter_next hf tr (Iterating stack')"
      using nx None kv_of_node_plain [OF assms(1)] by (simp add: kv_iter_next.simps [of hf tr "Iterating stack"])
    with Cons.IH [OF nx(3)] Cons.prems x None show ?thesis by simp
  next
    case (Some w)
    then obtain key kvs' where kvs: "kvs = (key, w) # kvs'" "k = nibbles key"
      using Cons.prems(3) x by (auto simp: Cons_eq_map_conv map_prod_def)
    then have "kv_iter_next hf tr (Iterating stack) = Some (Some (Inr (key, w)), Iterating stack')"
      using nx Some kv_of_node_plain [OF assms(1)] by (simp add: kv_iter_next.simps [of hf tr "Iterating stack"])
    moreover have "kv_yields tr (Iterating stack') (map Inr kvs')"
      using nx(3) Cons.prems x Some kvs assms(1) by (auto simp: kv_yields_def o_def intro!: exI [of _ kvs'] exI [of _ vs])
    ultimately show ?thesis using kvs by simp
  qed
qed

lemma kv_iter_next_start:
  "get_iterator_intial_state tr key = Inr stack \<Longrightarrow>
   kv_iter_next hf tr (StartFromKey key) = kv_iter_next hf tr (Iterating stack)"
  by (subst kv_iter_next.simps, subst (2) kv_iter_next.simps) simp

lemma kv_yields_next:
  assumes "kv_yields tr st xs"
  shows "\<exists>st'. kv_iter_next hf tr st = Some (case xs of [] \<Rightarrow> None | x # _ \<Rightarrow> Some x, st') \<and> kv_yields tr st' (tl xs)"
proof -
  from assms obtain kvs stack vs where y: "plain tr" "xs = map Inr kvs"
    "case st of StartFromKey key \<Rightarrow> get_iterator_intial_state tr key = Inr stack | Iterating stack' \<Rightarrow> stack = stack'"
    "pending (tr_read tr) stack vs" "list_all (valid_path \<circ> fst) vs" "entries_of vs = map (map_prod nibbles id) kvs"
    by (auto simp: kv_yields_def)
  have "kv_iter_next hf tr st = kv_iter_next hf tr (Iterating stack)"
    using y(3) kv_iter_next_start by (cases st) auto
  with kv_iter_next_pending [OF y(1,4-6), of hf] y(2) show ?thesis by (cases kvs) auto
qed

text \<open>Iterators over key-value pairs, and the adaptors of the source over any of them.\<close>

fun filtered_yields :: "('i \<Rightarrow> kv io_result list \<Rightarrow> bool) \<Rightarrow> 'i filtered_iter \<Rightarrow> kv io_result list \<Rightarrow> bool" where
  "filtered_yields yields (Unfiltered it) xs = yields it xs"
| "filtered_yields yields (Filtered it last_key) xs =
     (\<exists>kvs. yields it (map Inr kvs) \<and> xs = map Inr (takeWhile (\<lambda>(key, _). key \<le> last_key) kvs))"
| "filtered_yields yields FilterExhausted xs = (xs = [])"

locale kv_seq_iter = seq_iter nxt yields
  for nxt :: "('i, kv io_result) item_fn" and yields
begin

lemma filtered_step:
  assumes "filtered_yields yields st xs"
  shows "\<exists>st'. filtered_next nxt st = Some (case xs of [] \<Rightarrow> None | x # _ \<Rightarrow> Some x, st') \<and>
    filtered_yields yields st' (tl xs)"
proof (cases st)
  case (Unfiltered it)
  then show ?thesis
    using assms yields_end [of it] yields_item [of it] by (cases xs) (fastforce intro: exI [of _ "Unfiltered _"])+
next
  case (Filtered it last_key)
  then obtain kvs where kvs: "yields it (map Inr kvs)" "xs = map Inr (takeWhile (\<lambda>(key, _). key \<le> last_key) kvs)"
    using assms by auto
  show ?thesis
  proof (cases kvs)
    case Nil
    then show ?thesis using Filtered kvs yields_end [of it] by auto
  next
    case (Cons kv rest)
    then obtain it' where it': "nxt it = Some (Some (Inr kv), it')" "yields it' (map Inr rest)"
      using kvs(1) yields_item [of it] by auto
    obtain key v where kv: "kv = (key, v)" by (cases kv)
    show ?thesis
    proof (cases "key \<le> last_key")
      case True
      then show ?thesis using Filtered kvs Cons it' kv by (auto intro!: exI [of _ "Filtered it' last_key"])
    next
      case False
      then show ?thesis using Filtered kvs Cons it' kv by (auto intro!: exI [of _ FilterExhausted])
    qed
  qed
next
  case FilterExhausted
  then show ?thesis using assms by auto
qed

sublocale filtered: seq_iter "filtered_next nxt" "filtered_yields yields"
  by unfold_locales (use filtered_step in fastforce)+

end

interpretation kv_seq: kv_seq_iter "kv_iter_next hf tr" "kv_yields tr" for hf tr
  by unfold_locales (use kv_yields_next [where hf = hf] in fastforce)+

interpretation kv_filtered: kv_seq_iter "filtered_next (kv_iter_next hf tr)" "filtered_yields (kv_yields tr)" for hf tr
  by unfold_locales

subsection \<open>Iterating over a well-formed store\<close>

definition store_reader :: "reader \<Rightarrow> mutable_store \<Rightarrow> bool \<Rightarrow> node_hash_algorithm \<Rightarrow> trie_reader" where
  "store_reader rd s must_recompute alg =
     \<lparr>tr_root = ms_root s, tr_read = rd, tr_must_recompute = must_recompute, tr_algorithm = alg\<rparr>"

lemma store_reader_sel [simp]:
  "tr_root (store_reader rd s mr alg) = ms_root s" "tr_read (store_reader rd s mr alg) = rd"
  "tr_must_recompute (store_reader rd s mr alg) = mr" "tr_algorithm (store_reader rd s mr alg) = alg"
  by (simp_all add: store_reader_def)

lemma lookup_visits: "lookup_t t k = Some v \<longleftrightarrow> (k, Some v) \<in> set (visits t (tpath t))"
  unfolding visits_value lookup_t_def by (auto simp: strip_eq_Some split: bind_splits)

lemma byte_entries:
  assumes "bounded_keys m" "\<And>k v. (k, v) \<in> set es \<Longrightarrow> m k = Some v"
  shows "es = map (map_prod nibbles id) (map (map_prod bytes_iter id) es)"
proof -
  have "nibbles (bytes_iter k) = k" if "(k, v) \<in> set es" for k v
    using assms(2) [OF that] bounded_keysD [OF assms(1), of k] by auto
  then show ?thesis by (auto intro!: map_idI [symmetric])
qed

lemma store_entries:
  assumes "wf_store rd s t A" "plain (store_reader rd s mr alg)"
  obtains E where "kv_yields (store_reader rd s mr alg) (StartFromKey key) (map Inr E)"
    "sorted_wrt (<) (map fst E)"
    "\<And>k v. (k, v) \<in> set E \<longleftrightarrow> lookup_o t (nibbles k) = Some v \<and> key \<le> k"
  using assms(1)
proof (cases rule: wf_store_cases)
  case Empty
  then have "kv_yields (store_reader rd s mr alg) (StartFromKey key) (map Inr [])"
    using assms(2) by (auto simp: kv_yields_def get_iterator_intial_state_def intro: pending_Nil)
  then show ?thesis using that [of "[]"] Empty by simp
next
  case (Trie n u)
  define vs where "vs = from_on (nibbles key) (visits u (tpath u))"
  define E where "E = map (map_prod bytes_iter id) (entries_of vs)"
  obtain stack where stack: "initial_loop rd n [] (nibbles key) [] = Inr stack" "pending rd stack vs"
    using initial_loop_pending [OF Trie(3) pending_Nil, of "nibbles key" "[]"] vs_def by auto
  have valid: "list_all (valid_path \<circ> fst) vs"
    using visits_valid [OF Trie(4) valid_t_tpath [OF Trie(4)]]
    by (auto simp: vs_def from_on_def list_all_iff)
  have ents: "(k, v) \<in> set (entries_of vs) \<longleftrightarrow> lookup_t u k = Some v \<and> nibbles key \<le> k" for k v
    by (auto simp: vs_def from_on_def lookup_visits)
  have E: "entries_of vs = map (map_prod nibbles id) E"
    unfolding E_def by (rule byte_entries [OF Trie(6)]) (unfold ents, blast)
  have "kv_yields (store_reader rd s mr alg) (StartFromKey key) (map Inr E)"
    using assms(2) Trie(1) stack valid E by (auto simp: kv_yields_def get_iterator_intial_state_def)
  moreover have "sorted_wrt (<) (map fst E)"
  proof -
    have "sorted_wrt (<) (map fst vs)"
      unfolding vs_def from_on_def using sorted_visits sorted_wrt_filter
      by (fastforce simp: sorted_wrt_map)
    then have "sorted_wrt (<) (map fst (entries_of vs))" by (rule sorted_entries_of)
    then show ?thesis unfolding E by (simp add: sorted_wrt_map)
  qed
  moreover have "(k, v) \<in> set E \<longleftrightarrow> lookup_o t (nibbles k) = Some v \<and> key \<le> k" for k v
  proof -
    have "(k, v) \<in> set E \<longleftrightarrow> (nibbles k, v) \<in> set (entries_of vs)"
      unfolding E by (force simp: image_iff)
    then show ?thesis using ents Trie(2) by simp
  qed
  ultimately show ?thesis using that by blast
qed

lemma takeWhile_sorted:
  assumes "sorted_wrt (<) (map fst E)"
  shows "takeWhile (\<lambda>(key, _). key \<le> last_key) E = filter (\<lambda>(key, _). key \<le> (last_key :: 'a::linorder)) E"
  using assms
proof (induction E)
  case (Cons x E)
  obtain k v where x: "x = (k, v)" by (cases x)
  show ?case
  proof (cases "k \<le> last_key")
    case False
    then have "filter (\<lambda>(key, _). key \<le> last_key) E = []"
      using Cons.prems x by (fastforce simp: filter_empty_conv)
    then show ?thesis using False x by simp
  qed (use Cons x in auto)
qed simp

text \<open>The entries between two bounds, as the filtered iterator delivers them.\<close>

definition upto_key :: "u8 list option \<Rightarrow> u8 list \<Rightarrow> bool" where
  "upto_key last_key k = (case last_key of None \<Rightarrow> True | Some l \<Rightarrow> k \<le> l)"

lemma store_entries_upto:
  assumes "wf_store rd s t A" "plain (store_reader rd s mr alg)"
  obtains E where
    "filtered_yields (kv_yields (store_reader rd s mr alg)) (stop_after_key (kv_from_key key) last_key) (map Inr E)"
    "sorted_wrt (<) (map fst E)"
    "\<And>k v. (k, v) \<in> set E \<longleftrightarrow> lookup_o t (nibbles k) = Some v \<and> key \<le> k \<and> upto_key last_key k"
proof (rule store_entries [OF assms, of key])
  fix E
  assume E: "kv_yields (store_reader rd s mr alg) (StartFromKey key) (map Inr E)"
    "sorted_wrt (<) (map fst E)" "\<And>k v. (k, v) \<in> set E \<longleftrightarrow> lookup_o t (nibbles k) = Some v \<and> key \<le> k"
  let ?F = "filter (\<lambda>(k, _). upto_key last_key k) E"
  have "filtered_yields (kv_yields (store_reader rd s mr alg)) (stop_after_key (kv_from_key key) last_key) (map Inr ?F)"
    using E(1) takeWhile_sorted [OF E(2)]
    by (cases last_key) (auto simp: stop_after_key_def filtered_new_def kv_from_key_def upto_key_def intro!: exI [of _ E])
  moreover have "sorted_wrt (<) (map fst ?F)"
    using E(2) sorted_wrt_filter by (fastforce simp: sorted_wrt_map)
  ultimately show thesis using that [of ?F] E(3) by auto
qed

end
