(* ===== verification/Merge.thy ===== *)
theory Merge
  imports Iter_Laws Batch
begin

section \<open>Replacing a range of keys\<close>

text \<open>
  \<open>MergeKeyValueIter\<close> (\<open>firewood/src/merkle/merge.rs\<close>): the batch that turns the entries of a trie between
  two keys into a given sequence of key-value pairs. It reads the trie and the sequence in step through an
  iterator that takes an item back, and skips the pairs the trie already has. The caller's pairs come
  from an iterator of any kind; an \<open>EitherKey\<close> is the key it holds.
\<close>

subsection \<open>Taking an item back\<close>

record ('i, 'a) returnable_iter =
  ri_iter :: 'i
  ri_next :: "'a option"

definition returnable_new :: "'i \<Rightarrow> ('i, 'a) returnable_iter" where
  "returnable_new it = \<lparr>ri_iter = it, ri_next = None\<rparr>"

definition set_next :: "'a \<Rightarrow> ('i, 'a) returnable_iter \<Rightarrow> ('i, 'a) returnable_iter" where
  "set_next head r = r\<lparr>ri_next := Some head\<rparr>"

definition returnable_next :: "('i, 'a) item_fn \<Rightarrow> (('i, 'a) returnable_iter, 'a) item_fn" where
  "returnable_next nxt r =
     (case ri_next r of
        Some head \<Rightarrow> Some (Some head, r\<lparr>ri_next := None\<rparr>)
      | None \<Rightarrow> map_option (\<lambda>(item, it). (item, r\<lparr>ri_iter := it\<rparr>)) (nxt (ri_iter r)))"

subsection \<open>The merging iterator\<close>

record ('t, 'k) merge_iter =
  mi_trie :: "('t, kv io_result) returnable_iter"
  mi_kvp :: "('k, kv io_result) returnable_iter"

definition merge_iter_new ::
  "u8 list option \<Rightarrow> u8 list option \<Rightarrow> 'k \<Rightarrow> (node_iter_state filtered_iter, 'k filtered_iter) merge_iter" where
  "merge_iter_new first_key last_key kvp_iter =
     (let base_iter = stop_after_key (kv_from_key (case first_key of Some k \<Rightarrow> k | None \<Rightarrow> [])) last_key
      in \<lparr>mi_trie = returnable_new base_iter, mi_kvp = returnable_new (filtered_new kvp_iter None)\<rparr>)"

partial_function (option) merge_next ::
  "('t, kv io_result) item_fn \<Rightarrow> ('k, kv io_result) item_fn \<Rightarrow> ('t, 'k) merge_iter \<Rightarrow>
   (batch_op io_result option \<times> ('t, 'k) merge_iter) option" where
  "merge_next trie_next kvp_next m =
     Option.bind (returnable_next trie_next (mi_trie m)) (\<lambda>(t, trie).
     Option.bind (returnable_next kvp_next (mi_kvp m)) (\<lambda>(k, kvp).
       case t of
         None \<Rightarrow>
           (case k of
              None \<Rightarrow> Some (None, \<lparr>mi_trie = trie, mi_kvp = kvp\<rparr>)
            | Some (Inl err) \<Rightarrow> Some (Some (Inl err), \<lparr>mi_trie = trie, mi_kvp = kvp\<rparr>)
            | Some (Inr (key, v)) \<Rightarrow> Some (Some (Inr (Put key v)), \<lparr>mi_trie = trie, mi_kvp = kvp\<rparr>))
       | Some (Inl err) \<Rightarrow>
           Some (Some (Inl err),
             \<lparr>mi_trie = trie, mi_kvp = (case k of Some k \<Rightarrow> set_next k kvp | None \<Rightarrow> kvp)\<rparr>)
       | Some (Inr (base_key, node_val)) \<Rightarrow>
           (case k of
              None \<Rightarrow> Some (Some (Inr (Delete base_key)), \<lparr>mi_trie = trie, mi_kvp = kvp\<rparr>)
            | Some (Inl err) \<Rightarrow>
                Some (Some (Inl err), \<lparr>mi_trie = set_next (Inr (base_key, node_val)) trie, mi_kvp = kvp\<rparr>)
            | Some (Inr (kvp_key, kvp_value)) \<Rightarrow>
                (case cmp base_key kvp_key of
                   Less \<Rightarrow>
                     Some (Some (Inr (Delete base_key)),
                       \<lparr>mi_trie = trie, mi_kvp = set_next (Inr (kvp_key, kvp_value)) kvp\<rparr>)
                 | Equal \<Rightarrow>
                     if node_val = kvp_value then merge_next trie_next kvp_next \<lparr>mi_trie = trie, mi_kvp = kvp\<rparr>
                     else Some (Some (Inr (Put kvp_key kvp_value)), \<lparr>mi_trie = trie, mi_kvp = kvp\<rparr>)
                 | Greater \<Rightarrow>
                     Some (Some (Inr (Put kvp_key kvp_value)),
                       \<lparr>mi_trie = set_next (Inr (base_key, node_val)) trie, mi_kvp = kvp\<rparr>)))))"

text \<open>\<open>Merkle::merge_key_value_range\<close>: the iterator and its state for the pairs of \<open>kvp_iter\<close>.\<close>

definition merge_key_value_range ::
  "hash_fns \<Rightarrow> trie_reader \<Rightarrow> ('k, kv io_result) item_fn \<Rightarrow>
   ((node_iter_state filtered_iter, 'k filtered_iter) merge_iter, batch_op io_result) item_fn" where
  "merge_key_value_range hf tr kvp_next =
     merge_next (filtered_next (kv_iter_next hf tr)) (filtered_next kvp_next)"

subsection \<open>What it delivers\<close>

fun returnable_yields :: "('i \<Rightarrow> 'a list \<Rightarrow> bool) \<Rightarrow> ('i, 'a) returnable_iter \<Rightarrow> 'a list \<Rightarrow> bool" where
  "returnable_yields yields r xs =
     (case ri_next r of
        None \<Rightarrow> yields (ri_iter r) xs
      | Some head \<Rightarrow> \<exists>ys. xs = head # ys \<and> yields (ri_iter r) ys)"

declare returnable_yields.simps [simp del]

context seq_iter
begin

lemma returnable_step:
  assumes "returnable_yields yields r xs"
  shows "\<exists>r'. returnable_next nxt r = Some (case xs of [] \<Rightarrow> None | x # _ \<Rightarrow> Some x, r') \<and>
    ri_next r' = None \<and> returnable_yields yields r' (tl xs)"
proof (cases "ri_next r")
  case None
  then have "yields (ri_iter r) xs" using assms by (simp add: returnable_yields.simps)
  then obtain it where "nxt (ri_iter r) = Some (case xs of [] \<Rightarrow> None | x # _ \<Rightarrow> Some x, it)" "yields it (tl xs)"
    using yields_end yields_item by (cases xs) fastforce+
  then show ?thesis using None by (auto simp: returnable_next_def returnable_yields.simps)
next
  case (Some head)
  then show ?thesis using assms by (auto simp: returnable_next_def returnable_yields.simps)
qed

lemma returnable_back:
  "returnable_yields yields r xs \<Longrightarrow> ri_next r = None \<Longrightarrow> returnable_yields yields (set_next x r) (x # xs)"
  by (simp add: returnable_yields.simps set_next_def)

end

fun merge_ops :: "kv list \<Rightarrow> kv list \<Rightarrow> batch_op list" where
  "merge_ops [] [] = []"
| "merge_ops ((b, w) # es) [] = Delete b # merge_ops es []"
| "merge_ops [] ((k, v) # ks) = Put k v # merge_ops [] ks"
| "merge_ops ((b, w) # es) ((k, v) # ks) =
     (if b < k then Delete b # merge_ops es ((k, v) # ks)
      else if b = k then (if w = v then merge_ops es ks else Put k v # merge_ops es ks)
      else Put k v # merge_ops ((b, w) # es) ks)"

locale merging = trie: seq_iter trie_next trie_yields + kvp: seq_iter kvp_next kvp_yields
  for trie_next :: "('t, kv io_result) item_fn" and trie_yields
    and kvp_next :: "('k, kv io_result) item_fn" and kvp_yields
begin

definition merge_yields :: "('t, 'k) merge_iter \<Rightarrow> batch_op io_result list \<Rightarrow> bool" where
  "merge_yields m xs \<longleftrightarrow>
     (\<exists>es ks. returnable_yields trie_yields (mi_trie m) (map Inr es) \<and>
        returnable_yields kvp_yields (mi_kvp m) (map Inr ks) \<and> xs = map Inr (merge_ops es ks))"

lemma merge_yieldsI:
  "returnable_yields trie_yields (mi_trie m) (map Inr es) \<Longrightarrow>
   returnable_yields kvp_yields (mi_kvp m) (map Inr ks) \<Longrightarrow> merge_yields m (map Inr (merge_ops es ks))"
  by (auto simp: merge_yields_def)

lemma merge_step:
  assumes "returnable_yields trie_yields (mi_trie m) (map Inr es)"
    "returnable_yields kvp_yields (mi_kvp m) (map Inr ks)"
  shows "\<exists>m'. merge_next trie_next kvp_next m =
      Some (case merge_ops es ks of [] \<Rightarrow> None | x # _ \<Rightarrow> Some (Inr x), m') \<and>
    merge_yields m' (map Inr (tl (merge_ops es ks)))"
  using assms
proof (induction es ks arbitrary: m rule: merge_ops.induct)
  case 1
  from trie.returnable_step [OF 1(1)] kvp.returnable_step [OF 1(2)] show ?case
    by (fastforce simp: merge_next.simps [of trie_next kvp_next m] intro: merge_yieldsI [where es = "[]" and ks = "[]", simplified])
next
  case (2 b w es)
  from trie.returnable_step [OF 2(2)] kvp.returnable_step [OF 2(3)] show ?case
    by (fastforce simp: merge_next.simps [of trie_next kvp_next m] intro: merge_yieldsI [where ks = "[]", simplified])
next
  case (3 k v ks)
  from trie.returnable_step [OF 3(2)] kvp.returnable_step [OF 3(3)] show ?case
    by (fastforce simp: merge_next.simps [of trie_next kvp_next m] intro: merge_yieldsI [where es = "[]", simplified])
next
  case (4 b w es k v ks)
  from trie.returnable_step [OF "4.prems"(1)] obtain t where t:
    "returnable_next trie_next (mi_trie m) = Some (Some (Inr (b, w)), t)" "ri_next t = None"
    "returnable_yields trie_yields t (map Inr es)" by auto
  from kvp.returnable_step [OF "4.prems"(2)] obtain c where c:
    "returnable_next kvp_next (mi_kvp m) = Some (Some (Inr (k, v)), c)" "ri_next c = None"
    "returnable_yields kvp_yields c (map Inr ks)" by auto
  note tback = trie.returnable_back [OF t(3,2), of "Inr (b, w)"]
    and cback = kvp.returnable_back [OF c(3,2), of "Inr (k, v)"]
  note step = merge_next.simps [of trie_next kvp_next m]
  consider "b < k" | "b = k" "w = v" | "b = k" "w \<noteq> v" | "k < b" by (cases b k rule: linorder_cases) auto
  then show ?case
  proof cases
    case 1
    then show ?thesis using t(1,3) c(1) cback by (auto simp: step cmp_def intro!: merge_yieldsI)
  next
    case 2
    then show ?thesis using t(1,3) c(1,3) "4.IH"(2) [of "\<lparr>mi_trie = t, mi_kvp = c\<rparr>"] by (simp add: step cmp_def)
  next
    case 3
    then show ?thesis using t(1,3) c(1,3) by (auto simp: step cmp_def intro!: merge_yieldsI)
  next
    case 4
    then show ?thesis using t(1) c(1,3) tback by (auto simp: step cmp_def intro!: merge_yieldsI)
  qed
qed

sublocale merged: seq_iter "merge_next trie_next kvp_next" merge_yields
proof
  fix m xs and x :: "batch_op io_result"
  have "\<exists>m'. merge_next trie_next kvp_next m = Some (case ys of [] \<Rightarrow> None | y # _ \<Rightarrow> Some y, m') \<and>
      merge_yields m' (tl ys)" if y: "merge_yields m ys" for ys
  proof -
    from y obtain es ks where "returnable_yields trie_yields (mi_trie m) (map Inr es)"
      "returnable_yields kvp_yields (mi_kvp m) (map Inr ks)" "ys = map Inr (merge_ops es ks)"
      by (auto simp: merge_yields_def)
    with merge_step [OF this(1,2)] show ?thesis by (cases "merge_ops es ks") auto
  qed
  then show "merge_yields m [] \<Longrightarrow> \<exists>m'. merge_next trie_next kvp_next m = Some (None, m') \<and> merge_yields m' []"
    and "merge_yields m (x # xs) \<Longrightarrow> \<exists>m'. merge_next trie_next kvp_next m = Some (Some x, m') \<and> merge_yields m' xs"
    by fastforce+
qed

end

text \<open>The caller's iterator over pairs it has in memory.\<close>

fun list_next :: "('a list, 'a) item_fn" where
  "list_next [] = Some (None, [])"
| "list_next (x # xs) = Some (Some x, xs)"

interpretation list_seq: kv_seq_iter list_next "(=)"
  by unfold_locales auto

interpretation range_merge: merging "filtered_next (kv_iter_next hf tr)" "filtered_yields (kv_yields tr)"
  "filtered_next list_next" "filtered_yields (=)" for hf tr
  by unfold_locales

lemma merge_delivers:
  assumes "filtered_yields (kv_yields tr) (stop_after_key (kv_from_key (case first_key of Some k \<Rightarrow> k | None \<Rightarrow> [])) last_key) (map Inr es)"
  shows "delivers (merge_key_value_range hf tr list_next) (merge_iter_new first_key last_key (map Inr ks))
    (map Inr (merge_ops es ks))"
  unfolding merge_key_value_range_def
  by (rule range_merge.merged.delivers_items, rule range_merge.merge_yieldsI)
    (use assms in \<open>simp_all add: merge_iter_new_def Let_def returnable_new_def returnable_yields.simps filtered_new_def\<close>)

subsection \<open>The effect of the operations\<close>

definition in_range :: "u8 list option \<Rightarrow> u8 list option \<Rightarrow> u8 list \<Rightarrow> bool" where
  "in_range first_key last_key k \<longleftrightarrow>
     (case first_key of None \<Rightarrow> True | Some f \<Rightarrow> f \<le> k) \<and> (case last_key of None \<Rightarrow> True | Some l \<Rightarrow> k \<le> l)"

lemma sorted_keys_map_of:
  "sorted_wrt (<) (map fst (es :: kv list)) \<Longrightarrow> map_of es k = Some v \<longleftrightarrow> (k, v) \<in> set es"
  by (rule map_of_eq_Some_iff) (simp add: strict_sorted_iff)

lemma sorted_keys_unique:
  assumes "sorted_wrt (<) (map fst (xs :: kv list))" "sorted_wrt (<) (map fst ys)" "set xs = set ys"
  shows "xs = ys"
  by (rule map_sorted_distinct_set_unique [of fst])
    (use assms in \<open>auto simp: strict_sorted_iff distinct_map\<close>)

lemma merge_ops_effect:
  assumes "sorted_wrt (<) (map fst es)" "sorted_wrt (<) (map fst ks)" "\<And>k v. (k, v) \<in> set es \<Longrightarrow> m k = Some v"
  shows "fold op_map (merge_ops es ks) m k =
    (if k \<in> fst ` set ks then map_of ks k else if k \<in> fst ` set es then None else m k)"
  using assms
proof (induction es ks arbitrary: m rule: merge_ops.induct)
  case (2 b w es)
  have nin: "b \<notin> fst ` set es" using "2.prems"(1) by auto
  have ih: "fold op_map (merge_ops es []) (m(b := None)) k =
      (if k \<in> fst ` set ([] :: kv list) then map_of [] k else if k \<in> fst ` set es then None else (m(b := None)) k)"
    by (rule "2.IH" [of "m(b := None)"]) (use "2.prems" nin in force)+
  show ?case using nin "2.prems"(1) by (simp add: ih)
next
  case (3 k' v ks)
  have nin: "k' \<notin> fst ` set ks" using "3.prems"(2) by auto
  have ih: "fold op_map (merge_ops [] ks) (m(k' \<mapsto> v)) k =
      (if k \<in> fst ` set ks then map_of ks k else if k \<in> fst ` set ([] :: kv list) then None else (m(k' \<mapsto> v)) k)"
    by (rule "3.IH" [of "m(k' \<mapsto> v)"]) (use "3.prems" in auto)
  show ?case using nin by (simp add: ih)
next
  case (4 b w es k' v ks)
  have nin: "b \<notin> fst ` set es" "k' \<notin> fst ` set ks" using "4.prems"(1,2) by auto
  consider "b < k'" | "b = k'" "w = v" | "b = k'" "w \<noteq> v" | "k' < b" by (cases b k' rule: linorder_cases) auto
  then show ?case
  proof cases
    case 1
    then have "b \<notin> fst ` set ((k', v) # ks)" using "4.prems"(2) by fastforce
    moreover have "fold op_map (merge_ops es ((k', v) # ks)) (m(b := None)) k =
      (if k \<in> fst ` set ((k', v) # ks) then map_of ((k', v) # ks) k else if k \<in> fst ` set es then None else (m(b := None)) k)"
      by (rule "4.IH"(1) [of "m(b := None)", OF 1]) (use "4.prems" nin in force)+
    ultimately show ?thesis using 1 nin by (cases "k = b"; cases "k = k'"; simp)
  next
    case 2
    then have "fold op_map (merge_ops es ks) (m) k =
      (if k \<in> fst ` set ks then map_of ks k else if k \<in> fst ` set es then None else (m) k)"
      by (intro "4.IH"(2) [of m]) (use "4.prems" in auto)
    then show ?thesis using 2 nin "4.prems"(3) [of b w] by (cases "k = b"; simp)
  next
    case 3
    then have "fold op_map (merge_ops es ks) (m(b \<mapsto> v)) k =
      (if k \<in> fst ` set ks then map_of ks k else if k \<in> fst ` set es then None else (m(b \<mapsto> v)) k)"
      by (intro "4.IH"(3) [of "m(b \<mapsto> v)"]) (use "4.prems" nin in force)+
    then show ?thesis using 3 nin by (cases "k = b"; simp)
  next
    case 4
    then have ne: "\<not> b < k'" "b \<noteq> k'" by auto
    from 4 have k': "k' \<notin> fst ` set ((b, w) # es)" using "4.prems"(1) by fastforce
    have "fold op_map (merge_ops ((b, w) # es) ks) (m(k' \<mapsto> v)) k =
      (if k \<in> fst ` set ks then map_of ks k else if k \<in> fst ` set ((b, w) # es) then None else (m(k' \<mapsto> v)) k)"
      by (rule "4.IH"(4) [of "m(k' \<mapsto> v)"]) (use "4.prems" 4 k' in force)+
    then show ?thesis using k' nin ne by (cases "k = b"; cases "k = k'"; simp)
  qed
qed simp

lemma merge_ops_keys: "op \<in> set (merge_ops es ks) \<Longrightarrow>
  (\<exists>k v. op = Put k v \<and> (k, v) \<in> set ks) \<or> (\<exists>k v. op = Delete k \<and> (k, v) \<in> set es)"
  by (induction es ks rule: merge_ops.induct) (auto split: if_splits)

text \<open>Every pair of the trie between the bounds is replaced by the pairs of the sequence.\<close>

lemma merge_ops_range:
  assumes "sorted_wrt (<) (map fst es)" "sorted_wrt (<) (map fst ks)"
    and "\<And>k v. (k, v) \<in> set es \<longleftrightarrow> m k = Some v \<and> in_range first_key last_key k"
    and "\<And>k v. (k, v) \<in> set ks \<Longrightarrow> in_range first_key last_key k"
  shows "fold op_map (merge_ops es ks) m = (\<lambda>k. if in_range first_key last_key k then map_of ks k else m k)"
proof
  fix k
  have "fold op_map (merge_ops es ks) m k =
      (if k \<in> fst ` set ks then map_of ks k else if k \<in> fst ` set es then None else m k)"
    by (rule merge_ops_effect) (use assms in auto)
  moreover have "k \<in> fst ` set es \<longleftrightarrow> in_range first_key last_key k \<and> m k \<noteq> None"
    using assms(3) by force
  moreover have "k \<in> fst ` set ks \<longleftrightarrow> map_of ks k \<noteq> None" by (simp add: map_of_eq_None_iff)
  moreover have "k \<in> fst ` set ks \<Longrightarrow> in_range first_key last_key k" using assms(4) by auto
  ultimately show "fold op_map (merge_ops es ks) m k = (if in_range first_key last_key k then map_of ks k else m k)"
    by auto
qed

end
