(* ===== verification/Iter_Properties.thy ===== *)
theory Iter_Properties
  imports Merge Hash_Properties
begin

section \<open>Properties of iteration and merging\<close>

text \<open>
  What the iterators over a trie deliver, and that the batch of \<open>Merkle::merge_key_value_range\<close> replaces a
  range of keys.
\<close>

subsection \<open>Iteration\<close>

text \<open>
  C13. Iteration. On a well-formed store, the key-value iterator from a start key, stopped after an optional
  last key, delivers without an error exactly the pairs that \<open>get_value\<close> knows between the two keys
  (inclusive), in strictly increasing order of keys, and \<open>None\<close> in every further call; every call returns.
  The database is not one whose Ethereum accounts need their storage root recomputed.
\<close>

theorem key_value_iteration_exact:
  assumes "wf_store rd s t A" "\<not> (is_ethereum alg \<and> mr)"
  shows "\<exists>E. delivers (filtered_next (kv_iter_next hf (store_reader rd s mr alg)))
       (stop_after_key (kv_from_key key) last_key) (map Inr E) \<and>
     sorted_wrt (<) (map fst E) \<and>
     (\<forall>k v. (k, v) \<in> set E \<longleftrightarrow>
        get_value rd (ms_root s) k = Inr (Some v) \<and> key \<le> k \<and> (case last_key of None \<Rightarrow> True | Some l \<Rightarrow> k \<le> l))"
proof -
  have "plain (store_reader rd s mr alg)" using assms(2) by (simp add: plain_def)
  from store_entries_upto [OF assms(1) this, of key last_key] obtain E where
    E: "filtered_yields (kv_yields (store_reader rd s mr alg)) (stop_after_key (kv_from_key key) last_key) (map Inr E)"
    "sorted_wrt (<) (map fst E)"
    "\<And>k v. (k, v) \<in> set E \<longleftrightarrow> lookup_o t (nibbles k) = Some v \<and> key \<le> k \<and> upto_key last_key k"
    by metis
  from kv_seq.filtered.delivers_items [OF E(1)] E(2,3) show ?thesis
    using get_value_wf [OF assms(1)] by (auto simp: upto_key_def)
qed

lemma sample_get_value:
  "get_value sample_reader (ms_root sample_store) k = Inr (Some v) \<longleftrightarrow>
     k = [] \<and> v = [1] \<or> k = [3] \<and> v = [7]"
proof -
  have key: "nibbles [3] = [0, 3]" by code_simp
  have "nibbles k = [] \<longleftrightarrow> k = []" "nibbles k = [0, 3] \<longleftrightarrow> k = [3]"
    using nibbles_inject [of k "[]"] nibbles_inject [of k "[3]"] key by simp_all
  then show ?thesis by (auto simp: get_value_wf [OF sample_wf] sample_lookup split: if_splits)
qed

theorem key_value_iteration_exact_witness:
  "delivers (filtered_next (kv_iter_next sample_hf (store_reader sample_reader sample_store True MerkleDB)))
     (stop_after_key (kv_from_key [2]) (Some [4])) [Inr ([3], [7])]"
proof -
  obtain E where E: "delivers (filtered_next (kv_iter_next sample_hf (store_reader sample_reader sample_store True MerkleDB)))
      (stop_after_key (kv_from_key [2]) (Some [4])) (map Inr E)" "sorted_wrt (<) (map fst E)"
    "\<And>k v. (k, v) \<in> set E \<longleftrightarrow> (k = [] \<and> v = [1] \<or> k = [3] \<and> v = [7]) \<and> [2] \<le> k \<and> k \<le> [4]"
    using key_value_iteration_exact [OF sample_wf, of MerkleDB True sample_hf "[2]" "Some [4]"]
    unfolding sample_get_value by auto
  have "set E = set [([3], [7])]" using E(3) by auto
  moreover have "sorted_wrt (<) (map fst [([3] :: u8 list, [7] :: val)])" by simp
  ultimately have "E = [([3], [7])]" using E(2) by (intro sorted_keys_unique)
  then show ?thesis using E(1) by simp
qed

subsection \<open>Replacing a range\<close>

text \<open>
  C14. Merging a range. Given pairs in strictly increasing key order, within the bounds and acceptable to
  \<open>check_batch_op\<close>, the iterator of \<open>Merkle::merge_key_value_range\<close> over a well-formed store delivers a batch
  without an error; applying it serially to the store succeeds, and afterwards a key within the bounds has
  exactly the value the pairs give it (none if they have none) and every other key the value it had.
\<close>

theorem merge_replaces_range:
  assumes "wf_store rd s t A" "\<not> (is_ethereum alg \<and> mr)" "sorted_wrt (<) (map fst ks)"
    "list_all (\<lambda>(k, v). in_range first_key last_key k \<and> check_batch_op alg (Put k v) = Inr ()) ks"
  shows "\<exists>ops s'. delivers (merge_key_value_range hf (store_reader rd s mr alg) list_next)
       (merge_iter_new first_key last_key (map Inr ks)) (map Inr ops) \<and>
     apply_batch_serial rd alg s (map Inr ops) = Inr s' \<and>
     (\<forall>k. get_value rd (ms_root s') k =
        (if in_range first_key last_key k then Inr (map_of ks k) else get_value rd (ms_root s) k))"
proof -
  let ?f = "case first_key of Some k \<Rightarrow> k | None \<Rightarrow> []"
  have "plain (store_reader rd s mr alg)" using assms(2) by (simp add: plain_def)
  from store_entries_upto [OF assms(1) this, of ?f last_key] obtain E where
    E: "filtered_yields (kv_yields (store_reader rd s mr alg)) (stop_after_key (kv_from_key ?f) last_key) (map Inr E)"
    "sorted_wrt (<) (map fst E)"
    "\<And>k v. (k, v) \<in> set E \<longleftrightarrow> lookup_o t (nibbles k) = Some v \<and> ?f \<le> k \<and> upto_key last_key k"
    by metis
  have led: "ledger rd None s" using assms(1) by (auto simp: ledger_def)
  note con = store_contents_wf [OF assms(1)]
  have range: "(k, v) \<in> set E \<longleftrightarrow> store_contents rd s k = Some v \<and> in_range first_key last_key k" for k v
    using E(3) by (auto simp: con in_range_def upto_key_def split: option.splits)
  have eff: "fold op_map (merge_ops E ks) (store_contents rd s) =
      (\<lambda>k. if in_range first_key last_key k then map_of ks k else store_contents rd s k)"
    by (rule merge_ops_range [OF E(2) assms(3) range]) (use assms(4) in \<open>auto simp: list_all_iff\<close>)
  have "check_batch_op alg op = Inr ()" if "op \<in> set (merge_ops E ks)" for op
    using merge_ops_keys [OF that]
  proof (elim disjE exE conjE)
    fix k v assume "op = Delete k" "(k, v) \<in> set E"
    then have "lookup_o t (nibbles k) \<noteq> None" using E(3) by simp
    then have "length k \<le> MAX_KEY_BYTES"
      using assms(1) bounded_keysD [of "lookup_o t" "nibbles k"] by (auto simp: wf_store_def)
    then show ?thesis using \<open>op = Delete k\<close> by (simp add: check_batch_op_ok)
  qed (use assms(4) in \<open>auto simp: list_all_iff\<close>)
  from trie_store.batch_contents [OF led this] obtain s' where
    s': "apply_batch_serial rd alg s (map Inr (merge_ops E ks)) = Inr s'" "ledger rd None s'"
    "store_contents rd s' = fold op_map (merge_ops E ks) (store_contents rd s)"
    unfolding apply_batch_serial_def by blast
  show ?thesis
    by (rule exI [of _ "merge_ops E ks"], rule exI [of _ s'])
      (use merge_delivers [OF E(1)] s' eff trie_store.get_contents [OF s'(2)] trie_store.get_contents [OF led] in simp)
qed

theorem merge_replaces_range_witness:
  "\<exists>ops s'. delivers (merge_key_value_range sample_hf (store_reader sample_reader sample_store False Ethereum) list_next)
      (merge_iter_new (Some [1]) None (map Inr [([2], [5]), ([4], [6])])) (map Inr ops) \<and>
    apply_batch_serial sample_reader Ethereum sample_store (map Inr ops) = Inr s' \<and>
    get_value sample_reader (ms_root s') [2] = Inr (Some [5]) \<and> get_value sample_reader (ms_root s') [3] = Inr None \<and>
    get_value sample_reader (ms_root s') [] = Inr (Some [1])"
proof -
  have "list_all (\<lambda>(k, v). in_range (Some [1]) None k \<and> check_batch_op Ethereum (Put k v) = Inr ())
      [([2], [5]), ([4], [6])]"
    by (simp add: in_range_def check_batch_op_ok MAX_KEY_BYTES_def)
  from merge_replaces_range [OF sample_wf _ _ this, of False sample_hf] obtain ops s' where
    d: "delivers (merge_key_value_range sample_hf (store_reader sample_reader sample_store False Ethereum) list_next)
      (merge_iter_new (Some [1]) None (map Inr [([2], [5]), ([4], [6])])) (map Inr ops)"
    and a: "apply_batch_serial sample_reader Ethereum sample_store (map Inr ops) = Inr s'"
    and g: "\<And>k. get_value sample_reader (ms_root s') k =
      (if in_range (Some [1]) None k then Inr (map_of [([2], [5]), ([4], [6])] k)
       else get_value sample_reader (ms_root sample_store) k)" by auto
  have "get_value sample_reader (ms_root s') [2] = Inr (Some [5])" "get_value sample_reader (ms_root s') [3] = Inr None"
    "get_value sample_reader (ms_root s') [] = Inr (Some [1])"
    unfolding g using sample_get_value [of "[]" "[1]"] by (simp_all add: in_range_def)
  with d a show ?thesis by blast
qed

end
