(* ===== verification/Path_Views.thy ===== *)
theory Path_Views
  imports Paths "HOL-Library.List_Lexorder"
begin

section \<open>Views of paths\<close>

text \<open>
  The operations of \<open>storage/src/path\<close> on sequences of path components: splitting and the common prefix of
  two paths (\<open>split.rs\<close>), two segments seen as one path (\<open>joined.rs\<close>), the guard that restores a path
  buffer, and the upper bound of the paths with a prefix (\<open>buf.rs\<close>). A contiguous path is a list.
\<close>

subsection \<open>Splitting\<close>

definition path_split_at :: "'a list \<Rightarrow> nat \<Rightarrow> ('a list \<times> 'a list) io_result" where
  "path_split_at p mid = (if mid \<le> length p then Inr (take mid p, drop mid p) else Inl Panic)"

definition path_split_last :: "'a list \<Rightarrow> ('a \<times> 'a list) option io_result" where
  "path_split_last p =
     (if length p = 0 then Inr None
      else rbind (path_split_at p (length p - 1)) (\<lambda>(pfx, lst).
           Inr (map_option (\<lambda>(c, _). (c, pfx)) (split_first lst))))"

record 'a path_common_prefix =
  pcp_common :: "'a list"
  pcp_a_suffix :: "'a list"
  pcp_b_suffix :: "'a list"

definition pcp_new :: "'a list \<Rightarrow> 'a list \<Rightarrow> 'a path_common_prefix io_result" where
  "pcp_new a b =
     (let mid = length (takeWhile (\<lambda>(a, b). a = b) (zip a b))
      in rbind (path_split_at a mid) (\<lambda>(common, a_suffix).
         rbind (path_split_at b mid) (\<lambda>(_, b_suffix).
         Inr \<lparr>pcp_common = common, pcp_a_suffix = a_suffix, pcp_b_suffix = b_suffix\<rparr>)))"

definition split_first_parts ::
  "'a path_common_prefix \<Rightarrow> ('a \<times> 'a list) option \<times> ('a \<times> 'a list) option \<times> 'a list" where
  "split_first_parts c = (split_first (pcp_a_suffix c), split_first (pcp_b_suffix c), pcp_common c)"

lemma path_split_last_snoc [simp]: "path_split_last (p @ [c]) = Inr (Some (c, p))"
  by (simp add: path_split_last_def path_split_at_def)

lemma path_split_last_Nil [simp]: "path_split_last [] = Inr None"
  by (simp add: path_split_last_def)

lemma pcp_new_Cons:
  "pcp_new (x # a) (y # b) =
     (if x = y then rbind (pcp_new a b) (\<lambda>c. Inr (c\<lparr>pcp_common := x # pcp_common c\<rparr>))
      else Inr \<lparr>pcp_common = [], pcp_a_suffix = x # a, pcp_b_suffix = y # b\<rparr>)"
  by (simp add: pcp_new_def Let_def path_split_at_def)

lemma pcp_new_Nil [simp]:
  "pcp_new [] b = Inr \<lparr>pcp_common = [], pcp_a_suffix = [], pcp_b_suffix = b\<rparr>"
  "pcp_new a [] = Inr \<lparr>pcp_common = [], pcp_a_suffix = a, pcp_b_suffix = []\<rparr>"
  by (simp_all add: pcp_new_def Let_def path_split_at_def)

text \<open>The split never panics, rebuilds both paths and is maximal.\<close>

lemma pcp_new_ok:
  "\<exists>c. pcp_new a b = Inr c \<and> a = pcp_common c @ pcp_a_suffix c \<and> b = pcp_common c @ pcp_b_suffix c \<and>
     (pcp_a_suffix c = [] \<or> pcp_b_suffix c = [] \<or> hd (pcp_a_suffix c) \<noteq> hd (pcp_b_suffix c))"
proof (induction a arbitrary: b)
  case (Cons x a)
  show ?case
  proof (cases b)
    case (Cons y b')
    with Cons.IH [of b'] show ?thesis by (auto simp: pcp_new_Cons)
  qed simp
qed simp

subsection \<open>Two segments as one path\<close>

record 'a joined_path =
  jp_prefix :: "'a list"
  jp_suffix :: "'a list"

definition jp_len :: "'a joined_path \<Rightarrow> nat io_result" where
  "jp_len j = (let n = length (jp_prefix j) + length (jp_suffix j) in if n < 2 ^ 64 then Inr n else Inl Panic)"

definition jp_is_empty :: "'a joined_path \<Rightarrow> bool" where
  "jp_is_empty j \<longleftrightarrow> jp_prefix j = [] \<and> jp_suffix j = []"

definition jp_components :: "'a joined_path \<Rightarrow> 'a list" where
  "jp_components j = jp_prefix j @ jp_suffix j"

definition jp_as_component_slice :: "'a joined_path \<Rightarrow> 'a list" where
  "jp_as_component_slice j =
     (if jp_prefix j = [] then jp_suffix j
      else if jp_suffix j = [] then jp_prefix j
      else [] @ jp_prefix j @ jp_suffix j)"

definition jp_split_at :: "'a joined_path \<Rightarrow> nat \<Rightarrow> ('a joined_path \<times> 'a joined_path) io_result" where
  "jp_split_at j mid =
     (if length (jp_prefix j) \<le> mid
      then rbind (path_split_at (jp_suffix j) (mid - length (jp_prefix j))) (\<lambda>(a_suffix, b_suffix).
           Inr (\<lparr>jp_prefix = jp_prefix j, jp_suffix = a_suffix\<rparr>, \<lparr>jp_prefix = [], jp_suffix = b_suffix\<rparr>))
      else rbind (path_split_at (jp_prefix j) mid) (\<lambda>(a_prefix, b_prefix).
           Inr (\<lparr>jp_prefix = a_prefix, jp_suffix = []\<rparr>, \<lparr>jp_prefix = b_prefix, jp_suffix = jp_suffix j\<rparr>)))"

definition jp_split_first :: "'a joined_path \<Rightarrow> ('a \<times> 'a joined_path) option" where
  "jp_split_first j =
     (case split_first (jp_prefix j) of
        Some (first, pfx) \<Rightarrow> Some (first, \<lparr>jp_prefix = pfx, jp_suffix = jp_suffix j\<rparr>)
      | None \<Rightarrow>
          (case split_first (jp_suffix j) of
             Some (first, sfx) \<Rightarrow> Some (first, \<lparr>jp_prefix = [], jp_suffix = sfx\<rparr>)
           | None \<Rightarrow> None))"

text \<open>A joined path acts as the concatenation of its segments.\<close>

lemma joined_path_refines:
  "jp_as_component_slice j = jp_components j"
  "jp_is_empty j \<longleftrightarrow> jp_components j = []"
  "rbind (jp_split_at j mid) (\<lambda>(a, b). Inr (jp_components a, jp_components b)) = path_split_at (jp_components j) mid"
  "map_option (\<lambda>(c, k). (c, jp_components k)) (jp_split_first j) = split_first (jp_components j)"
  by (auto simp: jp_as_component_slice_def jp_components_def jp_is_empty_def jp_split_at_def path_split_at_def
      jp_split_first_def split_first_def split: list.splits)

subsection \<open>Guards\<close>

text \<open>
  A \<open>PathGuard\<close> holds the length of the buffer when it was made; dropping it truncates the buffer.
\<close>

definition guard_new :: "'a list \<Rightarrow> 'a list \<times> nat" where
  "guard_new buf = (buf, length buf)"

definition guard_fork_append :: "'a list \<Rightarrow> 'a list \<Rightarrow> 'a list \<times> nat" where
  "guard_fork_append buf path = (let (buf, len) = guard_new buf in (buf @ path, len))"

definition guard_push :: "'a \<Rightarrow> 'a list \<times> nat \<Rightarrow> 'a list \<times> nat" where
  "guard_push c g = (fst g @ [c], snd g)"

definition guard_drop :: "'a list \<times> nat \<Rightarrow> 'a list" where
  "guard_drop g = take (snd g) (fst g)"

lemma guard_restores:
  "guard_drop (guard_new buf) = buf"
  "guard_drop (guard_fork_append buf path) = buf"
  "snd g \<le> length (fst g) \<Longrightarrow> guard_drop (guard_push c g) = guard_drop g"
  by (simp_all add: guard_drop_def guard_new_def guard_fork_append_def guard_push_def Let_def)

subsection \<open>The upper bound of a prefix\<close>

text \<open>The loop of \<open>prefix_upper_bound\<close> runs over the components from the last to the first.\<close>

fun upper_bound_loop :: "pc list \<Rightarrow> pc list option" where
  "upper_bound_loop [] = None"
| "upper_bound_loop (c # rev_rest) =
     (case checked_next c of
        Some nxt \<Rightarrow> Some (rev rev_rest @ [nxt])
      | None \<Rightarrow> upper_bound_loop rev_rest)"

definition prefix_upper_bound :: "pc list \<Rightarrow> pc list option" where
  "prefix_upper_bound p = upper_bound_loop (rev p)"

lemma checked_next_max: "checked_next c = None \<longleftrightarrow> c = 15"
proof -
  have "unat (as_u8 c + 1) = unat c + 1"
    using u4_less_16 [of c] by (simp add: unat_word_ariths)
  then have "checked_next c = None \<longleftrightarrow> \<not> unat c + 1 < 16"
    by (simp add: checked_next_def word_less_nat_alt)
  also have "\<dots> \<longleftrightarrow> unat c = 15" using u4_less_16 [of c] by arith
  also have "\<dots> \<longleftrightarrow> c = 15" by (simp add: word_unat_eq_iff)
  finally show ?thesis .
qed

lemma checked_next_Some: "checked_next c = Some d \<Longrightarrow> unat d = unat c + 1"
proof -
  assume "checked_next c = Some d"
  then have "as_u8 c + 1 = as_u8 d" by (simp add: checked_next_def)
  moreover have "unat (as_u8 c + 1) = unat c + 1"
    using u4_less_16 [of c] by (simp add: unat_word_ariths)
  ultimately show ?thesis by (metis unat_as_u8)
qed

lemma pc_le_max: "c \<le> (15 :: pc)"
  using u4_less_16 [of c] by (simp add: word_le_nat_alt)

lemma list_less_same_prefix [simp]: "p @ a < p @ b \<longleftrightarrow> a < (b :: 'a::linorder list)"
  by (induction p) auto

lemma list_le_same_prefix [simp]: "p @ a \<le> p @ b \<longleftrightarrow> a \<le> (b :: 'a::linorder list)"
  by (simp only: flip: not_less) simp

lemma between_same_prefix: "p @ a \<le> k \<Longrightarrow> k < p @ b \<Longrightarrow> prefix p (k :: 'a::linorder list)"
proof (induction p arbitrary: k)
  case (Cons x p)
  then show ?case by (cases k) auto
qed simp

lemma prefix_le: "prefix p k \<Longrightarrow> p \<le> (k :: 'a::linorder list)"
  using list_le_same_prefix [of p "[]"] by (auto elim!: prefixE)

text \<open>
  Among the paths that are not below \<open>p\<close>, those below the bound are exactly the ones that start with \<open>p\<close>;
  without a bound all of them do.
\<close>

lemma prefix_upper_bound_exact:
  "prefix p k \<longleftrightarrow> p \<le> k \<and> (case prefix_upper_bound p of None \<Rightarrow> True | Some b \<Rightarrow> k < b)"
proof (induction p rule: rev_induct)
  case Nil
  then show ?case by (simp add: prefix_upper_bound_def)
next
  case (snoc c p)
  show ?case
  proof (cases "checked_next c")
    case None
    then have c: "c = 15" "prefix_upper_bound (p @ [c]) = prefix_upper_bound p"
      by (simp_all add: checked_next_max [symmetric] prefix_upper_bound_def)
    have "prefix (p @ [c]) k \<longleftrightarrow> prefix p k \<and> p @ [c] \<le> k"
    proof
      assume "prefix p k \<and> p @ [c] \<le> k"
      then obtain q where q: "k = p @ q" "[c] \<le> q" by (auto elim!: prefixE)
      then obtain x r where "k = p @ x # r" "15 \<le> x" using c(1) by (cases q) (auto simp: le_less)
      then show "prefix (p @ [c]) k" using c(1) pc_le_max [of x] by auto
    qed (auto intro: prefix_le append_prefixD)
    moreover have "p \<le> k" if "p @ [c] \<le> k" using that prefix_le [of p "p @ [c]"] by (meson order_trans prefixI)
    ultimately show ?thesis using snoc.IH c(2) by auto
  next
    case (Some d)
    then have b: "prefix_upper_bound (p @ [c]) = Some (p @ [d])" by (simp add: prefix_upper_bound_def)
    have cd: "unat d = unat c + 1" by (rule checked_next_Some [OF Some])
    have "prefix (p @ [c]) k \<longleftrightarrow> p @ [c] \<le> k \<and> k < p @ [d]"
    proof
      assume "prefix (p @ [c]) k"
      then obtain r where "k = p @ c # r" by (auto elim!: prefixE)
      then show "p @ [c] \<le> k \<and> k < p @ [d]" using cd by (simp add: word_less_nat_alt)
    next
      assume k: "p @ [c] \<le> k \<and> k < p @ [d]"
      then obtain r where r: "k = p @ r" using between_same_prefix by (meson prefixE)
      then have "[c] \<le> r" "r < [d]" using k by simp_all
      then obtain x r' where "r = x # r'" "c \<le> x" "x < d" by (cases r) auto
      then show "prefix (p @ [c]) k" using r cd by (auto simp: word_le_nat_alt word_less_nat_alt word_unat_eq_iff)
    qed
    then show ?thesis using b by simp
  qed
qed

end
