(* ===== verification/Proof_Types.thy ===== *)
theory Proof_Types
  imports Trie_Iter Path_Views
begin

section \<open>Proofs for single keys\<close>

text \<open>
  \<open>firewood/src/proofs/types.rs\<close>: the nodes of a proof, their verification against a root hash, and the
  errors of the proof code; \<open>Merkle::prove\<close> of \<open>firewood/src/merkle/mod.rs\<close>, which makes a proof from the
  nodes on the path to a key. A proof is the list of its nodes. The dense children array of a proof node is
  the function from path components it is built from. The text of an error message is not modelled.
\<close>

subsection \<open>Errors\<close>

datatype proof_edge = EdgeLeft | EdgeRight

datatype proof_type = SingleProof | RangeProof | ChangeProof

definition proof_type_byte :: "proof_type \<Rightarrow> u8" where
  "proof_type_byte t = (case t of SingleProof \<Rightarrow> 0 | RangeProof \<Rightarrow> 1 | ChangeProof \<Rightarrow> 2)"

definition proof_type_new :: "u8 \<Rightarrow> proof_type option" where
  "proof_type_new v =
     (if v = 0 then Some SingleProof else if v = 1 then Some RangeProof
      else if v = 2 then Some ChangeProof else None)"

lemma proof_type_new_byte [simp]: "proof_type_new (proof_type_byte t) = Some t"
  by (cases t) (simp_all add: proof_type_new_def proof_type_byte_def)

datatype invalid_header =
    InvalidMagic "u8 list"
  | UnsupportedVersion u8
  | UnsupportedHashMode u8
  | UnsupportedBranchFactor u8
  | InvalidProofType u8 "proof_type option"

datatype read_error =
    IncompleteItem string nat nat nat
  | InvalidItem string nat string
  | InvalidHeaderError invalid_header
  | ReadPanic

text \<open>
  The variants of \<open>ProofError\<close> in three groups: those of single proofs and of reading, those of the
  boundaries of a range, and those of change proofs and of the proven range itself.
\<close>

datatype range_error =
    NonMonotonicIncreaseRange
  | EmptyRange
  | Unverified
  | RangeProofStartBeyondFirstKey
  | RangeProofEndBeforeLastKey
  | NoEndProof
  | UnexpectedStartProof
  | ConflictingProofNodes
  | StartAfterEnd
  | ProofNodeHasUnincludedValue
  | KeyOutsideRange
  | ProofNodeUnreachable
  | MissingBoundaryProof
  | MissingEndProof
  | UnexpectedEndProof

datatype change_error =
    ProofIsLargerThanMaxLength
  | ChangeProofKeysNotSorted
  | StartKeyLargerThanFirstKey
  | EndKeyLessThanLastKey
  | ProofIsNone
  | ProposalIsNone
  | EndRootMismatch
  | EndProofOperationMismatch
  | StartProofOperationMismatch
  | DeleteRangeFoundInChangeProof
  | ProofNodeValueMismatch
  | BoundaryProofsDivergeAtRoot
  | InRangeChildMismatch
  | InvalidAccountValueFormat rlp_error
  | InvalidAccountCodeHashLength nat

datatype proof_error =
    UnexpectedHash hash_type hash_type
  | EdgeProofHashMismatch proof_edge hash_type hash_type
  | UnexpectedValue
  | UnexpectedValueDigest
  | ValueMismatch
  | ExpectedValue
  | EmptyProof
  | ShouldBePrefixOfProvenKey
  | ShouldBePrefixOfNextKey
  | ChildIndexOutOfBounds
  | ValueAtOddNibbleLength
  | NodeNotInTrie
  | ExclusionProofMissingChild
  | HashModeMismatch node_hash_algorithm node_hash_algorithm
  | ProofIO io_error
  | Deserialization read_error
  | BodyTooLarge nat nat
  | Compression io_error
  | RangeError range_error
  | ChangeError change_error

type_synonym 'a proof_result = "proof_error + 'a"

definition lift_panic :: "'a io_result \<Rightarrow> 'a proof_result" where
  "lift_panic r = (case r of Inl e \<Rightarrow> Inl (ProofIO e) | Inr x \<Rightarrow> Inr x)"

lemma lift_panic_simps [simp]: "lift_panic (Inr x) = Inr x" "lift_panic (Inl e) = Inl (ProofIO e)"
  by (simp_all add: lift_panic_def)

subsection \<open>Proof nodes\<close>

record proof_node =
  pn_key :: "pc list"
  pn_partial_len :: nat
  pn_value_digest :: "value_digest option"
  pn_child_hashes :: "hash_type option children"

text \<open>
  The parts that are hashed. The split of the key at \<open>partial_len\<close> panics past its end; only the Ethereum
  scheme asks for it.
\<close>

definition pn_shunt :: "proof_node \<Rightarrow> hashable_shunt io_result" where
  "pn_shunt n =
     rbind (path_split_at (pn_key n) (pn_partial_len n)) (\<lambda>(pfx, ppath).
     Inr (shunt_new pfx ppath (pn_value_digest n) (pn_child_hashes n)))"

fun pn_to_hash :: "hash_fns \<Rightarrow> node_hash_algorithm \<Rightarrow> proof_node \<Rightarrow> hash_type io_result" where
  "pn_to_hash hf MerkleDB n =
     Inr (merkledb_to_hash hf (shunt_new [] (pn_key n) (pn_value_digest n) (pn_child_hashes n)))"
| "pn_to_hash hf Ethereum n = rbind (pn_shunt n) (\<lambda>shunt. Inr (eth_to_hash hf shunt))"

definition compute_node_hash_as_storage_trie_root ::
  "hash_fns \<Rightarrow> node_hash_algorithm \<Rightarrow> proof_node \<Rightarrow> hash_type option io_result" where
  "compute_node_hash_as_storage_trie_root hf alg n =
     rbind (path_split_at (pn_key n) (pn_partial_len n)) (\<lambda>(pfx, ppath).
     rbind (path_split_last pfx) (\<lambda>split.
       case split of
         None \<Rightarrow> Inr None
       | Some (branch_nibble, account_prefix) \<Rightarrow>
           Inr (Some (hash_node_as_storage_trie_root_parts hf alg account_prefix branch_nibble ppath
             (pn_value_digest n) (pn_child_hashes n)))))"

definition fix_account_storage_root ::
  "hash_fns \<Rightarrow> value_digest option \<Rightarrow> pc list \<Rightarrow> hash_type option children \<Rightarrow> value_digest option" where
  "fix_account_storage_root hf vd key_nibbles child_hashes =
     (if length key_nibbles \<noteq> 64 then vd
      else case vd of
             Some (VdValue v) \<Rightarrow>
               (case fix_account_storage_root_value hf v child_hashes of
                  Some fixed \<Rightarrow> Some (VdValue fixed)
                | None \<Rightarrow> Some (VdValue v))
           | _ \<Rightarrow> vd)"

definition from_path_item :: "hash_fns \<Rightarrow> path_iter_item \<Rightarrow> node_hash_algorithm \<Rightarrow> proof_node" where
  "from_path_item hf item algorithm =
     (let child_hashes = (case pi_node item of Branch _ _ cs \<Rightarrow> children_hashes cs | Leaf _ _ \<Rightarrow> children_new);
          partial_len = length (pi_key_nibbles item) - length (partial_path (pi_node item));
          vd = map_option VdValue (node_value (pi_node item));
          vd = (if is_ethereum algorithm \<and> pi_must_recompute item
                then fix_account_storage_root hf vd (pi_key_nibbles item) child_hashes else vd)
      in \<lparr>pn_key = pi_key_nibbles item, pn_partial_len = partial_len, pn_value_digest = vd,
          pn_child_hashes = child_hashes\<rparr>)"

subsection \<open>Verification\<close>

definition ACCOUNT_DEPTH_NIBBLES :: nat where
  "ACCOUNT_DEPTH_NIBBLES = 64"

definition next_nibble :: "pc list \<Rightarrow> pc list \<Rightarrow> pc option io_result" where
  "next_nibble b c =
     rbind (pcp_new b c) (\<lambda>pre.
       case split_first_parts pre of
         (None, Some (c, _), _) \<Rightarrow> Inr (Some c)
       | _ \<Rightarrow> Inr None)"

definition node_computed_hash ::
  "hash_fns \<Rightarrow> node_hash_algorithm \<Rightarrow> bool \<Rightarrow> proof_node \<Rightarrow> hash_type option io_result" where
  "node_computed_hash hf alg hash_as_storage_root node =
     (if is_ethereum alg \<and> hash_as_storage_root
      then compute_node_hash_as_storage_trie_root hf alg node
      else rbind (pn_to_hash hf alg node) (\<lambda>h. Inr (Some h)))"

text \<open>The checks of one node before its successor is looked at.\<close>

definition check_proof_node ::
  "hash_fns \<Rightarrow> node_hash_algorithm \<Rightarrow> bool \<Rightarrow> hash_type \<Rightarrow> proof_node \<Rightarrow> unit proof_result" where
  "check_proof_node hf alg hash_as_storage_root expected_hash node =
     rbind (lift_panic (node_computed_hash hf alg hash_as_storage_root node)) (\<lambda>computed.
       case computed of
         None \<Rightarrow>
           rbind (lift_panic (pn_to_hash hf alg node)) (\<lambda>actual. Inl (UnexpectedHash expected_hash actual))
       | Some actual_hash \<Rightarrow>
           if \<not> HashType_eq (hf_keccak256 hf) actual_hash expected_hash
           then Inl (UnexpectedHash expected_hash actual_hash)
           else if odd (length (pn_key node)) \<and> pn_value_digest node \<noteq> None
           then Inl ValueAtOddNibbleLength
           else if is_ethereum alg \<and> (case pn_value_digest node of Some (VdHash _) \<Rightarrow> True | _ \<Rightarrow> False)
           then Inl UnexpectedValueDigest
           else Inr ())"

fun proof_walk ::
  "hash_fns \<Rightarrow> node_hash_algorithm \<Rightarrow> pc list \<Rightarrow> proof_node list \<Rightarrow> hash_type \<Rightarrow> bool \<Rightarrow> unit proof_result" where
  "proof_walk hf alg key [] expected_hash hash_as_storage_root = Inr ()"
| "proof_walk hf alg key [node] expected_hash hash_as_storage_root =
     check_proof_node hf alg hash_as_storage_root expected_hash node"
| "proof_walk hf alg key (node # next_node # rest) expected_hash hash_as_storage_root =
     rbind (check_proof_node hf alg hash_as_storage_root expected_hash node) (\<lambda>_.
     rbind (lift_panic (next_nibble (pn_key node) key)) (\<lambda>key_nibble.
       case key_nibble of
         None \<Rightarrow> Inl ShouldBePrefixOfProvenKey
       | Some key_nibble \<Rightarrow>
           rbind (lift_panic (next_nibble (pn_key node) (pn_key next_node))) (\<lambda>next_key_nibble.
           if next_key_nibble \<noteq> Some key_nibble then Inl ShouldBePrefixOfNextKey
           else rbind (ok_or NodeNotInTrie (pn_child_hashes node key_nibble)) (\<lambda>child_hash.
                proof_walk hf alg key (next_node # rest) child_hash
                  (length (pn_key node) = ACCOUNT_DEPTH_NIBBLES \<and> children_count (pn_child_hashes node) = 1)))))"

definition proof_value_digest ::
  "hash_fns \<Rightarrow> node_hash_algorithm \<Rightarrow> proof_node list \<Rightarrow> u8 list \<Rightarrow> trie_hash \<Rightarrow> value_digest option proof_result" where
  "proof_value_digest hf alg nodes key root_hash =
     rbind (lift_panic (as_components (path_from_nibbles_iterator (nibbles key)))) (\<lambda>key.
       if nodes = [] then Inl EmptyProof
       else
         rbind (proof_walk hf alg key nodes (Hash root_hash) False) (\<lambda>_.
         let last_node = last nodes
         in if pn_key last_node = key then Inr (pn_value_digest last_node)
            else rbind (lift_panic (next_nibble (pn_key last_node) key)) (\<lambda>next_idx.
                 case next_idx of
                   Some idx \<Rightarrow>
                     if pn_child_hashes last_node idx \<noteq> None then Inl ExclusionProofMissingChild else Inr None
                 | None \<Rightarrow> Inr None)))"

fun verify_opt_value_digest ::
  "hash_fns \<Rightarrow> val option \<Rightarrow> value_digest option \<Rightarrow> unit proof_result" where
  "verify_opt_value_digest hf None None = Inr ()"
| "verify_opt_value_digest hf (Some _) None = Inl ExpectedValue"
| "verify_opt_value_digest hf None (Some _) = Inl UnexpectedValue"
| "verify_opt_value_digest hf (Some expected) (Some found) =
     (if vd_verify hf found expected then Inr () else Inl ValueMismatch)"

definition proof_verify ::
  "hash_fns \<Rightarrow> node_hash_algorithm \<Rightarrow> proof_node list \<Rightarrow> u8 list \<Rightarrow> val option \<Rightarrow> trie_hash \<Rightarrow> unit proof_result" where
  "proof_verify hf alg nodes key expected_value root_hash =
     rbind (proof_value_digest hf alg nodes key root_hash) (verify_opt_value_digest hf expected_value)"

subsection \<open>Generation\<close>

text \<open>Collecting the items of a path iterator into a \<open>Result\<close> stops at the first error.\<close>

fun path_state_size :: "path_iterator_state \<Rightarrow> nat" where
  "path_state_size PathExhausted = 0"
| "path_state_size (PathIterating matched unmatched node) = Suc (length unmatched)"

lemma path_iter_next_shrinks:
  assumes "path_iter_next tr st = (Some (Inr item), st')"
  shows "path_state_size st' < path_state_size st"
proof (cases st)
  case (PathIterating matched unmatched node)
  obtain comp rest where c: "compare_partial_path (partial_path node) unmatched = (comp, rest)" by fastforce
  then have "length rest \<le> length unmatched" using compare_partial_path_length [of "partial_path node" unmatched] by simp
  then show ?thesis
    using assms PathIterating c
    by (auto simp: Let_def split: sum.splits node.splits if_splits list.splits option.splits)
qed (use assms in simp)

function path_collect :: "trie_reader \<Rightarrow> path_iterator_state \<Rightarrow> path_iter_item list io_result" where
  "path_collect tr st =
     (case path_iter_next tr st of
        (None, _) \<Rightarrow> Inr []
      | (Some (Inl e), _) \<Rightarrow> Inl e
      | (Some (Inr item), st') \<Rightarrow> rbind (path_collect tr st') (\<lambda>items. Inr (item # items)))"
  by pat_completeness auto

termination
  by (relation "measure (\<lambda>(tr, st). path_state_size st)") (auto dest: sym intro: path_iter_next_shrinks)

declare path_collect.simps [simp del]

definition prove :: "hash_fns \<Rightarrow> trie_reader \<Rightarrow> u8 list \<Rightarrow> proof_node list proof_result" where
  "prove hf tr key =
     (case tr_root tr of
        None \<Rightarrow> Inl EmptyProof
      | Some _ \<Rightarrow>
          rbind (lift_panic (path_collect tr (path_iterator_new tr key))) (\<lambda>items.
          Inr (map (\<lambda>item. from_path_item hf item (tr_algorithm tr)) items)))"

end
