(* ===== verification/Proof_Laws.thy ===== *)
theory Proof_Laws
  imports Proof_Types Hash_Binding Iter_Laws
begin

section \<open>What an accepted proof shows\<close>

text \<open>
  Under the MerkleDB scheme a proof that is accepted against the root hash of a trie shows what the trie
  holds for the key, or two of the strings that were hashed collide. The proof may come from anywhere:
  only the shapes that reading a proof guarantees are assumed of it.
\<close>

subsection \<open>The helper operations\<close>

lemma next_nibble_eq: "next_nibble b k = Inr (if \<exists>c r. k = b @ c # r then Some (k ! length b) else None)"
proof -
  obtain p where p: "pcp_new b k = Inr p" "b = pcp_common p @ pcp_a_suffix p" "k = pcp_common p @ pcp_b_suffix p"
      "pcp_a_suffix p = [] \<or> pcp_b_suffix p = [] \<or> hd (pcp_a_suffix p) \<noteq> hd (pcp_b_suffix p)"
    using pcp_new_ok [of b k] by blast
  show ?thesis
  proof (cases "pcp_a_suffix p")
    case Nil
    then show ?thesis using p by (cases "pcp_b_suffix p") (auto simp: next_nibble_def split_first_parts_def nth_append)
  next
    case (Cons x xs)
    then have "\<not> (\<exists>c r. k = b @ c # r)" using p(2-4) by (auto simp: append_eq_append_conv2)
    then show ?thesis using p(1) Cons by (simp add: next_nibble_def split_first_parts_def)
  qed
qed

lemma next_nibble_Some: "next_nibble b k = Inr (Some c) \<longleftrightarrow> (\<exists>r. k = b @ c # r)"
  by (auto simp: next_nibble_eq)

lemma next_nibble_None: "next_nibble b k = Inr None \<longleftrightarrow> (\<forall>c r. k \<noteq> b @ c # r)"
  by (auto simp: next_nibble_eq)

lemma next_nibble_not_Inl [simp]: "next_nibble b k \<noteq> Inl e"
  by (simp add: next_nibble_eq)

lemma comps_prefix:
  assumes "comps k = comps p @ r" "valid_path k" "valid_path p"
  obtains k' where "k = p @ k'" "comps k' = r"
proof -
  obtain a b where ab: "k = a @ b" "comps a = comps p" "comps b = r"
    using assms(1) unfolding comps_def map_eq_append_conv by metis
  then have "a = p" using assms by (intro comps_inject) simp_all
  then show thesis using ab that by simp
qed

fun tchild :: "trie \<Rightarrow> pc \<Rightarrow> trie option" where
  "tchild (TLeaf p v) c = None"
| "tchild (TBranch p v ts) c = ts c"

lemma trie_shunt_child:
  "sh_child_hashes (trie_shunt hf t pfx) c =
     map_option (\<lambda>u. merkledb_trie_hash hf u (pfx @ tpath t @ [as_u8 c])) (tchild t c)"
  by (cases t) (simp_all add: shunt_new_def children_new_def)

lemma lookup_t_child:
  "lookup_t t (tpath t @ as_u8 c # r) = Option.bind (tchild t c) (\<lambda>u. lookup_t u r)"
  unfolding lookup_t_append by (cases t) (auto simp: lookup_t_def split: option.splits)

lemma lookup_t_here: "lookup_t t (tpath t) = tvalue t"
  using lookup_t_append [of t "[]"] by (cases t) simp_all

lemma tchild_laws:
  assumes "tchild t c = Some u" "canon t" "valid_t t" "short_keys pfx t"
  shows "canon u \<and> valid_t u \<and> short_keys (pfx @ tpath t @ [as_u8 c]) u"
  using assms short_keys_child [of pfx] by (cases t) auto

lemma hash_inputs_tchild: "tchild t c = Some u \<Longrightarrow> hash_inputs hf u (pfx @ tpath t @ [as_u8 c]) \<subseteq> hash_inputs hf t pfx"
  by (cases t) (simp_all add: hash_inputs_child del: hash_inputs.simps)

subsection \<open>One node\<close>

definition node_preimage :: "hash_fns \<Rightarrow> proof_node \<Rightarrow> u8 list" where
  "node_preimage hf n = merkledb_write_preimage hf (shunt_new [] (pn_key n) (pn_value_digest n) (pn_child_hashes n))"

definition digest_inputs :: "value_digest option \<Rightarrow> u8 list set" where
  "digest_inputs vd = (case vd of Some (VdValue v) \<Rightarrow> {v} | _ \<Rightarrow> {})"

definition proof_inputs :: "hash_fns \<Rightarrow> proof_node list \<Rightarrow> u8 list set" where
  "proof_inputs hf ns = (\<Union>n \<in> set ns. insert (node_preimage hf n) (digest_inputs (pn_value_digest n)))"

text \<open>What reading a proof of a MerkleDB trie guarantees of each node.\<close>

definition node_fits :: "proof_node \<Rightarrow> bool" where
  "node_fits n \<longleftrightarrow> hashed_children (pn_child_hashes n) \<and> value_ok (pn_value_digest n) \<and> length (pn_key n) < 2 ^ 62"

definition digest_of :: "hash_fns \<Rightarrow> value_digest option \<Rightarrow> val option \<Rightarrow> bool" where
  "digest_of hf d v \<longleftrightarrow>
     map_option (make_hash hf MerkleDB) d = map_option (make_hash hf MerkleDB) (map_option VdValue v)"

lemma digest_of_None [simp]: "digest_of hf None v \<longleftrightarrow> v = None" "digest_of hf d None \<longleftrightarrow> d = None"
  by (auto simp: digest_of_def)

definition node_of :: "hash_fns \<Rightarrow> trie \<Rightarrow> path \<Rightarrow> proof_node \<Rightarrow> bool" where
  "node_of hf t pfx n \<longleftrightarrow> pn_key n = comps pfx @ comps (tpath t) \<and>
     pn_child_hashes n = sh_child_hashes (trie_shunt hf t pfx) \<and>
     digest_of hf (pn_value_digest n) (tvalue t)"

lemma check_proof_node_hash:
  assumes "check_proof_node hf MerkleDB s (Hash h) n = Inr ()"
  shows "hf_sha256 hf (node_preimage hf n) = h"
  using assms by (simp add: check_proof_node_def node_computed_hash_def merkledb_to_hash_def node_preimage_def split: if_splits)

lemma check_proof_node_of:
  assumes hf: "varint (hf_encode_var hf) rdv" "digests_ok hf"
    and t: "canon t" "valid_t t" "short_keys pfx t" and n: "node_fits n"
    and ok: "check_proof_node hf MerkleDB s (merkledb_trie_hash hf t pfx) n = Inr ()"
  shows "node_of hf t pfx n \<or> collide hf (proof_inputs hf [n]) (hash_inputs hf t pfx)"
proof (cases "node_preimage hf n = merkledb_write_preimage hf (trie_shunt hf t pfx)")
  case True
  let ?s = "shunt_new [] (pn_key n) (pn_value_digest n) (pn_child_hashes n)"
  have "sh_child_hashes ?s = sh_child_hashes (trie_shunt hf t pfx) \<and> sh_full_path ?s = sh_full_path (trie_shunt hf t pfx) \<and>
    map_option (make_hash hf MerkleDB) (sh_value ?s) = map_option (make_hash hf MerkleDB) (sh_value (trie_shunt hf t pfx))"
    by (rule merkledb_preimage_inject [OF hf _ _ _ trie_shunt_hashed [OF hf(2)] _ _ True [unfolded node_preimage_def]])
      (use n short_keys_path [OF t(1,3)] in \<open>auto simp: node_fits_def shunt_new_def sh_full_path_def trie_shunt_sel [unfolded sh_full_path_def] value_ok_def\<close>)
  then show ?thesis by (simp add: node_of_def shunt_new_def sh_full_path_def trie_shunt_sel [unfolded sh_full_path_def] digest_of_def)
next
  case False
  have "hf_sha256 hf (node_preimage hf n) = hf_sha256 hf (merkledb_write_preimage hf (trie_shunt hf t pfx))"
    using check_proof_node_hash ok unfolding trie_hash_shunt by blast
  then show ?thesis using collideI [OF _ trie_shunt_inputs(1) False] by (simp add: proof_inputs_def)
qed

subsection \<open>The walk\<close>

definition last_digest :: "pc list \<Rightarrow> proof_node \<Rightarrow> value_digest option proof_result" where
  "last_digest key n =
     (if pn_key n = key then Inr (pn_value_digest n)
      else rbind (lift_panic (next_nibble (pn_key n) key)) (\<lambda>next_idx.
           case next_idx of
             Some idx \<Rightarrow> if pn_child_hashes n idx \<noteq> None then Inl ExclusionProofMissingChild else Inr None
           | None \<Rightarrow> Inr None))"

lemma lookup_t_no_child:
  assumes "\<And>c r. k = tpath t @ as_u8 c # r \<Longrightarrow> tchild t c = None" "valid_path k"
  shows "lookup_t t k = (if k = tpath t then tvalue t else None)"
proof (cases "prefix (tpath t) k")
  case True
  then obtain r where k: "k = tpath t @ r" by (auto simp: prefix_def)
  show ?thesis
  proof (cases r)
    case Nil
    then show ?thesis using k lookup_t_here by simp
  next
    case (Cons b r')
    then obtain c where b: "b = as_u8 c" using assms(2) k less_16_cases by (metis valid_path_Cons valid_path_append)
    then show ?thesis using assms(1) [of c r'] k Cons by (simp add: lookup_t_child)
  qed
next
  case False
  then show ?thesis by (cases "lookup_t t k") (use lookup_t_prefix [of t k] in auto)
qed

lemma last_digest_node:
  assumes n: "pn_key n = comps pfx @ comps (tpath t)" "\<And>c. pn_child_hashes n c = None \<longleftrightarrow> tchild t c = None"
    and v: "valid_path k" "valid_t t"
  shows "last_digest (comps (pfx @ k)) n =
    (if k = tpath t then Inr (pn_value_digest n)
     else if \<exists>c r. k = tpath t @ as_u8 c # r \<and> tchild t c \<noteq> None then Inl ExclusionProofMissingChild else Inr None)"
proof -
  have eq: "comps k = comps (tpath t) \<longleftrightarrow> k = tpath t" using comps_inject [OF v(1) valid_t_tpath [OF v(2)]] by auto
  show ?thesis
  proof (cases "\<exists>c r. k = tpath t @ as_u8 c # r")
    case True
    then obtain c r where k: "k = tpath t @ as_u8 c # r" by blast
    then have "next_nibble (pn_key n) (comps (pfx @ k)) = Inr (Some c)"
      by (simp add: next_nibble_Some n(1) comps_def)
    then show ?thesis using k n eq by (auto simp: last_digest_def)
  next
    case False
    have "\<nexists>c r. comps k = comps (tpath t) @ c # r"
    proof
      assume "\<exists>c r. comps k = comps (tpath t) @ c # r"
      then obtain c r where r: "comps k = comps (tpath t) @ c # r" by blast
      obtain l where l: "k = tpath t @ l" "comps l = c # r" by (rule comps_prefix [OF r v(1) valid_t_tpath [OF v(2)]])
      then obtain b l' where "l = b # l'" "b < 16" using v(1) by (cases l) auto
      then show False using False l(1) less_16_cases by metis
    qed
    then have "next_nibble (pn_key n) (comps (pfx @ k)) = Inr None" by (simp add: next_nibble_None n(1))
    then show ?thesis using False eq n(1) by (auto simp: last_digest_def)
  qed
qed

lemma last_digest_of:
  assumes n: "node_of hf t pfx n" and v: "valid_path k" "valid_t t"
    and ok: "last_digest (comps (pfx @ k)) n = Inr d"
  shows "digest_of hf d (lookup_t t k)"
proof -
  have c: "pn_child_hashes n c = None \<longleftrightarrow> tchild t c = None" for c using n by (simp add: node_of_def trie_shunt_child)
  have key: "pn_key n = comps pfx @ comps (tpath t)" using n by (simp add: node_of_def)
  define deeper where "deeper \<longleftrightarrow> (\<exists>c r. k = tpath t @ as_u8 c # r \<and> tchild t c \<noteq> None)"
  have L: "(if k = tpath t then Inr (pn_value_digest n) else if deeper then Inl ExclusionProofMissingChild else Inr None) = Inr d"
    using ok unfolding last_digest_node [OF key c v] deeper_def .
  have "\<not> (k = tpath t \<and> deeper)" unfolding deeper_def by (metis append_self_conv list.distinct(1))
  then have nd: "\<not> deeper" and d: "d = (if k = tpath t then pn_value_digest n else None)" using L by (auto split: if_splits)
  have "lookup_t t k = (if k = tpath t then tvalue t else None)" by (rule lookup_t_no_child [OF _ v(1)]) (use nd deeper_def in blast)
  then show ?thesis using n d by (simp add: node_of_def)
qed

lemma proof_walk_step:
  "proof_walk hf alg key (n # m # ns) h s = Inr () \<longleftrightarrow>
     check_proof_node hf alg s h n = Inr () \<and>
     (\<exists>c h'. next_nibble (pn_key n) key = Inr (Some c) \<and> next_nibble (pn_key n) (pn_key m) = Inr (Some c) \<and>
        pn_child_hashes n c = Some h' \<and>
        proof_walk hf alg key (m # ns) h'
          (length (pn_key n) = ACCOUNT_DEPTH_NIBBLES \<and> children_count (pn_child_hashes n) = 1) = Inr ())"
proof -
  obtain a where a: "next_nibble (pn_key n) key = Inr a" using next_nibble_eq by blast
  obtain b where b: "next_nibble (pn_key n) (pn_key m) = Inr b" using next_nibble_eq by blast
  show ?thesis
    unfolding proof_walk.simps a b
    by (cases a; cases b; cases "pn_child_hashes n (the a)") (auto simp: rbind_eq_Inr ok_or_def)
qed

lemmas proof_walk_simps = proof_walk.simps(1,2) proof_walk_step

lemma proof_walk_sound:
  assumes hf: "varint (hf_encode_var hf) rdv" "digests_ok hf"
  shows "canon t \<Longrightarrow> valid_t t \<Longrightarrow> short_keys pfx t \<Longrightarrow> valid_path pfx \<Longrightarrow> valid_path k \<Longrightarrow>
    list_all node_fits ns \<Longrightarrow> ns \<noteq> [] \<Longrightarrow>
    proof_walk hf MerkleDB (comps (pfx @ k)) ns (merkledb_trie_hash hf t pfx) s = Inr () \<Longrightarrow>
    last_digest (comps (pfx @ k)) (last ns) = Inr d \<Longrightarrow>
    digest_of hf d (lookup_t t k) \<or>
    collide hf (proof_inputs hf ns) (hash_inputs hf t pfx)"
proof (induction ns arbitrary: t pfx k s rule: induct_list012)
  case (2 n)
  from 2 have "node_of hf t pfx n \<or> collide hf (proof_inputs hf [n]) (hash_inputs hf t pfx)"
    by (intro check_proof_node_of [OF hf]) simp_all
  then show ?case using last_digest_of [OF _ 2(5,2)] 2(9) by (simp only: last.simps if_True simp_thms) blast
next
  case (3 n m ns)
  let ?rest = "m # ns"
  from 3 have n: "node_of hf t pfx n \<or> collide hf (proof_inputs hf [n]) (hash_inputs hf t pfx)"
    by (intro check_proof_node_of [OF hf]) (auto simp: proof_walk_step simp del: proof_walk.simps)
  show ?case
  proof (cases "node_of hf t pfx n")
    case True
    from 3(10) obtain c h where c: "next_nibble (pn_key n) (comps (pfx @ k)) = Inr (Some c)" "pn_child_hashes n c = Some h"
      and w: "proof_walk hf MerkleDB (comps (pfx @ k)) ?rest h
        (length (pn_key n) = ACCOUNT_DEPTH_NIBBLES \<and> children_count (pn_child_hashes n) = 1) = Inr ()"
      by (auto simp: proof_walk_step simp del: proof_walk.simps)
    from c(1) obtain r where r: "comps k = comps (tpath t) @ c # r"
      using True by (auto simp: next_nibble_Some node_of_def)
    obtain l where l: "k = tpath t @ l" "comps l = c # r" by (rule comps_prefix [OF r 3(7) valid_t_tpath [OF 3(4)]])
    then obtain b k' where b: "l = b # k'" "ucast b = c" by (auto simp: comps_def)
    then have "b < 16" and k': "valid_path k'" using 3(7) l(1) by simp_all
    then have k: "k = tpath t @ as_u8 c # k'" using l(1) b as_u8_ucast [of b] by auto
    from c(2) True obtain u where u: "tchild t c = Some u" "h = merkledb_trie_hash hf u (pfx @ tpath t @ [as_u8 c])"
      by (auto simp: node_of_def trie_shunt_child)
    have eq: "pfx @ k = (pfx @ tpath t @ [as_u8 c]) @ k'" by (simp add: k)
    have "digest_of hf d (lookup_t u k') \<or>
      collide hf (proof_inputs hf ?rest) (hash_inputs hf u (pfx @ tpath t @ [as_u8 c]))"
      by (rule "3.IH"(2) [OF _ _ _ _ k' _ _ w [unfolded u eq]])
        (use 3(3-9,11) tchild_laws [OF u(1), of pfx] k in \<open>auto simp: valid_t_tpath\<close>)
    moreover have "proof_inputs hf ?rest \<subseteq> proof_inputs hf (n # ?rest)" by (auto simp: proof_inputs_def)
    ultimately show ?thesis using collide_mono [OF _ _ hash_inputs_tchild [OF u(1)]] u(1) k
      by (simp only: lookup_t_child bind.bind_lunit) blast
  next
    case False
    then show ?thesis using n collide_mono [of hf "proof_inputs hf [n]" _ "proof_inputs hf (n # ?rest)"] by (auto simp: proof_inputs_def)
  qed
qed simp

subsection \<open>The verdict\<close>

lemma lookup_t_inputs: "lookup_t t k = Some v \<Longrightarrow> v \<in> hash_inputs hf t pfx"
proof (induction t arbitrary: k pfx rule: trie_induct)
  case (TBranch p w ts)
  then obtain r where k: "k = p @ r" using lookup_t_prefix [of "TBranch p w ts" k] by (auto simp: prefix_def)
  show ?case
  proof (cases r)
    case Nil
    then show ?thesis using TBranch.prems k lookup_t_here [of "TBranch p w ts"] by simp
  next
    case (Cons b r')
    have bl: "below (TBranch p w ts) (b # r') = Some v"
      using TBranch.prems lookup_t_append [of "TBranch p w ts" r] k Cons by simp
    then obtain c where b: "b = as_u8 c" by (auto split: bind_splits)
    obtain t where t: "ts c = Some t" "lookup_t t r' = Some v"
      using TBranch.prems lookup_t_child [of "TBranch p w ts" c r'] k Cons b by (auto split: bind_splits)
    show ?thesis using TBranch.IH [OF t] hash_inputs_child [of ts c t hf pfx p w, OF t(1)] by blast
  qed
qed (auto split: if_splits)

lemma verify_opt_digest_of:
  assumes d: "digest_of hf d v" and ok: "verify_opt_value_digest hf expected d = Inr ()"
  shows "expected = v \<or> collide hf (digest_inputs d \<union> set_option expected) (set_option v)"
proof (cases d)
  case None
  then show ?thesis using d ok by (cases expected) simp_all
next
  case (Some x)
  then obtain e w where ew: "expected = Some e" "v = Some w" using d ok by (cases expected; cases v) simp_all
  have "hf_sha256 hf e = hf_sha256 hf w \<or> e = w"
  proof (cases x)
    case (VdValue y)
    then show ?thesis using d ok Some ew by (auto simp: digest_of_def split: if_splits)
  next
    case (VdHash g)
    then show ?thesis using d ok Some ew by (auto simp: digest_of_def split: if_splits)
  qed
  then show ?thesis using ew by (auto simp: collide_def)
qed

lemma proof_value_digest_eq:
  "proof_value_digest hf alg ns key root_hash = Inr d \<longleftrightarrow>
     ns \<noteq> [] \<and> proof_walk hf alg (comps (nibbles key)) ns (Hash root_hash) False = Inr () \<and>
     last_digest (comps (nibbles key)) (last ns) = Inr d"
proof -
  have k: "as_components (path_from_nibbles_iterator (nibbles key)) = Inr (comps (nibbles key))"
    by (simp add: path_from_nibbles_iterator_def as_components_comps)
  show ?thesis
    unfolding proof_value_digest_def k lift_panic_simps rbind_Inr Let_def last_digest_def [symmetric]
    by (auto simp: rbind_eq_Inr)
qed

lemma proof_verify_sound:
  assumes hf: "varint (hf_encode_var hf) rdv" "digests_ok hf"
    and t: "canon t" "valid_t t" "short_keys [] t" and fits: "list_all node_fits ns"
    and root: "merkledb_trie_hash hf t [] = Hash root_hash"
    and ok: "proof_verify hf MerkleDB ns key expected root_hash = Inr ()"
  shows "lookup_t t (nibbles key) = expected \<or> collide hf (proof_inputs hf ns \<union> set_option expected) (hash_inputs hf t [])"
proof -
  from ok obtain d where d: "proof_value_digest hf MerkleDB ns key root_hash = Inr d"
    "verify_opt_value_digest hf expected d = Inr ()" by (auto simp: proof_verify_def rbind_eq_Inr)
  then have w: "ns \<noteq> []" "proof_walk hf MerkleDB (comps ([] @ nibbles key)) ns (merkledb_trie_hash hf t []) False = Inr ()"
    "last_digest (comps ([] @ nibbles key)) (last ns) = Inr d" by (simp_all add: proof_value_digest_eq root)
  consider "digest_of hf d (lookup_t t (nibbles key))" | "collide hf (proof_inputs hf ns) (hash_inputs hf t [])"
    using proof_walk_sound [OF hf t _ _ fits w] by auto
  then show ?thesis
  proof cases
    case 1
    have "d = None \<or> d = pn_value_digest (last ns)" using w(3) by (auto simp: last_digest_def rbind_eq_Inr split: if_splits option.splits)
    then have "digest_inputs d \<subseteq> proof_inputs hf ns" using w(1)
      by (auto simp: proof_inputs_def digest_inputs_def [of None] intro!: bexI [of _ "last ns"])
    then have "digest_inputs d \<union> set_option expected \<subseteq> proof_inputs hf ns \<union> set_option expected" by blast
    moreover have "set_option (lookup_t t (nibbles key)) \<subseteq> hash_inputs hf t []" using lookup_t_inputs by auto
    ultimately show ?thesis using verify_opt_digest_of [OF 1 d(2)] collide_mono by blast
  next
    case 2
    then show ?thesis using collide_mono [OF _ Un_upper1 order_refl] by blast
  qed
qed

end
