(* ===== verification/Proof_Gen.thy ===== *)
theory Proof_Gen
  imports Proof_Laws
begin

section \<open>Proofs made from a trie are accepted\<close>

text \<open>
  In a trie whose nodes all hold the hashes of their children, as every committed revision does, the proof
  that \<open>Merkle::prove\<close> makes for a key is accepted by \<open>Proof::verify\<close> for exactly what the trie holds there.
\<close>

subsection \<open>Committed tries\<close>

inductive committed :: "hash_fns \<Rightarrow> reader \<Rightarrow> path \<Rightarrow> node \<Rightarrow> trie \<Rightarrow> bool" for hf rd where
  committed_Leaf: "committed hf rd pfx (Leaf p v) (TLeaf p v)"
| committed_Branch:
    "(\<And>c. cs c = None \<Longrightarrow> ts c = None) \<Longrightarrow>
     (\<And>c ch. cs c = Some ch \<Longrightarrow> \<exists>m t. child_as_shared_node ch rd = Inr m \<and>
        committed hf rd (pfx @ p @ [as_u8 c]) m t \<and> ts c = Some t \<and>
        child_hash ch = Some (merkledb_trie_hash hf t (pfx @ p @ [as_u8 c]))) \<Longrightarrow>
     committed hf rd pfx (Branch p v cs) (TBranch p v ts)"

lemma committed_node:
  "committed hf rd pfx n t \<Longrightarrow> partial_path n = tpath t \<and> node_value n = tvalue t \<and>
     (case n of Branch _ _ cs \<Rightarrow> children_hashes cs | Leaf _ _ \<Rightarrow> children_new) = sh_child_hashes (trie_shunt hf t pfx)"
proof (induction rule: committed.induct)
  case (committed_Branch cs ts pfx p v)
  have "children_hashes cs c = map_option (\<lambda>t. merkledb_trie_hash hf t (pfx @ p @ [as_u8 c])) (ts c)" for c
    using committed_Branch(1) [of c] committed_Branch(2) [of c]
    by (cases "cs c") (force simp: children_hashes_def children_map_def)+
  then show ?case by (auto simp: shunt_new_def)
qed (simp add: shunt_new_def)

text \<open>The proof node of the root of a trie.\<close>

definition trie_proof_node :: "hash_fns \<Rightarrow> trie \<Rightarrow> path \<Rightarrow> proof_node" where
  "trie_proof_node hf t pfx =
     \<lparr>pn_key = comps (pfx @ tpath t), pn_partial_len = length pfx,
      pn_value_digest = map_option VdValue (tvalue t), pn_child_hashes = sh_child_hashes (trie_shunt hf t pfx)\<rparr>"

lemma trie_proof_node_sel [simp]:
  "pn_key (trie_proof_node hf t pfx) = comps pfx @ comps (tpath t)"
  "pn_value_digest (trie_proof_node hf t pfx) = map_option VdValue (tvalue t)"
  "pn_child_hashes (trie_proof_node hf t pfx) = sh_child_hashes (trie_shunt hf t pfx)"
  by (simp_all add: trie_proof_node_def)

lemma from_path_item_node:
  assumes "committed hf rd pfx n t" "pi_node item = n" "pi_key_nibbles item = comps (pfx @ tpath t)"
  shows "from_path_item hf item MerkleDB = trie_proof_node hf t pfx"
  using committed_node [OF assms(1)] assms(2,3)
  by (simp add: from_path_item_def trie_proof_node_def Let_def)

definition even_keys :: "path \<Rightarrow> trie \<Rightarrow> bool" where
  "even_keys pfx t \<longleftrightarrow> (\<forall>k. lookup_t t k \<noteq> None \<longrightarrow> even (length pfx + length k))"

lemma even_keys_tchild: "even_keys pfx t \<Longrightarrow> tchild t c = Some u \<Longrightarrow> even_keys (pfx @ tpath t @ [as_u8 c]) u"
  unfolding even_keys_def
proof (intro allI impI)
  fix k assume a: "\<forall>k. lookup_t t k \<noteq> None \<longrightarrow> even (length pfx + length k)" "tchild t c = Some u" "lookup_t u k \<noteq> None"
  then have "lookup_t t (tpath t @ as_u8 c # k) \<noteq> None" by (simp add: lookup_t_child)
  then show "even (length (pfx @ tpath t @ [as_u8 c]) + length k)" using a(1) by fastforce
qed

lemma check_trie_proof_node:
  assumes "even_keys pfx t"
  shows "check_proof_node hf MerkleDB s (merkledb_trie_hash hf t pfx) (trie_proof_node hf t pfx) = Inr ()"
proof -
  have "merkledb_write_preimage hf (shunt_new [] (comps pfx @ comps (tpath t)) (map_option VdValue (tvalue t))
      (sh_child_hashes (trie_shunt hf t pfx))) = merkledb_write_preimage hf (trie_shunt hf t pfx)"
    by (simp add: merkledb_write_preimage_def trie_shunt_sel shunt_new_def sh_full_path_def [of "_ :: hashable_shunt"] trie_shunt_sel [unfolded sh_full_path_def])
  moreover have "tvalue t \<noteq> None \<Longrightarrow> even (length pfx + length (tpath t))"
    using assms lookup_t_here [of t] unfolding even_keys_def by metis
  ultimately show ?thesis
    by (auto simp: check_proof_node_def node_computed_hash_def merkledb_to_hash_def trie_hash_shunt)
qed

subsection \<open>The path of a key\<close>

fun path_nodes :: "hash_fns \<Rightarrow> trie \<Rightarrow> path \<Rightarrow> proof_node list \<Rightarrow> path \<Rightarrow> bool" where
  "path_nodes hf t pfx [] k = False"
| "path_nodes hf t pfx (n # ns) k \<longleftrightarrow> n = trie_proof_node hf t pfx \<and>
     (if ns = [] then (\<forall>c r. k = tpath t @ as_u8 c # r \<longrightarrow> tchild t c = None)
      else \<exists>c r u. k = tpath t @ as_u8 c # r \<and> tchild t c = Some u \<and> path_nodes hf u (pfx @ tpath t @ [as_u8 c]) ns r)"

lemma path_nodes_accepted:
  "path_nodes hf t pfx ns k \<Longrightarrow> even_keys pfx t \<Longrightarrow> valid_path k \<Longrightarrow> valid_t t \<Longrightarrow>
     proof_walk hf MerkleDB (comps (pfx @ k)) ns (merkledb_trie_hash hf t pfx) s = Inr () \<and>
     last_digest (comps (pfx @ k)) (last ns) = Inr (map_option VdValue (lookup_t t k))"
proof (induction ns arbitrary: t pfx k s rule: induct_list012)
  case (2 n)
  have c: "sh_child_hashes (trie_shunt hf t pfx) c = None \<longleftrightarrow> tchild t c = None" for c by (simp add: trie_shunt_child)
  have "lookup_t t k = (if k = tpath t then tvalue t else None)"
    by (rule lookup_t_no_child) (use 2 in auto)
  then show ?case using 2 check_trie_proof_node [of pfx t] last_digest_node [of n pfx t k] c by auto
next
  case (3 n m ns)
  from 3(3) obtain c r u where n: "n = trie_proof_node hf t pfx" "k = tpath t @ as_u8 c # r" "tchild t c = Some u"
    and rest: "path_nodes hf u (pfx @ tpath t @ [as_u8 c]) (m # ns) r" by auto
  from rest have m: "pn_key m = comps (pfx @ tpath t @ [as_u8 c]) @ comps (tpath u)" by simp
  have eq: "comps (pfx @ k) = comps ((pfx @ tpath t @ [as_u8 c]) @ r)" using n(2) by (simp add: comps_def)
  have u: "valid_t u" "valid_path r" using n 3(5,6) by (cases t; auto)+
  note IH = "3.IH"(2) [OF rest even_keys_tchild [OF 3(4) n(3)] u(2,1), folded eq]
  have "next_nibble (pn_key n) (comps (pfx @ k)) = Inr (Some c)" "next_nibble (pn_key n) (pn_key m) = Inr (Some c)"
    using n m by (simp_all add: next_nibble_Some comps_def)
  moreover have "pn_child_hashes n c = Some (merkledb_trie_hash hf u (pfx @ tpath t @ [as_u8 c]))"
    using n by (simp add: trie_shunt_child)
  moreover have "lookup_t u r = lookup_t t k" using n by (simp add: lookup_t_child)
  ultimately show ?case using IH n(1) check_trie_proof_node [OF 3(4)] by (simp only: proof_walk_step) simp
qed simp

lemma path_collect_Exhausted [simp]: "path_collect tr PathExhausted = Inr []"
  by (simp add: path_collect.simps)

text \<open>The item for a node, and where the iterator goes from it.\<close>

definition item_at :: "trie_reader \<Rightarrow> path \<Rightarrow> node \<Rightarrow> pc option \<Rightarrow> path_iter_item" where
  "item_at tr path n nxt =
     \<lparr>pi_key_nibbles = comps path, pi_node = n, pi_next_nibble = nxt, pi_must_recompute = tr_must_recompute tr\<rparr>"

lemma item_at_sel [simp]: "pi_node (item_at tr path n nxt) = n" "pi_key_nibbles (item_at tr path n nxt) = comps path"
  by (simp_all add: item_at_def)

lemma path_iter_stop:
  assumes "valid_path (pfx @ partial_path n)" "valid_path k"
    and "\<And>c r p v cs. n = Branch p v cs \<Longrightarrow> k = p @ as_u8 c # r \<Longrightarrow> cs c = None"
  shows "path_iter_next tr (PathIterating pfx k n) = (Some (Inr (item_at tr (pfx @ partial_path n) n None)), PathExhausted)"
proof (cases n)
  case (Branch p v cs)
  obtain comp r where cr: "compare_partial_path p k = (comp, r)" by fastforce
  note spec = compare_partial_path_spec [of p k, unfolded cr prod.case]
  show ?thesis
  proof (cases "comp = Equal \<and> r \<noteq> []")
    case True
    then obtain b r' where r: "r = b # r'" by (cases r) auto
    then have k: "k = p @ b # r'" using spec True by simp
    then obtain c where "b = as_u8 c" using assms(2) less_16_cases [of b] by auto
    then show ?thesis using assms(1) assms(3) [OF Branch] Branch cr r True k
      by (simp add: as_components_comps item_at_def)
  next
    case False
    then show ?thesis using assms(1) Branch cr
      by (cases "comp = Equal") (simp_all add: as_components_comps item_at_def Let_def)
  qed
next
  case (Leaf p v)
  then show ?thesis using assms(1) by (simp add: as_components_comps item_at_def split: prod.split)
qed

lemma compare_partial_path_append [simp]: "compare_partial_path p (p @ r) = (Equal, r)"
  by (induction p) (simp_all add: cmp_def)

lemma path_iter_descend:
  assumes "valid_path (pfx @ p)" "k = p @ as_u8 c # r" "cs c = Some ch" "child_as_shared_node ch (tr_read tr) = Inr m"
  shows "path_iter_next tr (PathIterating pfx k (Branch p v cs)) =
    (Some (Inr (item_at tr (pfx @ p) (Branch p v cs) (Some c))), PathIterating (pfx @ p @ [as_u8 c]) r m)"
  using assms by (simp add: as_components_comps item_at_def)

lemma path_collect_stop:
  assumes n: "committed hf rd pfx n t" and v: "valid_t t" "valid_path pfx" "valid_path k"
    and stop: "\<And>c r. k = tpath t @ as_u8 c # r \<Longrightarrow> tchild t c = None"
  shows "\<exists>items. path_collect tr (PathIterating pfx k n) = Inr items \<and>
    path_nodes hf t pfx (map (\<lambda>item. from_path_item hf item MerkleDB) items) k"
proof -
  let ?item = "item_at tr (pfx @ partial_path n) n None"
  have p: "partial_path n = tpath t" using committed_node [OF n] by blast
  have "path_iter_next tr (PathIterating pfx k n) = (Some (Inr ?item), PathExhausted)"
  proof (rule path_iter_stop)
    show "cs c = None" if "n = Branch p v cs" "k = p @ as_u8 c # r" for c r p v cs
      using n stop that by (cases "cs c") (force elim: committed.cases)+
  qed (use v p valid_t_tpath in auto)
  then have "path_collect tr (PathIterating pfx k n) = Inr [?item]" by (simp add: path_collect.simps [of tr "PathIterating pfx k n"])
  moreover have "from_path_item hf ?item MerkleDB = trie_proof_node hf t pfx" by (rule from_path_item_node [OF n]) (simp_all add: p)
  ultimately show ?thesis using stop by simp
qed

lemma path_collect_nodes:
  assumes rd: "tr_read tr = rd"
  shows "committed hf rd pfx n t \<Longrightarrow> valid_t t \<Longrightarrow> valid_path pfx \<Longrightarrow> valid_path k \<Longrightarrow>
    \<exists>items. path_collect tr (PathIterating pfx k n) = Inr items \<and>
      path_nodes hf t pfx (map (\<lambda>item. from_path_item hf item MerkleDB) items) k"
proof (induction arbitrary: k rule: committed.induct)
  case (committed_Leaf pfx p v)
  then show ?case by (intro path_collect_stop [OF committed.committed_Leaf]) auto
next
  case (committed_Branch cs ts pfx p v)
  have n: "committed hf rd pfx (Branch p v cs) (TBranch p v ts)"
    by (rule committed.committed_Branch) (use committed_Branch(1,2) in blast)+
  show ?case
  proof (cases "\<exists>c r t. k = p @ as_u8 c # r \<and> ts c = Some t")
    case True
    then obtain c r t where k: "k = p @ as_u8 c # r" and t: "ts c = Some t" by blast
    then obtain ch m where c: "cs c = Some ch" "child_as_shared_node ch rd = Inr m"
      and IH: "\<And>k. valid_t t \<Longrightarrow> valid_path (pfx @ p @ [as_u8 c]) \<Longrightarrow> valid_path k \<Longrightarrow>
        \<exists>items. path_collect tr (PathIterating (pfx @ p @ [as_u8 c]) k m) = Inr items \<and>
          path_nodes hf t (pfx @ p @ [as_u8 c]) (map (\<lambda>item. from_path_item hf item MerkleDB) items) k"
      using committed_Branch(1) [of c] committed_Branch(2) [of c] by (cases "cs c") auto
    have v: "valid_t t" "valid_path (pfx @ p @ [as_u8 c])" "valid_path r" "valid_path (pfx @ p)"
      using committed_Branch.prems k t by auto
    obtain items where items: "path_collect tr (PathIterating (pfx @ p @ [as_u8 c]) r m) = Inr items"
      "path_nodes hf t (pfx @ p @ [as_u8 c]) (map (\<lambda>item. from_path_item hf item MerkleDB) items) r"
      using IH [OF v(1,2,3)] by blast
    let ?item = "item_at tr (pfx @ p) (Branch p v cs) (Some c)"
    have "path_collect tr (PathIterating pfx k (Branch p v cs)) = Inr (?item # items)"
      using path_iter_descend [of pfx p k c r cs ch tr m v, OF v(4) k c(1)] c(2) rd items(1)
      by (simp add: path_collect.simps [of tr "PathIterating pfx k (Branch p v cs)"] del: path_iter_next.simps)
    moreover have "from_path_item hf ?item MerkleDB = trie_proof_node hf (TBranch p v ts) pfx"
      by (rule from_path_item_node [OF n]) simp_all
    moreover have "items \<noteq> []" using items(2) by auto
    ultimately show ?thesis using items(2) k t by auto
  next
    case False
    then show ?thesis using committed_Branch.prems by (intro path_collect_stop [OF n]) auto
  qed
qed

lemma prove_accepted:
  assumes "committed hf rd [] n t" "valid_t t" "even_keys [] t"
    and tr: "tr_read tr = rd" "tr_root tr = Some n" "tr_algorithm tr = MerkleDB"
    and root: "merkledb_trie_hash hf t [] = Hash root_hash"
  shows "\<exists>ns. prove hf tr key = Inr ns \<and> proof_value_digest hf MerkleDB ns key root_hash = Inr (map_option VdValue (lookup_t t (nibbles key)))"
proof -
  obtain items where items: "path_collect tr (PathIterating [] (nibbles key) n) = Inr items"
    "path_nodes hf t [] (map (\<lambda>item. from_path_item hf item MerkleDB) items) (nibbles key)"
    using path_collect_nodes [OF tr(1) assms(1,2) valid_path_Nil valid_path_nibbles] by blast
  let ?ns = "map (\<lambda>item. from_path_item hf item MerkleDB) items"
  have "prove hf tr key = Inr ?ns" using items(1) tr by (simp add: prove_def path_iterator_new_def)
  moreover have "?ns \<noteq> []" using items(2) by auto
  ultimately show ?thesis
    using path_nodes_accepted [OF items(2) assms(3) valid_path_nibbles assms(2)] root by (simp add: proof_value_digest_eq)
qed

end
