(* ===== verification/Proof_Wire.thy ===== *)
theory Proof_Wire
  imports Proof_Types Batch Header
begin

section \<open>The wire format of proofs\<close>

text \<open>
  Serialized range and change proofs: the header (\<open>proofs/header.rs\<close>), the reader (\<open>proofs/reader.rs\<close>), the
  items (\<open>proofs/ser.rs\<close>, \<open>proofs/de.rs\<close>), the bitmap of the children (\<open>merkle/childmask.rs\<close>) and the compressed
  frame around the body (\<open>proofs/frame.rs\<close>). The crates \<open>integer-encoding\<close> and \<open>zstd\<close> are the parameter
  \<open>wire_fns\<close>. The texts of what an invalid item was found to be are not modelled.
\<close>

subsection \<open>The crates\<close>

text \<open>
  \<open>w_decode_var\<close> returns the number and how many bytes it took. \<open>w_frame_size\<close> and \<open>w_content_size\<close> read the
  header of a frame. \<open>w_decompress frame cap\<close> is what is written into a buffer of \<open>cap\<close> bytes.
  \<open>w_compress_blocks\<close> is the streaming encoder, flushed after each block, with its pledged size.
\<close>

record wire_fns =
  w_encode_var :: "nat \<Rightarrow> u8 list"
  w_decode_var :: "u8 list \<Rightarrow> (nat \<times> nat) option"
  w_frame_size :: "u8 list \<Rightarrow> nat option"
  w_content_size :: "u8 list \<Rightarrow> nat option"
  w_decompress :: "u8 list \<Rightarrow> nat \<Rightarrow> u8 list option"
  w_compress :: "u8 list \<Rightarrow> u8 list io_result"
  w_compress_blocks :: "nat \<Rightarrow> u8 list list \<Rightarrow> u8 list io_result"

subsection \<open>The bitmap of the children\<close>

type_synonym child_mask = "16 word"

definition cm_ALL :: child_mask where
  "cm_ALL = - 1"

definition cm_set_below :: "child_mask \<Rightarrow> pc \<Rightarrow> child_mask" where
  "cm_set_below m nibble = or m (push_bit (unat nibble) 1 - 1)"

definition cm_set_above :: "child_mask \<Rightarrow> pc \<Rightarrow> child_mask" where
  "cm_set_above m nibble = or m (push_bit 1 (push_bit (unat nibble) (- 1)))"

definition cm_is_set :: "child_mask \<Rightarrow> pc \<Rightarrow> bool" where
  "cm_is_set m nibble \<longleftrightarrow> and m (push_bit (unat nibble) 1) \<noteq> 0"

definition cm_set :: "child_mask \<Rightarrow> pc \<Rightarrow> child_mask" where
  "cm_set m nibble = or m (push_bit (unat nibble) 1)"

definition cm_iter_indices :: "child_mask \<Rightarrow> pc list" where
  "cm_iter_indices m = filter (cm_is_set m) pc_ALL"

definition cm_to_le_bytes :: "child_mask \<Rightarrow> u8 list" where
  "cm_to_le_bytes m = nat_to_le_bytes 2 (unat m)"

definition cm_from_le_bytes :: "u8 list \<Rightarrow> child_mask" where
  "cm_from_le_bytes bs = word_of_nat (nat_from_le_bytes bs)"

text \<open>The bitmap of a children array has the bits of the slots that are taken.\<close>

definition children_bitmap :: "'a option children \<Rightarrow> child_mask" where
  "children_bitmap cs = foldl cm_set 0 (filter (\<lambda>c. cs c \<noteq> None) pc_ALL)"

subsection \<open>The reader\<close>

record proof_reader =
  pr_data :: "u8 list"
  pr_offset :: nat

type_synonym 'a pread = "proof_reader \<Rightarrow> read_error + ('a \<times> proof_reader)"

definition rd_return :: "'a \<Rightarrow> 'a pread" where
  "rd_return x r = Inr (x, r)"

definition rd_bind :: "'a pread \<Rightarrow> ('a \<Rightarrow> 'b pread) \<Rightarrow> 'b pread" where
  "rd_bind p f r = rbind (p r) (\<lambda>(x, r'). f x r')"

definition proof_reader_new :: "u8 list \<Rightarrow> proof_reader" where
  "proof_reader_new data = \<lparr>pr_data = data, pr_offset = 0\<rparr>"

definition pr_remainder :: "proof_reader \<Rightarrow> read_error + u8 list" where
  "pr_remainder r = (if pr_offset r \<le> length (pr_data r) then Inr (drop (pr_offset r) (pr_data r)) else Inl ReadPanic)"

definition pr_advance :: "nat \<Rightarrow> proof_reader \<Rightarrow> proof_reader" where
  "pr_advance n r = r\<lparr>pr_offset := pr_offset r + n\<rparr>"

definition incomplete_item :: "proof_reader \<Rightarrow> string \<Rightarrow> nat \<Rightarrow> read_error" where
  "incomplete_item r item expected =
     IncompleteItem item (pr_offset r) expected (length (pr_data r) - pr_offset r)"

definition invalid_item :: "proof_reader \<Rightarrow> string \<Rightarrow> string \<Rightarrow> read_error" where
  "invalid_item r item expected = InvalidItem item (pr_offset r) expected"

fun set_item :: "string \<Rightarrow> read_error \<Rightarrow> read_error" where
  "set_item item (IncompleteItem _ offset expected found) = IncompleteItem item offset expected found"
| "set_item item (InvalidItem _ offset expected) = InvalidItem item offset expected"
| "set_item item (InvalidHeaderError e) = InvalidHeaderError e"
| "set_item item ReadPanic = ReadPanic"

definition rd_named :: "string \<Rightarrow> 'a pread \<Rightarrow> 'a pread" where
  "rd_named item p r = (case p r of Inl e \<Rightarrow> Inl (set_item item e) | Inr x \<Rightarrow> Inr x)"

definition read_chunk :: "nat \<Rightarrow> u8 list pread" where
  "read_chunk n r =
     rbind (pr_remainder r) (\<lambda>rest.
       if n \<le> length rest then Inr (take n rest, pr_advance n r)
       else Inl (incomplete_item r ''[u8; N]'' n))"

definition read_slice :: "nat \<Rightarrow> u8 list pread" where
  "read_slice n r =
     rbind (pr_remainder r) (\<lambda>rest.
       if length rest \<ge> n then Inr (take n rest, pr_advance n r)
       else Inl (incomplete_item r ''byte slice'' n))"

subsection \<open>The items\<close>

definition read_usize :: "wire_fns \<Rightarrow> nat pread" where
  "read_usize w r =
     rbind (pr_remainder r) (\<lambda>rest.
       case w_decode_var w rest of
         Some (n, taken) \<Rightarrow> Inr (n, pr_advance taken r)
       | None \<Rightarrow>
           if rest = [] then Inl (incomplete_item r ''varint'' 1)
           else Inl (invalid_item r ''varint'' ''byte with no MSB within 9 bytes''))"

definition read_bytes :: "wire_fns \<Rightarrow> u8 list pread" where
  "read_bytes w = rd_bind (read_usize w) read_slice"

definition read_u8 :: "u8 pread" where
  "read_u8 = rd_named ''u8'' (rd_bind (read_chunk 1) (\<lambda>bs. rd_return (hd bs)))"

definition read_option :: "'a pread \<Rightarrow> 'a option pread" where
  "read_option p =
     rd_bind (rd_named ''option discriminant'' read_u8) (\<lambda>d.
       if d = 0 then rd_return None
       else if d = 1 then rd_bind p (\<lambda>x. rd_return (Some x))
       else (\<lambda>r. Inl (invalid_item r ''option discriminant'' ''0 or 1'')))"

definition read_trie_hash :: "trie_hash pread" where
  "read_trie_hash = rd_named ''trie hash'' (read_chunk 32)"

definition read_hash_type :: "wire_fns \<Rightarrow> node_hash_algorithm \<Rightarrow> hash_type pread" where
  "read_hash_type w mode =
     (if is_ethereum mode
      then rd_bind (rd_named ''hash type discriminant'' read_u8) (\<lambda>d.
             if d = 0 then rd_bind read_trie_hash (\<lambda>h. rd_return (Hash h))
             else if d = 1 then rd_bind (read_bytes w) (\<lambda>b. rd_return (Rlp b))
             else (\<lambda>r. Inl (invalid_item r ''hash type discriminant'' ''0 (hash) or 1 (rlp)'')))
      else rd_bind read_trie_hash (\<lambda>h. rd_return (Hash h)))"

definition read_value_digest :: "wire_fns \<Rightarrow> node_hash_algorithm \<Rightarrow> value_digest pread" where
  "read_value_digest w mode =
     rd_bind (rd_named ''value digest discriminant'' read_u8) (\<lambda>d.
       if d = 0 then rd_bind (read_bytes w) (\<lambda>v. rd_return (VdValue v))
       else if d = 1 then rd_bind (read_hash_type w mode) (\<lambda>h. rd_return (VdHash h))
       else (\<lambda>r. Inl (invalid_item r ''value digest discriminant'' ''0 (value) or 1 (hash)'')))"

definition read_child_mask :: "child_mask pread" where
  "read_child_mask = rd_named ''children map'' (rd_bind (read_chunk 2) (\<lambda>bs. rd_return (cm_from_le_bytes bs)))"

definition MAX_KEY_NIBBLES :: nat where
  "MAX_KEY_NIBBLES = MAX_KEY_BYTES * 2"

definition check_key_bytes :: "u8 list \<Rightarrow> unit pread" where
  "check_key_bytes key r =
     (if length key > MAX_KEY_BYTES then Inl (invalid_item r ''key length'' ''at most 1024 bytes'') else Inr ((), r))"

fun path_from_unpacked_bytes :: "u8 list \<Rightarrow> pc list option" where
  "path_from_unpacked_bytes [] = Some []"
| "path_from_unpacked_bytes (b # bs) =
     Option.bind (try_new b) (\<lambda>c. map_option ((#) c) (path_from_unpacked_bytes bs))"

definition read_path :: "wire_fns \<Rightarrow> pc list pread" where
  "read_path w =
     rd_bind (read_bytes w) (\<lambda>bytes r.
       if length bytes > MAX_KEY_NIBBLES then Inl (invalid_item r ''path length'' ''at most 2048 nibbles'')
       else case path_from_unpacked_bytes bytes of
              None \<Rightarrow> Inl (invalid_item r ''path'' ''valid nibbles'')
            | Some path \<Rightarrow> Inr (path, r))"

fun read_child_hashes :: "hash_type pread \<Rightarrow> pc list \<Rightarrow> hash_type option children \<Rightarrow> hash_type option children pread" where
  "read_child_hashes p [] child_hashes = rd_return child_hashes"
| "read_child_hashes p (idx # rest) child_hashes =
     rd_bind p (\<lambda>h. read_child_hashes p rest (child_hashes(idx := Some h)))"

definition read_proof_node :: "wire_fns \<Rightarrow> node_hash_algorithm \<Rightarrow> proof_node pread" where
  "read_proof_node w mode =
     rd_bind (read_path w) (\<lambda>key.
     rd_bind (read_usize w) (\<lambda>partial_len.
     rd_bind (\<lambda>r. if partial_len > length key
                  then Inl (invalid_item r ''partial key length'' ''value less than or equal to the key length'')
                  else Inr ((), r)) (\<lambda>_.
     rd_bind (read_option (read_value_digest w mode)) (\<lambda>vd.
     rd_bind read_child_mask (\<lambda>children_map.
     rd_bind (read_child_hashes (read_hash_type w mode) (cm_iter_indices children_map) children_new) (\<lambda>child_hashes.
     rd_return \<lparr>pn_key = key, pn_partial_len = partial_len, pn_value_digest = vd, pn_child_hashes = child_hashes\<rparr>))))))"

definition read_pair :: "wire_fns \<Rightarrow> (u8 list \<times> u8 list) pread" where
  "read_pair w =
     rd_bind (read_bytes w) (\<lambda>key.
     rd_bind (check_key_bytes key) (\<lambda>_.
     rd_bind (read_bytes w) (\<lambda>v. rd_return (key, v))))"

definition read_batch_op :: "wire_fns \<Rightarrow> batch_op pread" where
  "read_batch_op w =
     rd_bind (rd_named ''option discriminant'' read_u8) (\<lambda>d.
       if d = 0 then rd_bind (read_bytes w) (\<lambda>key. rd_bind (check_key_bytes key) (\<lambda>_.
                     rd_bind (read_bytes w) (\<lambda>v. rd_return (Put key v))))
       else if d = 1 then rd_bind (read_bytes w) (\<lambda>key. rd_bind (check_key_bytes key) (\<lambda>_. rd_return (Delete key)))
       else if d = 2 then rd_bind (read_bytes w) (\<lambda>key. rd_bind (check_key_bytes key) (\<lambda>_. rd_return (DeleteRange key)))
       else (\<lambda>r. Inl (invalid_item r ''option discriminant'' ''0, 1, or 2'')))"

fun read_items :: "'a pread \<Rightarrow> nat \<Rightarrow> 'a list pread" where
  "read_items p 0 = rd_return []"
| "read_items p (Suc n) = rd_bind p (\<lambda>x. rd_bind (read_items p n) (\<lambda>xs. rd_return (x # xs)))"

definition read_array :: "wire_fns \<Rightarrow> nat \<Rightarrow> 'a pread \<Rightarrow> 'a list pread" where
  "read_array w min_bytes p =
     rd_bind (rd_named ''array length'' (read_usize w)) (\<lambda>num_items r.
       rbind (pr_remainder r) (\<lambda>rest.
         if num_items > length rest div min_bytes
         then Inl (invalid_item r ''array length''
                ''length less than or equal to the maximum possible items in remaining bytes'')
         else read_items p num_items r))"

subsection \<open>Proofs\<close>

record range_proof =
  rp_start_proof :: "proof_node list"
  rp_end_proof :: "proof_node list"
  rp_key_values :: "(u8 list \<times> u8 list) list"
  rp_hash_mode :: node_hash_algorithm

record change_proof =
  cp_start_proof :: "proof_node list"
  cp_end_proof :: "proof_node list"
  cp_batch_ops :: "batch_op list"
  cp_hash_mode :: node_hash_algorithm

definition read_range_proof :: "wire_fns \<Rightarrow> node_hash_algorithm \<Rightarrow> range_proof pread" where
  "read_range_proof w mode =
     rd_bind (read_array w 5 (read_proof_node w mode)) (\<lambda>start_proof.
     rd_bind (read_array w 5 (read_proof_node w mode)) (\<lambda>end_proof.
     rd_bind (read_array w 2 (read_pair w)) (\<lambda>key_values.
     rd_return \<lparr>rp_start_proof = start_proof, rp_end_proof = end_proof, rp_key_values = key_values,
       rp_hash_mode = mode\<rparr>)))"

definition read_change_proof :: "wire_fns \<Rightarrow> node_hash_algorithm \<Rightarrow> change_proof pread" where
  "read_change_proof w mode =
     rd_bind (read_array w 5 (read_proof_node w mode)) (\<lambda>start_proof.
     rd_bind (read_array w 5 (read_proof_node w mode)) (\<lambda>end_proof.
     rd_bind (read_array w 2 (read_batch_op w)) (\<lambda>ops.
     rd_return \<lparr>cp_start_proof = start_proof, cp_end_proof = end_proof, cp_batch_ops = ops,
       cp_hash_mode = mode\<rparr>)))"

subsection \<open>The writer\<close>

definition write_byte_seq :: "wire_fns \<Rightarrow> u8 list \<Rightarrow> u8 list" where
  "write_byte_seq w bs = w_encode_var w (length bs) @ bs"

definition write_path :: "wire_fns \<Rightarrow> pc list \<Rightarrow> u8 list" where
  "write_path w p = w_encode_var w (length p) @ map as_u8 p"

fun write_option :: "('a \<Rightarrow> u8 list io_result) \<Rightarrow> 'a option \<Rightarrow> u8 list io_result" where
  "write_option f (Some v) = rbind (f v) (\<lambda>bs. Inr (1 # bs))"
| "write_option f None = Inr [0]"

text \<open>Under the MerkleDB scheme an inline RLP is unreachable.\<close>

fun write_hash_type :: "wire_fns \<Rightarrow> node_hash_algorithm \<Rightarrow> hash_type \<Rightarrow> u8 list io_result" where
  "write_hash_type w Ethereum (Hash h) = Inr (0 # h)"
| "write_hash_type w Ethereum (Rlp r) = Inr (1 # write_byte_seq w r)"
| "write_hash_type w MerkleDB (Hash h) = Inr h"
| "write_hash_type w MerkleDB (Rlp r) = Inl Panic"

definition write_value_digest :: "hash_fns \<Rightarrow> wire_fns \<Rightarrow> node_hash_algorithm \<Rightarrow> value_digest \<Rightarrow> u8 list io_result" where
  "write_value_digest hf w mode vd =
     (case make_hash hf mode vd of
        VdValue v \<Rightarrow> Inr (0 # write_byte_seq w v)
      | VdHash h \<Rightarrow> rbind (write_hash_type w mode h) (\<lambda>bs. Inr (1 # bs)))"

fun write_all :: "('a \<Rightarrow> u8 list io_result) \<Rightarrow> 'a list \<Rightarrow> u8 list io_result" where
  "write_all f [] = Inr []"
| "write_all f (x # xs) = rbind (f x) (\<lambda>bs. rbind (write_all f xs) (\<lambda>rest. Inr (bs @ rest)))"

definition write_array :: "wire_fns \<Rightarrow> ('a \<Rightarrow> u8 list io_result) \<Rightarrow> 'a list \<Rightarrow> u8 list io_result" where
  "write_array w f xs = rbind (write_all f xs) (\<lambda>bs. Inr (w_encode_var w (length xs) @ bs))"

definition write_proof_node :: "hash_fns \<Rightarrow> wire_fns \<Rightarrow> node_hash_algorithm \<Rightarrow> proof_node \<Rightarrow> u8 list io_result" where
  "write_proof_node hf w mode n =
     rbind (write_option (write_value_digest hf w mode) (pn_value_digest n)) (\<lambda>vd.
     rbind (write_all (\<lambda>(_, child). write_hash_type w mode child) (iter_present (pn_child_hashes n))) (\<lambda>hashes.
     Inr (write_path w (pn_key n) @ w_encode_var w (pn_partial_len n) @ vd @
          cm_to_le_bytes (children_bitmap (pn_child_hashes n)) @ hashes)))"

definition write_pair :: "wire_fns \<Rightarrow> u8 list \<times> u8 list \<Rightarrow> u8 list io_result" where
  "write_pair w kv = Inr (write_byte_seq w (fst kv) @ write_byte_seq w (snd kv))"

fun write_batch_op :: "wire_fns \<Rightarrow> batch_op \<Rightarrow> u8 list io_result" where
  "write_batch_op w (Put key v) = Inr (0 # write_byte_seq w key @ write_byte_seq w v)"
| "write_batch_op w (Delete key) = Inr (1 # write_byte_seq w key)"
| "write_batch_op w (DeleteRange key) = Inr (2 # write_byte_seq w key)"

definition rp_write_body :: "hash_fns \<Rightarrow> wire_fns \<Rightarrow> range_proof \<Rightarrow> u8 list io_result" where
  "rp_write_body hf w p =
     rbind (write_array w (write_proof_node hf w (rp_hash_mode p)) (rp_start_proof p)) (\<lambda>a.
     rbind (write_array w (write_proof_node hf w (rp_hash_mode p)) (rp_end_proof p)) (\<lambda>b.
     rbind (write_array w (write_pair w) (rp_key_values p)) (\<lambda>c. Inr (a @ b @ c))))"

definition cp_write_body :: "hash_fns \<Rightarrow> wire_fns \<Rightarrow> change_proof \<Rightarrow> u8 list io_result" where
  "cp_write_body hf w p =
     rbind (write_array w (write_proof_node hf w (cp_hash_mode p)) (cp_start_proof p)) (\<lambda>a.
     rbind (write_array w (write_proof_node hf w (cp_hash_mode p)) (cp_end_proof p)) (\<lambda>b.
     rbind (write_array w (write_batch_op w) (cp_batch_ops p)) (\<lambda>c. Inr (a @ b @ c))))"

subsection \<open>The header\<close>

record proof_header =
  ph_magic :: "u8 list"
  ph_version :: u8
  ph_hash_mode :: u8
  ph_branch_factor :: u8
  ph_proof_type :: u8
  ph_reserved :: "u8 list"

record validated_header =
  vh_proof_type :: proof_type
  vh_node_hash_algorithm :: node_hash_algorithm

text \<open>\<open>b"fwdproof"\<close>\<close>

definition PROOF_HEADER :: "u8 list" where
  "PROOF_HEADER = [0x66, 0x77, 0x64, 0x70, 0x72, 0x6f, 0x6f, 0x66]"

definition ph_from :: "proof_type \<Rightarrow> node_hash_algorithm \<Rightarrow> proof_header" where
  "ph_from kind mode =
     \<lparr>ph_magic = PROOF_HEADER, ph_version = 0,
      ph_hash_mode = (case mode of MerkleDB \<Rightarrow> 0 | Ethereum \<Rightarrow> 1), ph_branch_factor = 16,
      ph_proof_type = proof_type_byte kind, ph_reserved = replicate 20 0\<rparr>"

definition ph_bytes_of :: "proof_header \<Rightarrow> u8 list" where
  "ph_bytes_of h = ph_magic h @ [ph_version h, ph_hash_mode h, ph_branch_factor h, ph_proof_type h] @ ph_reserved h"

definition ph_cast :: "u8 list \<Rightarrow> proof_header" where
  "ph_cast bs =
     \<lparr>ph_magic = take 8 bs, ph_version = bs ! 8, ph_hash_mode = bs ! 9, ph_branch_factor = bs ! 10,
      ph_proof_type = bs ! 11, ph_reserved = drop 12 bs\<rparr>"

definition read_header :: "proof_header pread" where
  "read_header = rd_bind (rd_named ''header'' (read_chunk 32)) (\<lambda>bs. rd_return (ph_cast bs))"

definition ph_validate :: "proof_type option \<Rightarrow> proof_header \<Rightarrow> invalid_header + validated_header" where
  "ph_validate expected_type h =
     (if ph_magic h \<noteq> PROOF_HEADER then Inl (InvalidMagic (ph_magic h))
      else if ph_version h \<noteq> 0 then Inl (UnsupportedVersion (ph_version h))
      else case algorithm_try_from (ucast (ph_hash_mode h)) of
             Inl _ \<Rightarrow> Inl (UnsupportedHashMode (ph_hash_mode h))
           | Inr algorithm \<Rightarrow>
               if ph_branch_factor h \<noteq> 16 then Inl (UnsupportedBranchFactor (ph_branch_factor h))
               else case (proof_type_new (ph_proof_type h), expected_type) of
                      (None, expected) \<Rightarrow> Inl (InvalidProofType (ph_proof_type h) expected)
                    | (Some found, Some expected) \<Rightarrow>
                        if found \<noteq> expected then Inl (InvalidProofType (ph_proof_type h) (Some expected))
                        else Inr \<lparr>vh_proof_type = found, vh_node_hash_algorithm = algorithm\<rparr>
                    | (Some found, None) \<Rightarrow> Inr \<lparr>vh_proof_type = found, vh_node_hash_algorithm = algorithm\<rparr>)"

subsection \<open>The frame\<close>

definition MAX_DECOMPRESSED_LEN :: nat where
  "MAX_DECOMPRESSED_LEN = 6 * 1024 * 1024"

definition MAX_COMPRESSION_RATIO :: nat where
  "MAX_COMPRESSION_RATIO = 128"

definition saturating_mul :: "nat \<Rightarrow> nat \<Rightarrow> nat" where
  "saturating_mul a b = min (a * b) (2 ^ 64 - 1)"

definition validate_frame :: "wire_fns \<Rightarrow> u8 list \<Rightarrow> nat \<Rightarrow> read_error + nat" where
  "validate_frame w frame frame_offset =
     (case w_frame_size w frame of
        None \<Rightarrow> Inl (InvalidItem ''compressed body frame'' frame_offset ''a valid zstd frame'')
      | Some frame_size \<Rightarrow>
          if frame_size \<noteq> length frame
          then Inl (InvalidItem ''compressed body frame'' frame_offset
                 ''a single zstd frame spanning the entire remainder'')
          else case w_content_size w frame of
                 None \<Rightarrow> Inl (InvalidItem ''frame content size'' frame_offset ''a content size in the frame header'')
               | Some content_size \<Rightarrow>
                   if \<not> (content_size \<noteq> 0 \<and> content_size \<le> MAX_DECOMPRESSED_LEN)
                   then Inl (InvalidItem ''frame content size'' frame_offset
                          ''a non-zero content size within the maximum'')
                   else if content_size > saturating_mul (length frame) MAX_COMPRESSION_RATIO
                   then Inl (InvalidItem ''frame content size'' frame_offset
                          ''content size within the maximum compression ratio of the frame length'')
                   else Inr content_size)"

text \<open>What is not written by the decompressor stays zero in the buffer.\<close>

definition decompress_body :: "wire_fns \<Rightarrow> u8 list \<Rightarrow> nat \<Rightarrow> read_error + u8 list" where
  "decompress_body w frame frame_offset =
     rbind (validate_frame w frame frame_offset) (\<lambda>decoded_len.
       case w_decompress w frame decoded_len of
         None \<Rightarrow> Inl (InvalidItem ''compressed body frame'' frame_offset ''a valid zstd frame'')
       | Some written \<Rightarrow> Inr (written @ replicate (decoded_len - length written) 0))"

fun blocks_of :: "nat \<Rightarrow> u8 list \<Rightarrow> u8 list list" where
  "blocks_of n [] = []"
| "blocks_of 0 bs = []"
| "blocks_of n bs = take n bs # blocks_of n (drop n bs)"

definition write_compressed_body :: "wire_fns \<Rightarrow> u8 list \<Rightarrow> u8 list proof_result" where
  "write_compressed_body w body =
     (case w_compress w body of
        Inl e \<Rightarrow> Inl (Compression e)
      | Inr compressed \<Rightarrow>
          if length body \<le> saturating_mul (length compressed) MAX_COMPRESSION_RATIO then Inr compressed
          else case w_compress_blocks w (length body) (blocks_of MAX_COMPRESSION_RATIO body) of
                 Inl e \<Rightarrow> Inl (Compression e)
               | Inr compressed \<Rightarrow> Inr compressed)"

definition write_framed_body ::
  "wire_fns \<Rightarrow> u8 list \<Rightarrow> proof_type \<Rightarrow> node_hash_algorithm \<Rightarrow> u8 list \<Rightarrow> unit proof_result \<times> u8 list" where
  "write_framed_body w body kind mode out =
     (if length body > MAX_DECOMPRESSED_LEN then (Inl (BodyTooLarge (length body) MAX_DECOMPRESSED_LEN), out)
      else case write_compressed_body w body of
             Inl e \<Rightarrow> (Inl e, out)
           | Inr frame \<Rightarrow> (Inr (), out @ ph_bytes_of (ph_from kind mode) @ frame))"

definition rp_write_to_vec ::
  "hash_fns \<Rightarrow> wire_fns \<Rightarrow> range_proof \<Rightarrow> u8 list \<Rightarrow> unit proof_result \<times> u8 list" where
  "rp_write_to_vec hf w p out =
     (case rp_write_body hf w p of
        Inl e \<Rightarrow> (Inl (ProofIO e), out)
      | Inr body \<Rightarrow> write_framed_body w body RangeProof (rp_hash_mode p) out)"

definition cp_write_to_vec ::
  "hash_fns \<Rightarrow> wire_fns \<Rightarrow> change_proof \<Rightarrow> u8 list \<Rightarrow> unit proof_result \<times> u8 list" where
  "cp_write_to_vec hf w p out =
     (case cp_write_body hf w p of
        Inl e \<Rightarrow> (Inl (ProofIO e), out)
      | Inr body \<Rightarrow> write_framed_body w body ChangeProof (cp_hash_mode p) out)"

subsection \<open>Reading a message\<close>

definition from_slice_of ::
  "wire_fns \<Rightarrow> proof_type \<Rightarrow> (node_hash_algorithm \<Rightarrow> 'a pread) \<Rightarrow> u8 list \<Rightarrow> read_error + 'a" where
  "from_slice_of w kind item data =
     rbind (read_header (proof_reader_new data)) (\<lambda>(header, reader).
     rbind (case ph_validate (Some kind) header of Inl e \<Rightarrow> Inl (InvalidHeaderError e) | Inr v \<Rightarrow> Inr v) (\<lambda>validated.
       if ph_version header \<noteq> 0 then Inl (InvalidHeaderError (UnsupportedVersion (ph_version header)))
       else
         rbind (pr_remainder reader) (\<lambda>frame.
         rbind (decompress_body w frame 32) (\<lambda>body.
         rbind (item (vh_node_hash_algorithm validated) (proof_reader_new body)) (\<lambda>(this, reader).
         rbind (pr_remainder reader) (\<lambda>rest.
           if rest \<noteq> [] then Inl (invalid_item reader ''trailing bytes'' ''no data after the proof'')
           else Inr this))))))"

definition rp_from_slice :: "wire_fns \<Rightarrow> u8 list \<Rightarrow> read_error + range_proof" where
  "rp_from_slice w = from_slice_of w RangeProof (read_range_proof w)"

definition cp_from_slice :: "wire_fns \<Rightarrow> u8 list \<Rightarrow> read_error + change_proof" where
  "cp_from_slice w = from_slice_of w ChangeProof (read_change_proof w)"

definition check_header_hash_mode ::
  "u8 list \<Rightarrow> proof_type \<Rightarrow> node_hash_algorithm \<Rightarrow> unit proof_result" where
  "check_header_hash_mode data kind expected =
     (case rbind (read_header (proof_reader_new data)) (\<lambda>(header, _).
             case ph_validate (Some kind) header of Inl e \<Rightarrow> Inl (InvalidHeaderError e) | Inr v \<Rightarrow> Inr v) of
        Inl e \<Rightarrow> Inl (Deserialization e)
      | Inr v \<Rightarrow>
          if vh_node_hash_algorithm v = expected then Inr ()
          else Inl (HashModeMismatch expected (vh_node_hash_algorithm v)))"

definition rp_from_slice_in_mode :: "wire_fns \<Rightarrow> u8 list \<Rightarrow> node_hash_algorithm \<Rightarrow> range_proof proof_result" where
  "rp_from_slice_in_mode w data expected =
     rbind (check_header_hash_mode data RangeProof expected) (\<lambda>_.
       case rp_from_slice w data of Inl e \<Rightarrow> Inl (Deserialization e) | Inr p \<Rightarrow> Inr p)"

definition cp_from_slice_in_mode :: "wire_fns \<Rightarrow> u8 list \<Rightarrow> node_hash_algorithm \<Rightarrow> change_proof proof_result" where
  "cp_from_slice_in_mode w data expected =
     rbind (check_header_hash_mode data ChangeProof expected) (\<lambda>_.
       case cp_from_slice w data of Inl e \<Rightarrow> Inl (Deserialization e) | Inr p \<Rightarrow> Inr p)"

end
