(* ===== verification/Wire_Laws.thy ===== *)
theory Wire_Laws
  imports Proof_Wire Proof_Laws
begin

section \<open>Proofs survive serialization\<close>

text \<open>
  Reading what was written gives the proof back, with the long values of its nodes replaced by their
  digests; and whatever bytes are read, the nodes of the proof have the shapes verification relies on.
\<close>

subsection \<open>Readers that invert writers\<close>

definition pr_reads :: "'a pread \<Rightarrow> u8 list \<Rightarrow> 'a \<Rightarrow> bool" where
  "pr_reads p bs x \<longleftrightarrow> (\<forall>pre rest. p \<lparr>pr_data = pre @ bs @ rest, pr_offset = length pre\<rparr> =
     Inr (x, \<lparr>pr_data = pre @ bs @ rest, pr_offset = length pre + length bs\<rparr>))"

lemma pr_reads_return: "pr_reads (rd_return x) [] x"
  by (simp add: pr_reads_def rd_return_def)

lemma pr_reads_bind:
  assumes "pr_reads p bs x" "pr_reads (f x) cs y"
  shows "pr_reads (rd_bind p f) (bs @ cs) y"
  unfolding pr_reads_def
proof (intro allI)
  fix pre rest
  have "p \<lparr>pr_data = pre @ bs @ cs @ rest, pr_offset = length pre\<rparr> =
      Inr (x, \<lparr>pr_data = pre @ bs @ cs @ rest, pr_offset = length pre + length bs\<rparr>)"
    using assms(1) by (simp add: pr_reads_def)
  moreover have "f x \<lparr>pr_data = (pre @ bs) @ cs @ rest, pr_offset = length (pre @ bs)\<rparr> =
      Inr (y, \<lparr>pr_data = (pre @ bs) @ cs @ rest, pr_offset = length (pre @ bs) + length cs\<rparr>)"
    using assms(2) unfolding pr_reads_def by blast
  ultimately show "rd_bind p f \<lparr>pr_data = pre @ (bs @ cs) @ rest, pr_offset = length pre\<rparr> =
      Inr (y, \<lparr>pr_data = pre @ (bs @ cs) @ rest, pr_offset = length pre + length (bs @ cs)\<rparr>)"
    by (simp add: rd_bind_def add.assoc)
qed

lemma pr_reads_bind_return: "pr_reads p bs x \<Longrightarrow> y = g x \<Longrightarrow> pr_reads (rd_bind p (\<lambda>x. rd_return (g x))) bs y"
  using pr_reads_bind [of p bs x "\<lambda>x. rd_return (g x)" "[]" y] pr_reads_return by fastforce

lemma pr_reads_bind_Cons: "pr_reads p [b] x \<Longrightarrow> pr_reads (f x) cs y \<Longrightarrow> pr_reads (rd_bind p f) (b # cs) y"
  using pr_reads_bind [of p "[b]" x f cs y] by simp

lemma pr_reads_bind_end: "pr_reads p bs x \<Longrightarrow> pr_reads (f x) [] y \<Longrightarrow> pr_reads (rd_bind p f) bs y"
  using pr_reads_bind [of p bs x f "[]" y] by simp

lemma pr_reads_bind_check: "pr_reads p [] x \<Longrightarrow> pr_reads (f x) cs y \<Longrightarrow> pr_reads (rd_bind p f) cs y"
  using pr_reads_bind [of p "[]" x f cs y] by simp

lemma pr_reads_named: "pr_reads p bs x \<Longrightarrow> pr_reads (rd_named item p) bs x"
  by (simp add: pr_reads_def rd_named_def)

lemma pr_reads_chunk: "length bs = n \<Longrightarrow> pr_reads (read_chunk n) bs bs"
  by (auto simp: pr_reads_def read_chunk_def pr_remainder_def pr_advance_def)

lemma pr_reads_slice: "length bs = n \<Longrightarrow> pr_reads (read_slice n) bs bs"
  by (auto simp: pr_reads_def read_slice_def pr_remainder_def pr_advance_def)

lemma pr_reads_u8: "pr_reads read_u8 [b] b"
  unfolding read_u8_def by (rule pr_reads_named, rule pr_reads_bind_return [OF pr_reads_chunk]) simp_all

lemma pr_reads_tag: "pr_reads (rd_named item read_u8) [b] b"
  by (rule pr_reads_named [OF pr_reads_u8])

lemma pr_reads_trie_hash: "length h = 32 \<Longrightarrow> pr_reads read_trie_hash h h"
  unfolding read_trie_hash_def by (intro pr_reads_named pr_reads_chunk)

lemma pr_reads_option:
  assumes "write_option f x = Inr bs" "\<And>y cs. x = Some y \<Longrightarrow> f y = Inr cs \<Longrightarrow> pr_reads p cs (g y)"
  shows "pr_reads (read_option p) bs (map_option g x)"
proof (cases x)
  case None
  then show ?thesis using assms(1) unfolding read_option_def
    by (auto intro!: pr_reads_bind_Cons [OF pr_reads_tag] pr_reads_return)
next
  case (Some y)
  then obtain cs where cs: "f y = Inr cs" "bs = 1 # cs" using assms(1) by (auto simp: rbind_eq_Inr)
  have "pr_reads (rd_bind p (\<lambda>x. rd_return (Some x))) cs (map_option g x)"
    using assms(2) [OF Some cs(1)] Some by (intro pr_reads_bind_return) simp_all
  then show ?thesis unfolding read_option_def cs(2) by (intro pr_reads_bind_Cons [OF pr_reads_tag]) simp
qed

lemma pr_reads_items:
  "write_all f xs = Inr bs \<Longrightarrow> (\<And>x cs. x \<in> set xs \<Longrightarrow> f x = Inr cs \<Longrightarrow> pr_reads p cs (g x)) \<Longrightarrow>
    pr_reads (read_items p (length xs)) bs (map g xs)"
proof (induction xs arbitrary: bs)
  case (Cons x xs)
  then obtain cs ds where b: "f x = Inr cs" "write_all f xs = Inr ds" "bs = cs @ ds" by (auto simp: rbind_eq_Inr)
  have "pr_reads (rd_bind (read_items p (length xs)) (\<lambda>ys. rd_return (g x # ys))) ds (map g (x # xs))"
    using Cons.IH [OF b(2)] Cons.prems(2) by (intro pr_reads_bind_return) simp_all
  then show ?case using Cons.prems(2) [of x cs] b pr_reads_bind [of p cs "g x" _ ds] by simp
qed (simp add: pr_reads_return)

subsection \<open>The bitmap\<close>

lemma cm_is_set_bit: "cm_is_set m c \<longleftrightarrow> bit m (unat c)"
proof -
  have "unat c < 16" by (rule u4_less_16)
  then show ?thesis
    by (auto simp: cm_is_set_def bit_eq_iff [of _ "0 :: child_mask"] bit_and_iff bit_exp_iff)
qed

lemma cm_set_is_set [simp]: "cm_is_set (cm_set m c) d \<longleftrightarrow> cm_is_set m d \<or> d = c"
  using u4_less_16 [of d]
  by (auto simp: cm_is_set_bit cm_set_def bit_or_iff bit_exp_iff word_unat_eq_iff)

lemma cm_set_below_is_set: "cm_is_set (cm_set_below m c) d \<longleftrightarrow> cm_is_set m d \<or> d < c"
proof -
  have "(push_bit (unat c) 1 - 1 :: child_mask) = mask (unat c)" by (simp add: mask_eq_exp_minus_1 push_bit_eq_mult)
  then show ?thesis using u4_less_16 [of d]
    by (auto simp: cm_is_set_bit cm_set_below_def bit_or_iff bit_mask_iff word_less_nat_alt)
qed

lemma cm_set_above_is_set: "cm_is_set (cm_set_above m c) d \<longleftrightarrow> cm_is_set m d \<or> c < d"
proof -
  have "bit (push_bit 1 (push_bit (unat c) (- 1)) :: child_mask) (unat d) \<longleftrightarrow> unat c < unat d"
    using u4_less_16 [of d] by (simp only: bit_push_bit_iff bit_minus_1_iff) auto
  then show ?thesis by (simp only: cm_is_set_bit cm_set_above_def bit_or_iff word_less_nat_alt)
qed

lemma cm_zero_is_set [simp]: "\<not> cm_is_set 0 c"
  by (simp add: cm_is_set_def)

lemma cm_foldl_is_set: "cm_is_set (foldl cm_set m cs) c \<longleftrightarrow> cm_is_set m c \<or> c \<in> set cs"
  by (induction cs arbitrary: m) auto

lemma children_bitmap_is_set: "cm_is_set (children_bitmap cs) c \<longleftrightarrow> cs c \<noteq> None"
  by (simp add: children_bitmap_def cm_foldl_is_set)

lemma bitmap_indices: "cm_iter_indices (children_bitmap cs) = map fst (iter_present cs)"
proof -
  have "map fst (List.map_filter (\<lambda>(i, opt). map_option (\<lambda>v. (i, v)) opt) (map (\<lambda>i. (i, cs i)) xs)) =
      filter (\<lambda>c. cs c \<noteq> None) xs" for xs
    by (induction xs) (auto simp: map_filter_simps)
  then show ?thesis
    by (simp add: cm_iter_indices_def children_bitmap_is_set [abs_def] iter_present_def children_iter_def)
qed

lemma cm_from_to_le_bytes [simp]: "cm_from_le_bytes (cm_to_le_bytes m) = m" "length (cm_to_le_bytes m) = 2"
proof -
  have "unat m < 256 ^ 2" using unsigned_less [of m] by simp
  then show "cm_from_le_bytes (cm_to_le_bytes m) = m" "length (cm_to_le_bytes m) = 2"
    by (simp_all add: cm_from_le_bytes_def cm_to_le_bytes_def nat_from_to_le_bytes)
qed

lemma rev_iter_present: "map_of (rev (iter_present hs)) = hs"
proof
  fix c
  show "map_of (rev (iter_present hs)) c = hs c"
  proof (cases "map_of (rev (iter_present hs)) c")
    case None
    then have "(c, h) \<notin> set (iter_present hs)" for h using weak_map_of_SomeI [of c h "rev (iter_present hs)"] by auto
    then show ?thesis using None set_iter_present [of c _ hs] by (cases "hs c") auto
  next
    case (Some h)
    then show ?thesis using map_of_SomeD [OF Some] set_iter_present [of c h hs] by simp
  qed
qed

lemma foldl_map_of: "foldl (\<lambda>cs (i, h). cs(i := Some h)) cs es = cs ++ map_of (rev es)"
  by (induction es arbitrary: cs) auto

lemma update_iter_present: "foldl (\<lambda>cs (i, h). cs(i := Some h)) children_new (iter_present hs) = hs"
  by (simp add: foldl_map_of rev_iter_present children_new_def map_add_def split: option.split)

lemma pr_reads_child_hashes:
  "write_all (\<lambda>(_, child). f child) es = Inr bs \<Longrightarrow> (\<And>i h cs. (i, h) \<in> set es \<Longrightarrow> f h = Inr cs \<Longrightarrow> pr_reads p cs h) \<Longrightarrow>
    pr_reads (read_child_hashes p (map fst es) hs) bs (foldl (\<lambda>cs (i, h). cs(i := Some h)) hs es)"
proof (induction es arbitrary: bs hs)
  case (Cons e es)
  obtain i h where e: "e = (i, h)" by (cases e)
  obtain cs ds where b: "f h = Inr cs" "write_all (\<lambda>(_, child). f child) es = Inr ds" "bs = cs @ ds"
    using Cons.prems(1) by (auto simp: e rbind_eq_Inr)
  have "pr_reads (read_child_hashes p (map fst es) (hs(i := Some h))) ds
      (foldl (\<lambda>cs (i, h). cs(i := Some h)) (hs(i := Some h)) es)"
    by (rule Cons.IH [OF b(2)]) (use Cons.prems(2) in auto)
  then show ?case using Cons.prems(2) [of i h cs] b
    unfolding e b(3) list.map fst_conv read_child_hashes.simps foldl.simps prod.case
    by (intro pr_reads_bind [of p cs h]) simp_all
qed (simp add: pr_reads_return)

lemma path_from_unpacked: "path_from_unpacked_bytes (map as_u8 p) = Some p"
  by (induction p) simp_all

subsection \<open>Proofs that can be sent\<close>

fun wire_hash :: "node_hash_algorithm \<Rightarrow> hash_type \<Rightarrow> bool" where
  "wire_hash mode (Hash h) = (length h = 32)"
| "wire_hash mode (Rlp r) = (mode = Ethereum \<and> length r < 2 ^ 64)"

fun wire_digest :: "node_hash_algorithm \<Rightarrow> value_digest \<Rightarrow> bool" where
  "wire_digest mode (VdValue v) = (length v < 2 ^ 64)"
| "wire_digest mode (VdHash h) = wire_hash mode h"

definition wire_node :: "node_hash_algorithm \<Rightarrow> proof_node \<Rightarrow> bool" where
  "wire_node mode n \<longleftrightarrow> length (pn_key n) \<le> MAX_KEY_NIBBLES \<and> pn_partial_len n \<le> length (pn_key n) \<and>
     list_all (wire_digest mode) (case pn_value_digest n of None \<Rightarrow> [] | Some d \<Rightarrow> [d]) \<and>
     list_all (\<lambda>(_, h). wire_hash mode h) (iter_present (pn_child_hashes n))"

definition wire_pair :: "u8 list \<times> u8 list \<Rightarrow> bool" where
  "wire_pair kv \<longleftrightarrow> length (fst kv) \<le> MAX_KEY_BYTES \<and> length (snd kv) < 2 ^ 64"

fun wire_op :: "batch_op \<Rightarrow> bool" where
  "wire_op (Put k v) = (length k \<le> MAX_KEY_BYTES \<and> length v < 2 ^ 64)"
| "wire_op (Delete k) = (length k \<le> MAX_KEY_BYTES)"
| "wire_op (DeleteRange k) = (length k \<le> MAX_KEY_BYTES)"

text \<open>What is left of a node: a long value is sent as its digest under MerkleDB.\<close>

definition sent_node :: "hash_fns \<Rightarrow> node_hash_algorithm \<Rightarrow> proof_node \<Rightarrow> proof_node" where
  "sent_node hf mode n = n\<lparr>pn_value_digest := map_option (make_hash hf mode) (pn_value_digest n)\<rparr>"

definition wire_range_proof :: "range_proof \<Rightarrow> bool" where
  "wire_range_proof p \<longleftrightarrow>
     list_all (wire_node (rp_hash_mode p)) (rp_start_proof p) \<and> length (rp_start_proof p) < 2 ^ 64 \<and>
     list_all (wire_node (rp_hash_mode p)) (rp_end_proof p) \<and> length (rp_end_proof p) < 2 ^ 64 \<and>
     list_all wire_pair (rp_key_values p) \<and> length (rp_key_values p) < 2 ^ 64"

definition wire_change_proof :: "change_proof \<Rightarrow> bool" where
  "wire_change_proof p \<longleftrightarrow>
     list_all (wire_node (cp_hash_mode p)) (cp_start_proof p) \<and> length (cp_start_proof p) < 2 ^ 64 \<and>
     list_all (wire_node (cp_hash_mode p)) (cp_end_proof p) \<and> length (cp_end_proof p) < 2 ^ 64 \<and>
     list_all wire_op (cp_batch_ops p) \<and> length (cp_batch_ops p) < 2 ^ 64"

definition sent_range_proof :: "hash_fns \<Rightarrow> range_proof \<Rightarrow> range_proof" where
  "sent_range_proof hf p = p\<lparr>rp_start_proof := map (sent_node hf (rp_hash_mode p)) (rp_start_proof p),
     rp_end_proof := map (sent_node hf (rp_hash_mode p)) (rp_end_proof p)\<rparr>"

definition sent_change_proof :: "hash_fns \<Rightarrow> change_proof \<Rightarrow> change_proof" where
  "sent_change_proof hf p = p\<lparr>cp_start_proof := map (sent_node hf (cp_hash_mode p)) (cp_start_proof p),
     cp_end_proof := map (sent_node hf (cp_hash_mode p)) (cp_end_proof p)\<rparr>"

subsection \<open>The header\<close>

lemma length_ph_bytes [simp]: "length (ph_bytes_of (ph_from kind mode)) = 32"
  by (simp add: ph_bytes_of_def ph_from_def PROOF_HEADER_def)

lemma ph_cast_bytes [simp]: "ph_cast (ph_bytes_of (ph_from kind mode)) = ph_from kind mode"
  by (simp add: ph_cast_def ph_bytes_of_def ph_from_def PROOF_HEADER_def)

lemma ph_validate_from [simp]:
  "ph_validate (Some kind) (ph_from kind mode) = Inr \<lparr>vh_proof_type = kind, vh_node_hash_algorithm = mode\<rparr>"
  by (cases mode) (simp_all add: ph_validate_def ph_from_def algorithm_try_from_def)

lemma read_header_from:
  "read_header (proof_reader_new (ph_bytes_of (ph_from kind mode) @ frame)) =
     Inr (ph_from kind mode, \<lparr>pr_data = ph_bytes_of (ph_from kind mode) @ frame, pr_offset = 32\<rparr>)"
proof -
  have "pr_reads read_header (ph_bytes_of (ph_from kind mode)) (ph_from kind mode)"
    unfolding read_header_def by (rule pr_reads_bind_return [OF pr_reads_named [OF pr_reads_chunk]]) simp_all
  then show ?thesis unfolding pr_reads_def by (metis append_Nil length_ph_bytes list.size(3) plus_nat.add_0 proof_reader_new_def)
qed

subsection \<open>What the crates guarantee\<close>

text \<open>
  A varint can be read back whatever follows it, and takes at least one byte. A frame made by the compressor spans itself, declares
  the size of its content, and decompresses to it; the streaming encoder spends at least one byte on each block it flushes.
\<close>

locale wire =
  fixes w :: wire_fns
  assumes decode_encode: "n < 2 ^ 64 \<Longrightarrow> w_decode_var w (w_encode_var w n @ rest) = Some (n, length (w_encode_var w n))"
    and encode_nonempty: "n < 2 ^ 64 \<Longrightarrow> w_encode_var w n \<noteq> []"
    and decode_bounds: "w_decode_var w bs = Some (n, k) \<Longrightarrow> n < 2 ^ 64 \<and> k \<le> length bs"
    and compress_frame: "w_compress w body = Inr frame \<Longrightarrow> w_frame_size w frame = Some (length frame) \<and>
      w_content_size w frame = Some (length body) \<and> w_decompress w frame (length body) = Some body"
    and blocks_frame: "w_compress_blocks w (length (concat bl)) bl = Inr frame \<Longrightarrow>
      w_frame_size w frame = Some (length frame) \<and> w_content_size w frame = Some (length (concat bl)) \<and>
      w_decompress w frame (length (concat bl)) = Some (concat bl) \<and> length bl \<le> length frame"
begin

lemma pr_reads_usize: "n < 2 ^ 64 \<Longrightarrow> pr_reads (read_usize w) (w_encode_var w n) n"
  by (simp add: pr_reads_def read_usize_def pr_remainder_def decode_encode pr_advance_def)

lemma pr_reads_bytes: "length bs < 2 ^ 64 \<Longrightarrow> pr_reads (read_bytes w) (write_byte_seq w bs) bs"
  unfolding read_bytes_def write_byte_seq_def by (rule pr_reads_bind [OF pr_reads_usize pr_reads_slice]) simp_all

lemma pr_reads_array:
  assumes ws: "write_array w f xs = Inr bs" and n: "length xs < 2 ^ 64" "0 < min_bytes"
    and items: "\<And>x cs. x \<in> set xs \<Longrightarrow> f x = Inr cs \<Longrightarrow> pr_reads p cs (g x)"
    and small: "\<And>x cs. x \<in> set xs \<Longrightarrow> f x = Inr cs \<Longrightarrow> min_bytes \<le> length cs"
  shows "pr_reads (read_array w min_bytes p) bs (map g xs)"
proof -
  obtain ds where ds: "write_all f xs = Inr ds" "bs = w_encode_var w (length xs) @ ds"
    using ws by (auto simp: write_array_def rbind_eq_Inr)
  have "write_all f ys = Inr es \<Longrightarrow> set ys \<subseteq> set xs \<Longrightarrow> length ys * min_bytes \<le> length es" for ys es
  proof (induction ys arbitrary: es)
    case (Cons y ys)
    then obtain a b where "f y = Inr a" "write_all f ys = Inr b" "es = a @ b" by (auto simp: rbind_eq_Inr)
    then show ?case using Cons.IH [of b] Cons.prems small [of y a] by auto
  qed simp
  then have enough: "length xs * min_bytes \<le> length ds" using ds(1) by blast
  have "pr_reads (\<lambda>r. rbind (pr_remainder r) (\<lambda>rest.
      if length xs > length rest div min_bytes
      then Inl (invalid_item r ''array length'' ''length less than or equal to the maximum possible items in remaining bytes'')
      else read_items p (length xs) r)) ds (map g xs)"
    using pr_reads_items [OF ds(1), of p g] items enough n(2)
    by (auto simp: pr_reads_def pr_remainder_def less_eq_div_iff_mult_less_eq div_less_iff_less_mult)
  then show ?thesis
    unfolding read_array_def ds(2) by (rule pr_reads_bind [OF pr_reads_named [OF pr_reads_usize [OF n(1)]]])
qed

lemma sent_hash:
  assumes "wire_hash mode h"
  shows "\<exists>bs. write_hash_type w mode h = Inr bs \<and> pr_reads (read_hash_type w mode) bs h"
proof (cases mode)
  case MerkleDB
  with assms obtain b where b: "h = Hash b" "length b = 32" by (cases h) auto
  then have "pr_reads (rd_bind read_trie_hash (\<lambda>h. rd_return (Hash h))) b h"
    by (intro pr_reads_bind_return [OF pr_reads_trie_hash])
  then show ?thesis using b MerkleDB by (simp add: read_hash_type_def)
next
  case Ethereum
  show ?thesis
  proof (cases h)
    case (Hash b)
    then have "pr_reads (rd_bind read_trie_hash (\<lambda>h. rd_return (Hash h))) b h"
      using assms by (intro pr_reads_bind_return [OF pr_reads_trie_hash]) auto
    then show ?thesis using Hash Ethereum by (auto simp: read_hash_type_def intro!: pr_reads_bind_Cons [OF pr_reads_tag])
  next
    case (Rlp r)
    then have "pr_reads (rd_bind (read_bytes w) (\<lambda>b. rd_return (Rlp b))) (write_byte_seq w r) h"
      using assms by (intro pr_reads_bind_return [OF pr_reads_bytes]) auto
    then show ?thesis using Rlp Ethereum by (auto simp: read_hash_type_def intro!: pr_reads_bind_Cons [OF pr_reads_tag])
  qed
qed

lemma sent_digest:
  assumes "wire_digest mode d" "digests_ok hf"
  shows "\<exists>bs. write_value_digest hf w mode d = Inr bs \<and> pr_reads (read_value_digest w mode) bs (make_hash hf mode d)"
proof (cases "make_hash hf mode d")
  case (VdValue v)
  then have "length v < 2 ^ 64" using assms(1) by (cases d) (auto split: if_splits)
  then have "pr_reads (rd_bind (read_bytes w) (\<lambda>v. rd_return (VdValue v))) (write_byte_seq w v) (make_hash hf mode d)"
    using VdValue by (intro pr_reads_bind_return [OF pr_reads_bytes]) simp_all
  then show ?thesis unfolding write_value_digest_def VdValue
    by (auto simp: read_value_digest_def intro!: pr_reads_bind_Cons [OF pr_reads_tag])
next
  case (VdHash h)
  then have "wire_hash mode h" using assms by (cases d) (auto simp: digests_ok_def split: if_splits)
  then obtain bs where bs: "write_hash_type w mode h = Inr bs" "pr_reads (read_hash_type w mode) bs h" using sent_hash by blast
  then have "pr_reads (rd_bind (read_hash_type w mode) (\<lambda>h. rd_return (VdHash h))) bs (make_hash hf mode d)"
    using VdHash by (intro pr_reads_bind_return) simp_all
  then show ?thesis unfolding write_value_digest_def VdHash using bs(1)
    by (auto simp: read_value_digest_def intro!: pr_reads_bind_Cons [OF pr_reads_tag])
qed

lemma write_all_total: "(\<And>x. x \<in> set xs \<Longrightarrow> \<exists>bs. f x = Inr bs) \<Longrightarrow> \<exists>bs. write_all f xs = Inr bs"
proof (induction xs)
  case (Cons x xs)
  then obtain a b where "f x = Inr a" "write_all f xs = Inr b" by (metis list.set_intros)
  then show ?case by simp
qed simp

lemma sent_path:
  assumes "length p \<le> MAX_KEY_NIBBLES"
  shows "pr_reads (read_path w) (write_path w p) p"
proof -
  have small: "length p < 2 ^ 64" using assms by (simp add: MAX_KEY_NIBBLES_def MAX_KEY_BYTES_def)
  have "pr_reads (read_bytes w) (w_encode_var w (length p) @ map as_u8 p) (map as_u8 p)"
    using pr_reads_bytes [of "map as_u8 p"] small by (simp add: write_byte_seq_def)
  then have "pr_reads (read_path w) ((w_encode_var w (length p) @ map as_u8 p) @ []) p"
    unfolding read_path_def by (rule pr_reads_bind) (use assms in \<open>auto simp: pr_reads_def path_from_unpacked\<close>)
  then show ?thesis by (simp add: write_path_def)
qed

lemma sent_proof_node:
  assumes n: "wire_node mode n" and hf: "digests_ok hf"
  shows "\<exists>bs. write_proof_node hf w mode n = Inr bs \<and> pr_reads (read_proof_node w mode) bs (sent_node hf mode n) \<and> 5 \<le> length bs"
proof -
  let ?vd = "pn_value_digest n" and ?hs = "pn_child_hashes n"
  obtain v where v: "write_option (write_value_digest hf w mode) ?vd = Inr v" "v \<noteq> []"
  proof (cases ?vd)
    case (Some d)
    then obtain bs where "write_value_digest hf w mode d = Inr bs" using n sent_digest [OF _ hf, of mode d] by (auto simp: wire_node_def)
    then show thesis using that [of "1 # bs"] Some by simp
  qed (use that [of "[0]"] in simp)
  have rv: "pr_reads (read_option (read_value_digest w mode)) v (map_option (make_hash hf mode) ?vd)"
    by (rule pr_reads_option [OF v(1)]) (use n sent_digest [OF _ hf] in \<open>fastforce simp: wire_node_def\<close>)
  have wh: "wire_hash mode h" if "(i, h) \<in> set (iter_present ?hs)" for i h
    using n that by (auto simp: wire_node_def list_all_iff)
  obtain hb where hb: "write_all (\<lambda>(_, child). write_hash_type w mode child) (iter_present ?hs) = Inr hb"
    using write_all_total [of "iter_present ?hs" "\<lambda>(_, child). write_hash_type w mode child"] wh sent_hash by fast
  have "pr_reads (read_child_hashes (read_hash_type w mode) (map fst (iter_present ?hs)) children_new) hb
      (foldl (\<lambda>cs (i, h). cs(i := Some h)) children_new (iter_present ?hs))"
    by (rule pr_reads_child_hashes [OF hb]) (use wh sent_hash in fastforce)
  then have rh: "pr_reads (read_child_hashes (read_hash_type w mode) (cm_iter_indices (children_bitmap ?hs)) children_new) hb ?hs"
    by (simp add: bitmap_indices update_iter_present)
  have key: "length (pn_key n) \<le> MAX_KEY_NIBBLES" and pl: "pn_partial_len n \<le> length (pn_key n)" using n by (simp_all add: wire_node_def)
  then have small: "pn_partial_len n < 2 ^ 64" "length (pn_key n) < 2 ^ 64" by (simp_all add: MAX_KEY_NIBBLES_def MAX_KEY_BYTES_def)
  let ?mask = "cm_to_le_bytes (children_bitmap ?hs)"
  have mask: "pr_reads read_child_mask ?mask (children_bitmap ?hs)"
    unfolding read_child_mask_def by (intro pr_reads_named pr_reads_bind_return [OF pr_reads_chunk]) simp_all
  have "pr_reads (read_proof_node w mode) (write_path w (pn_key n) @ w_encode_var w (pn_partial_len n) @ v @ ?mask @ hb) (sent_node hf mode n)"
    unfolding read_proof_node_def
    by (rule pr_reads_bind [OF sent_path [OF key]], rule pr_reads_bind [OF pr_reads_usize [OF small(1)]],
        rule pr_reads_bind_check [where x = "()"], (simp add: pr_reads_def leD [OF pl]),
        rule pr_reads_bind [OF rv], rule pr_reads_bind [OF mask], rule pr_reads_bind_return [OF rh])
      (simp add: sent_node_def)
  moreover have "5 \<le> length (write_path w (pn_key n) @ w_encode_var w (pn_partial_len n) @ v @ ?mask @ hb)"
    using v(2) encode_nonempty [OF small(1)] encode_nonempty [OF small(2)] by (simp add: write_path_def Suc_le_eq neq_Nil_conv) force
  ultimately show ?thesis using v(1) hb by (simp add: write_proof_node_def)
qed

lemma read_check_key: "length k \<le> MAX_KEY_BYTES \<Longrightarrow> pr_reads (check_key_bytes k) [] ()"
  by (simp add: pr_reads_def check_key_bytes_def)

lemma key_small: "length k \<le> MAX_KEY_BYTES \<Longrightarrow> length k < 2 ^ 64"
  by (simp add: MAX_KEY_BYTES_def)

lemma write_byte_seq_nonempty: "length bs < 2 ^ 64 \<Longrightarrow> 1 \<le> length (write_byte_seq w bs)"
  using encode_nonempty [of "length bs"] by (simp add: write_byte_seq_def Suc_le_eq)

lemma sent_pair:
  assumes "wire_pair kv"
  shows "\<exists>bs. write_pair w kv = Inr bs \<and> pr_reads (read_pair w) bs kv \<and> 2 \<le> length bs"
proof -
  have k: "length (fst kv) \<le> MAX_KEY_BYTES" and v: "length (snd kv) < 2 ^ 64" using assms by (simp_all add: wire_pair_def)
  note k' = key_small [OF k]
  have "pr_reads (read_pair w) (write_byte_seq w (fst kv) @ write_byte_seq w (snd kv)) kv"
    unfolding read_pair_def
    by (rule pr_reads_bind [OF pr_reads_bytes [OF k']], rule pr_reads_bind_check [OF read_check_key [OF k]],
        rule pr_reads_bind_return [OF pr_reads_bytes [OF v]]) simp
  then show ?thesis using write_byte_seq_nonempty [OF k'] write_byte_seq_nonempty [OF v] by (simp add: write_pair_def)
qed

lemma sent_op:
  assumes "wire_op op"
  shows "\<exists>bs. write_batch_op w op = Inr bs \<and> pr_reads (read_batch_op w) bs op \<and> 2 \<le> length bs"
proof (cases op)
  case (Put k v)
  then have k: "length k \<le> MAX_KEY_BYTES" and v: "length v < 2 ^ 64" using assms by simp_all
  note k' = key_small [OF k]
  have "pr_reads (read_batch_op w) (0 # write_byte_seq w k @ write_byte_seq w v) op"
    unfolding read_batch_op_def
    by (rule pr_reads_bind_Cons [OF pr_reads_tag], simp,
        rule pr_reads_bind [OF pr_reads_bytes [OF k']], rule pr_reads_bind_check [OF read_check_key [OF k]],
        rule pr_reads_bind_return [OF pr_reads_bytes [OF v]]) (simp add: Put)
  then show ?thesis using write_byte_seq_nonempty [OF k'] by (simp add: Put)
next
  case (Delete k)
  then have k: "length k \<le> MAX_KEY_BYTES" using assms by simp
  note k' = key_small [OF k]
  have "pr_reads (read_batch_op w) (1 # write_byte_seq w k) op"
    unfolding read_batch_op_def
    by (rule pr_reads_bind_Cons [OF pr_reads_tag], simp,
        rule pr_reads_bind_end [OF pr_reads_bytes [OF k']], rule pr_reads_bind_check [OF read_check_key [OF k]])
      (simp add: Delete pr_reads_return)
  then show ?thesis using write_byte_seq_nonempty [OF k'] by (simp add: Delete)
next
  case (DeleteRange k)
  then have k: "length k \<le> MAX_KEY_BYTES" using assms by simp
  note k' = key_small [OF k]
  have "pr_reads (read_batch_op w) (2 # write_byte_seq w k) op"
    unfolding read_batch_op_def
    by (rule pr_reads_bind_Cons [OF pr_reads_tag], simp,
        rule pr_reads_bind_end [OF pr_reads_bytes [OF k']], rule pr_reads_bind_check [OF read_check_key [OF k]])
      (simp add: DeleteRange pr_reads_return)
  then show ?thesis using write_byte_seq_nonempty [OF k'] by (simp add: DeleteRange)
qed

subsection \<open>Bodies\<close>

lemma sent_array:
  assumes "list_all ok xs" "length xs < 2 ^ 64" "0 < k"
    and "\<And>x. ok x \<Longrightarrow> \<exists>bs. f x = Inr bs \<and> pr_reads p bs (g x) \<and> k \<le> length bs"
  shows "\<exists>bs. write_array w f xs = Inr bs \<and> pr_reads (read_array w k p) bs (map g xs) \<and> bs \<noteq> []"
proof -
  have each: "\<exists>bs. f x = Inr bs \<and> pr_reads p bs (g x) \<and> k \<le> length bs" if "x \<in> set xs" for x
    using assms(1,4) that by (auto simp: list_all_iff)
  then obtain bs where bs: "write_all f xs = Inr bs" using write_all_total by meson
  have wa: "write_array w f xs = Inr (w_encode_var w (length xs) @ bs)" using bs by (simp add: write_array_def)
  have "pr_reads (read_array w k p) (w_encode_var w (length xs) @ bs) (map g xs)"
    by (rule pr_reads_array [OF wa assms(2,3)]) (use each in fastforce)+
  then show ?thesis using wa encode_nonempty [OF assms(2)] by simp
qed

lemma sent_range_body:
  assumes "wire_range_proof p" "digests_ok hf"
  shows "\<exists>bs. rp_write_body hf w p = Inr bs \<and> pr_reads (read_range_proof w (rp_hash_mode p)) bs (sent_range_proof hf p) \<and> bs \<noteq> []"
proof -
  note node = sent_proof_node [OF _ assms(2)]
  obtain a where a: "write_array w (write_proof_node hf w (rp_hash_mode p)) (rp_start_proof p) = Inr a"
    "pr_reads (read_array w 5 (read_proof_node w (rp_hash_mode p))) a (map (sent_node hf (rp_hash_mode p)) (rp_start_proof p))" "a \<noteq> []"
    using sent_array [where g = "sent_node hf (rp_hash_mode p)" and k = 5, OF _ _ _ node] assms(1) unfolding wire_range_proof_def by (metis zero_less_numeral)
  obtain b where b: "write_array w (write_proof_node hf w (rp_hash_mode p)) (rp_end_proof p) = Inr b"
    "pr_reads (read_array w 5 (read_proof_node w (rp_hash_mode p))) b (map (sent_node hf (rp_hash_mode p)) (rp_end_proof p))"
    using sent_array [where g = "sent_node hf (rp_hash_mode p)" and k = 5, OF _ _ _ node] assms(1) unfolding wire_range_proof_def by (metis zero_less_numeral)
  obtain c where c: "write_array w (write_pair w) (rp_key_values p) = Inr c"
    "pr_reads (read_array w 2 (read_pair w)) c (map (\<lambda>x. x) (rp_key_values p))"
    using sent_array [where g = "\<lambda>x. x" and k = 2, OF _ _ _ sent_pair] assms(1) unfolding wire_range_proof_def by (metis zero_less_numeral)
  have "pr_reads (read_range_proof w (rp_hash_mode p)) (a @ b @ c) (sent_range_proof hf p)"
    unfolding read_range_proof_def
    by (rule pr_reads_bind [OF a(2)], rule pr_reads_bind [OF b(2)], rule pr_reads_bind_return [OF c(2)]) (simp add: sent_range_proof_def)
  then show ?thesis using a b c by (simp add: rp_write_body_def)
qed

lemma sent_change_body:
  assumes "wire_change_proof p" "digests_ok hf"
  shows "\<exists>bs. cp_write_body hf w p = Inr bs \<and> pr_reads (read_change_proof w (cp_hash_mode p)) bs (sent_change_proof hf p) \<and> bs \<noteq> []"
proof -
  note node = sent_proof_node [OF _ assms(2)]
  obtain a where a: "write_array w (write_proof_node hf w (cp_hash_mode p)) (cp_start_proof p) = Inr a"
    "pr_reads (read_array w 5 (read_proof_node w (cp_hash_mode p))) a (map (sent_node hf (cp_hash_mode p)) (cp_start_proof p))" "a \<noteq> []"
    using sent_array [where g = "sent_node hf (cp_hash_mode p)" and k = 5, OF _ _ _ node] assms(1) unfolding wire_change_proof_def by (metis zero_less_numeral)
  obtain b where b: "write_array w (write_proof_node hf w (cp_hash_mode p)) (cp_end_proof p) = Inr b"
    "pr_reads (read_array w 5 (read_proof_node w (cp_hash_mode p))) b (map (sent_node hf (cp_hash_mode p)) (cp_end_proof p))"
    using sent_array [where g = "sent_node hf (cp_hash_mode p)" and k = 5, OF _ _ _ node] assms(1) unfolding wire_change_proof_def by (metis zero_less_numeral)
  obtain c where c: "write_array w (write_batch_op w) (cp_batch_ops p) = Inr c"
    "pr_reads (read_array w 2 (read_batch_op w)) c (map (\<lambda>x. x) (cp_batch_ops p))"
    using sent_array [where g = "\<lambda>x. x" and k = 2, OF _ _ _ sent_op] assms(1) unfolding wire_change_proof_def by (metis zero_less_numeral)
  have "pr_reads (read_change_proof w (cp_hash_mode p)) (a @ b @ c) (sent_change_proof hf p)"
    unfolding read_change_proof_def
    by (rule pr_reads_bind [OF a(2)], rule pr_reads_bind [OF b(2)], rule pr_reads_bind_return [OF c(2)]) (simp add: sent_change_proof_def)
  then show ?thesis using a b c by (simp add: cp_write_body_def)
qed

subsection \<open>Messages\<close>

lemma concat_blocks: "0 < n \<Longrightarrow> concat (blocks_of n bs) = bs \<and> length bs \<le> n * length (blocks_of n bs)"
proof (induction n bs rule: blocks_of.induct)
  case (3 n b bs)
  then show ?case by (auto simp del: take_Suc_Cons drop_Suc_Cons)
qed simp_all

lemma decompress_compressed:
  assumes "write_compressed_body w body = Inr frame" "body \<noteq> []" "length body \<le> MAX_DECOMPRESSED_LEN"
  shows "decompress_body w frame off = Inr body"
proof -
  have size: "length body < 2 ^ 64" using assms(3) by (simp add: MAX_DECOMPRESSED_LEN_def)
  have "w_frame_size w frame = Some (length frame) \<and> w_content_size w frame = Some (length body) \<and>
    w_decompress w frame (length body) = Some body \<and> length body \<le> saturating_mul (length frame) MAX_COMPRESSION_RATIO"
  proof (cases "w_compress w body = Inr frame \<and> length body \<le> saturating_mul (length frame) MAX_COMPRESSION_RATIO")
    case True
    then show ?thesis using compress_frame by blast
  next
    case False
    let ?bl = "blocks_of MAX_COMPRESSION_RATIO body"
    have bl: "concat ?bl = body" "length body \<le> MAX_COMPRESSION_RATIO * length ?bl"
      using concat_blocks [of MAX_COMPRESSION_RATIO body] by (simp_all add: MAX_COMPRESSION_RATIO_def)
    have "w_compress_blocks w (length body) ?bl = Inr frame"
      using assms(1) False by (auto simp: write_compressed_body_def split: sum.splits if_splits)
    then have b: "w_frame_size w frame = Some (length frame)" "w_content_size w frame = Some (length body)"
      "w_decompress w frame (length body) = Some body" "length ?bl \<le> length frame"
      using blocks_frame [of ?bl frame] bl(1) by simp_all
    have "length body \<le> length frame * MAX_COMPRESSION_RATIO"
      using bl(2) b(4) by (metis le_trans mult.commute mult_le_mono2)
    then show ?thesis using b(1-3) size by (simp add: saturating_mul_def)
  qed
  then show ?thesis
    using assms(2,3) by (simp add: decompress_body_def validate_frame_def)
qed

lemma from_slice_written:
  assumes "pr_reads (item mode) body x" "body \<noteq> []" "write_framed_body w body kind mode out = (Inr (), out @ msg)"
  shows "from_slice_of w kind item msg = Inr x \<and> (\<forall>m. check_header_hash_mode msg kind m =
    (if m = mode then Inr () else Inl (HashModeMismatch m mode)))"
proof -
  obtain frame where frame: "write_compressed_body w body = Inr frame" "msg = ph_bytes_of (ph_from kind mode) @ frame"
    and len: "length body \<le> MAX_DECOMPRESSED_LEN"
    using assms(3) by (auto simp: write_framed_body_def split: if_splits sum.splits)
  have item: "item mode (proof_reader_new body) = Inr (x, \<lparr>pr_data = body, pr_offset = length body\<rparr>)"
    using assms(1) unfolding pr_reads_def proof_reader_new_def by (metis append_Nil append_Nil2 list.size(3) plus_nat.add_0)
  have v: "ph_version (ph_from kind mode) = 0" by (simp add: ph_from_def)
  show ?thesis
    unfolding from_slice_of_def check_header_hash_mode_def frame(2) read_header_from
    using item v decompress_compressed [OF frame(1) assms(2) len] by (simp add: pr_remainder_def)
qed

end

subsection \<open>Stored frames\<close>

text \<open>
  The guarantees can be met: base-128 varints, and frames that hold the length of their content and the content.
\<close>

definition leb128_decode :: "u8 list \<Rightarrow> (nat \<times> nat) option" where
  "leb128_decode bs =
     (case leb128_read 10 bs of
        Inr (n, rest) \<Rightarrow> if n < 2 ^ 64 then Some (n, length bs - length rest) else None
      | Inl _ \<Rightarrow> None)"

definition stored_frame :: "u8 list \<Rightarrow> u8 list" where
  "stored_frame body = leb128_encode (length body) @ body"

definition stored_wire :: wire_fns where
  "stored_wire =
     \<lparr>w_encode_var = leb128_encode, w_decode_var = leb128_decode,
      w_frame_size = (\<lambda>f. map_option (\<lambda>(n, k). k + n) (leb128_decode f)),
      w_content_size = (\<lambda>f. map_option fst (leb128_decode f)),
      w_decompress = (\<lambda>f cap. Option.bind (leb128_decode f) (\<lambda>(n, k). if n \<le> cap then Some (take n (drop k f)) else None)),
      w_compress = (\<lambda>body. if length body < 2 ^ 64 then Inr (stored_frame body) else Inl OutOfMemory),
      w_compress_blocks = (\<lambda>n bl. if n < 2 ^ 64 \<and> [] \<notin> set bl then Inr (stored_frame (concat bl)) else Inl OutOfMemory)\<rparr>"

lemma leb128_encode_nonempty: "leb128_encode n \<noteq> []"
  by (subst leb128_encode.simps) simp

lemma leb128_decode_encode: "n < 2 ^ 64 \<Longrightarrow> leb128_decode (leb128_encode n @ rest) = Some (n, length (leb128_encode n))"
  using leb128_read_encode [of n 10 rest] by (simp add: leb128_decode_def)

lemma length_le_concat: "[] \<notin> set bl \<Longrightarrow> length bl \<le> length (concat bl)"
proof (induction bl)
  case (Cons b bl)
  then show ?case by (cases b) auto
qed simp

interpretation stored: wire stored_wire
proof
  fix bs n k assume "w_decode_var stored_wire bs = Some (n, k)"
  then show "n < 2 ^ 64 \<and> k \<le> length bs" by (auto simp: stored_wire_def leb128_decode_def split: sum.splits if_splits)
next
  fix bl frame assume "w_compress_blocks stored_wire (length (concat bl)) bl = Inr frame"
  then have f: "frame = stored_frame (concat bl)" "length (concat bl) < 2 ^ 64" "[] \<notin> set bl"
    by (auto simp: stored_wire_def simp del: length_concat split: if_splits)
  then show "w_frame_size stored_wire frame = Some (length frame) \<and> w_content_size stored_wire frame = Some (length (concat bl)) \<and>
      w_decompress stored_wire frame (length (concat bl)) = Some (concat bl) \<and> length bl \<le> length frame"
    using length_le_concat [OF f(3)] by (simp add: stored_wire_def stored_frame_def leb128_decode_encode del: length_concat)
qed (auto simp: stored_wire_def stored_frame_def leb128_decode_encode leb128_encode_nonempty split: if_splits)

subsection \<open>The shapes of what is read\<close>

definition yields_only :: "('a \<Rightarrow> bool) \<Rightarrow> 'a pread \<Rightarrow> bool" where
  "yields_only P p \<longleftrightarrow> (\<forall>r x r'. p r = Inr (x, r') \<longrightarrow> P x)"

lemma yields_only_bind: "(\<And>x. Q x \<Longrightarrow> yields_only P (f x)) \<Longrightarrow> yields_only Q p \<Longrightarrow> yields_only P (rd_bind p f)"
  by (fastforce simp: yields_only_def rd_bind_def rbind_eq_Inr)

lemma yields_only_named: "yields_only P p \<Longrightarrow> yields_only P (rd_named item p)"
  by (auto simp: yields_only_def rd_named_def split: sum.splits)

lemma yields_only_True: "yields_only (\<lambda>_. True) p"
  by (simp add: yields_only_def)

lemma yields_only_return: "P x \<Longrightarrow> yields_only P (rd_return x)"
  by (simp add: yields_only_def rd_return_def)

lemma yields_only_fail: "yields_only P (\<lambda>r. Inl (e r))"
  by (simp add: yields_only_def)

lemma yields_only_items: "yields_only P p \<Longrightarrow> yields_only (list_all P) (read_items p n)"
  by (induction n) (auto intro!: yields_only_bind [where Q = P] yields_only_bind [where Q = "list_all P"] yields_only_return)

lemma yields_only_array: "yields_only P p \<Longrightarrow> yields_only (list_all P) (read_array w k p)"
  using yields_only_items [of P p] unfolding read_array_def
  by (intro yields_only_bind [OF _ yields_only_True]) (fastforce simp: yields_only_def rbind_eq_Inr split: if_splits)

definition full_hash :: "hash_type \<Rightarrow> bool" where
  "full_hash h \<longleftrightarrow> length (HashType_as_ref h) = 32 \<and> (\<exists>b. h = Hash b)"

lemma yields_only_hash: "yields_only full_hash (read_hash_type w MerkleDB)"
proof -
  have "yields_only (\<lambda>h. length h = 32) (read_chunk 32)"
    by (auto simp: yields_only_def read_chunk_def rbind_eq_Inr split: if_splits)
  then have "yields_only (\<lambda>h. length h = 32) read_trie_hash" unfolding read_trie_hash_def by (rule yields_only_named)
  then show ?thesis unfolding read_hash_type_def
    by (auto simp: full_hash_def HashType_as_ref_def intro!: yields_only_return intro: yields_only_bind)
qed

lemma yields_only_digest: "yields_only value_ok (read_option (read_value_digest w MerkleDB))"
proof -
  have "yields_only (\<lambda>d. value_ok (Some d)) (read_value_digest w MerkleDB)"
    unfolding read_value_digest_def
    by (rule yields_only_bind [OF _ yields_only_True])
      (auto simp: value_ok_def full_hash_def intro!: yields_only_fail yields_only_return
         intro: yields_only_bind [OF _ yields_only_True] yields_only_bind [OF _ yields_only_hash])
  then show ?thesis unfolding read_option_def
    by (intro yields_only_bind [OF _ yields_only_True])
      (auto simp: value_ok_def [of None] intro!: yields_only_fail yields_only_return intro: yields_only_bind)
qed

lemma yields_only_hashes:
  "hashed_children hs \<Longrightarrow> yields_only hashed_children (read_child_hashes (read_hash_type w MerkleDB) cs hs)"
proof (induction cs arbitrary: hs)
  case (Cons c cs)
  then show ?case unfolding read_child_hashes.simps
    by (intro yields_only_bind [OF _ yields_only_hash] Cons.IH) (auto simp: hashed_children_def full_hash_def)
qed (auto intro: yields_only_return)

lemma yields_only_path: "yields_only (\<lambda>p. length p \<le> MAX_KEY_NIBBLES) (read_path w)"
proof -
  have "path_from_unpacked_bytes bs = Some p \<Longrightarrow> length p = length bs" for bs p
    by (induction bs arbitrary: p) (auto split: bind_splits)
  then show ?thesis unfolding read_path_def
    by (intro yields_only_bind [OF _ yields_only_True]) (auto simp: yields_only_def split: if_splits option.splits)
qed

lemma yields_only_node: "yields_only node_fits (read_proof_node w MerkleDB)"
  unfolding read_proof_node_def
  by (rule yields_only_bind [OF _ yields_only_path], rule yields_only_bind [OF _ yields_only_True],
      rule yields_only_bind [OF _ yields_only_True], rule yields_only_bind [OF _ yields_only_digest],
      rule yields_only_bind [OF _ yields_only_True], rule yields_only_bind [OF _ yields_only_hashes], rule yields_only_return)
    (auto simp: node_fits_def hashed_children_def children_new_def MAX_KEY_NIBBLES_def MAX_KEY_BYTES_def)

lemma decoded_nodes_fit:
  assumes "rp_from_slice w data = Inr p" "rp_hash_mode p = MerkleDB"
  shows "list_all node_fits (rp_start_proof p) \<and> list_all node_fits (rp_end_proof p)"
proof -
  obtain mode r r' where r: "read_range_proof w mode r = Inr (p, r')"
    using assms(1) unfolding rp_from_slice_def from_slice_of_def by (auto simp: rbind_eq_Inr split: if_splits)
  have "yields_only (\<lambda>p. rp_hash_mode p = mode) (read_range_proof w mode)"
    unfolding read_range_proof_def by (intro yields_only_bind [OF _ yields_only_True] yields_only_return) simp
  then have mode: "mode = MerkleDB" using r assms(2) by (auto simp: yields_only_def)
  have "yields_only (\<lambda>p. list_all node_fits (rp_start_proof p) \<and> list_all node_fits (rp_end_proof p)) (read_range_proof w MerkleDB)"
    unfolding read_range_proof_def
    by (rule yields_only_bind [OF _ yields_only_array [OF yields_only_node]], rule yields_only_bind [OF _ yields_only_array [OF yields_only_node]],
        rule yields_only_bind [OF _ yields_only_True], rule yields_only_return) simp
  then show ?thesis using r mode by (auto simp: yields_only_def)
qed

end
