(* ===== verification/Proof_Properties.thy ===== *)
theory Proof_Properties
  imports Proof_Gen Wire_Laws Hash_Properties
begin

section \<open>What proofs guarantee\<close>

text \<open>
  The properties of single-key proofs and of the wire format. The digests and the crates are parameters:
  soundness holds for any digests, naming the strings that collide where it would fail.
\<close>

subsection \<open>Sample proofs\<close>

definition sample_tr :: trie_reader where
  "sample_tr = \<lparr>tr_root = Some sample_hashed_root, tr_read = sample_reader, tr_must_recompute = False, tr_algorithm = MerkleDB\<rparr>"

definition sample_root_hash :: trie_hash where
  "sample_root_hash = hf_sha256 sample_hf (merkledb_write_preimage sample_hf (trie_shunt sample_hf sample_trie []))"

definition sample_range_proof :: range_proof where
  "sample_range_proof = \<lparr>rp_start_proof = [trie_proof_node sample_hf sample_trie []], rp_end_proof = [],
     rp_key_values = [([], [1])], rp_hash_mode = MerkleDB\<rparr>"

definition sample_message :: "u8 list" where
  "sample_message = snd (rp_write_to_vec sample_hf stored_wire sample_range_proof [])"

definition sample_change_proof :: change_proof where
  "sample_change_proof = \<lparr>cp_start_proof = [trie_proof_node sample_hf sample_trie []], cp_end_proof = [],
     cp_batch_ops = [Put [] [1], Delete [2], DeleteRange [3]], cp_hash_mode = MerkleDB\<rparr>"

lemma sample_root_hash: "merkledb_trie_hash sample_hf sample_trie [] = Hash sample_root_hash"
  by (simp add: trie_hash_shunt sample_root_hash_def)

lemma sample_committed: "committed sample_hf sample_reader [] sample_hashed_root sample_trie"
  unfolding sample_hashed_root_def sample_trie_def
  by (rule committed_Branch) (auto simp: children_new_def sample_reader_def intro: committed_Leaf split: if_splits)

lemma sample_trie_valid: "valid_t sample_trie" "canon sample_trie" "bounded_keys (lookup_t sample_trie)"
  using sample_wf by (auto simp: wf_store_def)

lemma bounded_keys_even: "bounded_keys (lookup_t t) \<Longrightarrow> even_keys [] t"
  by (auto simp: even_keys_def bounded_keys_def)

lemma bounded_keys_short: "bounded_keys (lookup_t t) \<Longrightarrow> short_keys [] t"
  by (fastforce simp: short_keys_def bounded_keys_def MAX_KEY_BYTES_def)

lemma sample_node_wire: "wire_node MerkleDB (trie_proof_node sample_hf sample_trie [])"
proof -
  have "length (hf_sha256 sample_hf bs) = 32" for bs using sample_hf_ok(1) by (simp add: digests_ok_def)
  then show ?thesis
    by (auto simp: wire_node_def list_all_iff trie_shunt_child trie_hash_shunt MAX_KEY_NIBBLES_def trie_proof_node_def sample_trie_def
        shunt_new_def split: if_splits)
qed

lemma leb128_small: "w_encode_var stored_wire 0 = [0]" "w_encode_var stored_wire 1 = [1]" "w_encode_var stored_wire (Suc 0) = [1]"
  "w_encode_var stored_wire (Suc (Suc (Suc 0))) = [3]"
  by (simp_all add: stored_wire_def leb128_encode.simps)

lemma sample_node_bytes:
  "\<exists>bs. write_proof_node sample_hf stored_wire MerkleDB (trie_proof_node sample_hf sample_trie []) = Inr bs \<and> length bs = 40"
proof -
  have len: "length (hf_sha256 sample_hf bs) = 32" for bs using sample_hf_ok(1) by (simp add: digests_ok_def)
  have "tvalue sample_trie = Some [1]" "tpath sample_trie = []" by (simp_all add: sample_trie_def)
  moreover obtain h where "iter_present (sh_child_hashes (trie_shunt sample_hf sample_trie [])) = [(0, Hash h)]" "length h = 32"
    using len by (simp add: iter_present_def children_iter_def pc_ALL_def trie_shunt_child sample_trie_def map_filter_simps shunt_new_def trie_hash_shunt)
  ultimately show ?thesis
    by (simp add: write_proof_node_def trie_proof_node_def write_path_def write_value_digest_def write_byte_seq_def leb128_small)
qed

lemma sample_node_sent: "sent_node hf MerkleDB (trie_proof_node sample_hf sample_trie []) = trie_proof_node sample_hf sample_trie []"
  by (simp add: sent_node_def trie_proof_node_def sample_trie_def)

lemma stored_compresses: "length body \<le> MAX_DECOMPRESSED_LEN \<Longrightarrow> \<exists>frame. write_compressed_body stored_wire body = Inr frame"
  by (auto simp: write_compressed_body_def stored_wire_def MAX_DECOMPRESSED_LEN_def stored_frame_def saturating_mul_def
      MAX_COMPRESSION_RATIO_def)

lemma sample_range_wire: "wire_range_proof sample_range_proof"
  by (simp add: wire_range_proof_def sample_range_proof_def sample_node_wire wire_pair_def)

lemma sample_change_wire: "wire_change_proof sample_change_proof"
  by (simp add: wire_change_proof_def sample_change_proof_def sample_node_wire MAX_KEY_BYTES_def)

lemma stored_framed:
  "length body \<le> MAX_DECOMPRESSED_LEN \<Longrightarrow> \<exists>msg. write_framed_body stored_wire body kind mode [] = (Inr (), msg)"
  using stored_compresses [of body] by (auto simp: write_framed_body_def)

lemma sample_written: "rp_write_to_vec sample_hf stored_wire sample_range_proof [] = (Inr (), sample_message)"
proof -
  obtain nb where nb: "write_proof_node sample_hf stored_wire MerkleDB (trie_proof_node sample_hf sample_trie []) = Inr nb" "length nb = 40"
    using sample_node_bytes by blast
  then obtain body where body: "rp_write_body sample_hf stored_wire sample_range_proof = Inr body" "length body \<le> MAX_DECOMPRESSED_LEN"
    by (simp add: rp_write_body_def sample_range_proof_def write_array_def write_pair_def write_byte_seq_def MAX_DECOMPRESSED_LEN_def leb128_small)
  then show ?thesis using stored_framed [OF body(2), of RangeProof MerkleDB]
    by (auto simp: sample_message_def rp_write_to_vec_def sample_range_proof_def)
qed

lemma sample_range_sent: "sent_range_proof sample_hf sample_range_proof = sample_range_proof"
  by (simp add: sent_range_proof_def sample_range_proof_def sample_node_sent)

lemma sample_change_written: "\<exists>msg. cp_write_to_vec sample_hf stored_wire sample_change_proof [] = (Inr (), msg)"
proof -
  obtain nb where nb: "write_proof_node sample_hf stored_wire MerkleDB (trie_proof_node sample_hf sample_trie []) = Inr nb" "length nb = 40"
    using sample_node_bytes by blast
  then obtain body where body: "cp_write_body sample_hf stored_wire sample_change_proof = Inr body" "length body \<le> MAX_DECOMPRESSED_LEN"
    by (simp add: cp_write_body_def sample_change_proof_def write_array_def write_byte_seq_def MAX_DECOMPRESSED_LEN_def leb128_small)
  then show ?thesis using stored_framed [OF body(2), of ChangeProof MerkleDB] by (simp add: cp_write_to_vec_def sample_change_proof_def)
qed

lemma range_proof_read_back:
  assumes "wire w" "digests_ok hf" "wire_range_proof p" "rp_write_to_vec hf w p out = (Inr (), out @ msg)"
  shows "rp_from_slice w msg = Inr (sent_range_proof hf p) \<and>
    rp_from_slice_in_mode w msg mode =
      (if mode = rp_hash_mode p then Inr (sent_range_proof hf p) else Inl (HashModeMismatch mode (rp_hash_mode p)))"
proof -
  obtain body where body: "rp_write_body hf w p = Inr body" "body \<noteq> []"
    "pr_reads (read_range_proof w (rp_hash_mode p)) body (sent_range_proof hf p)"
    using wire.sent_range_body [OF assms(1,3,2)] by blast
  then have "write_framed_body w body RangeProof (rp_hash_mode p) out = (Inr (), out @ msg)"
    using assms(4) by (simp add: rp_write_to_vec_def)
  from wire.from_slice_written [where item = "read_range_proof w" and mode = "rp_hash_mode p", OF assms(1) body(3,2) this] show ?thesis
    by (simp add: rp_from_slice_def rp_from_slice_in_mode_def)
qed

lemma sample_decoded: "rp_from_slice stored_wire sample_message = Inr sample_range_proof"
  using range_proof_read_back [OF stored.wire_axioms sample_hf_ok(1) sample_range_wire, of "[]" sample_message]
  by (simp add: sample_written sample_range_sent)

subsection \<open>Single keys\<close>

text \<open>
  C8. An accepted proof is right. Let a proof of a MerkleDB trie be read from any bytes, and let its start or its
  end proof be accepted by \<open>Proof::verify\<close> for a key, a value or its absence, and the root hash of a canonical
  trie with keys below \<open>2 ^ 62\<close> nibbles. Then the trie holds exactly that for the key, unless two different
  strings collide under SHA-256: one that was hashed for the proof or the expected value, and one that is hashed for the trie.
\<close>

theorem accepted_proof_is_right:
  assumes "varint (hf_encode_var hf) rdv" "digests_ok hf"
    and "canon t" "valid_t t" "short_keys [] t" "merkledb_trie_hash hf t [] = Hash root_hash"
    and "rp_from_slice w data = Inr p" "rp_hash_mode p = MerkleDB" "ns = rp_start_proof p \<or> ns = rp_end_proof p"
    and "proof_verify hf MerkleDB ns key expected root_hash = Inr ()"
  shows "lookup_t t (nibbles key) = expected \<or>
    (\<exists>x y. x \<in> proof_inputs hf ns \<union> set_option expected \<and> y \<in> hash_inputs hf t [] \<and> x \<noteq> y \<and>
       hf_sha256 hf x = hf_sha256 hf y)"
proof -
  have "list_all node_fits ns" using decoded_nodes_fit [OF assms(7,8)] assms(9) by blast
  from proof_verify_sound [OF assms(1-5) this assms(6,10)] show ?thesis by (auto simp: collide_def)
qed

theorem accepted_proof_is_right_witness:
  "rp_from_slice stored_wire sample_message = Inr sample_range_proof \<and>
   proof_verify sample_hf MerkleDB (rp_start_proof sample_range_proof) [] (Some [1]) sample_root_hash = Inr () \<and>
   (lookup_t sample_trie (nibbles []) = Some [1] \<or>
    (\<exists>x y. x \<in> proof_inputs sample_hf (rp_start_proof sample_range_proof) \<union> set_option (Some [1]) \<and>
       y \<in> hash_inputs sample_hf sample_trie [] \<and> x \<noteq> y \<and> hf_sha256 sample_hf x = hf_sha256 sample_hf y))"
proof -
  have "path_nodes sample_hf sample_trie [] [trie_proof_node sample_hf sample_trie []] (nibbles [])" by simp
  from path_nodes_accepted [OF this bounded_keys_even [OF sample_trie_valid(3)] valid_path_nibbles sample_trie_valid(1), of False]
  have ok: "proof_verify sample_hf MerkleDB (rp_start_proof sample_range_proof) [] (Some [1]) sample_root_hash = Inr ()"
    by (simp add: proof_verify_def sample_range_proof_def proof_value_digest_eq sample_root_hash sample_lookup rbind_eq_Inr)
  have "rp_hash_mode sample_range_proof = MerkleDB" by (simp add: sample_range_proof_def)
  from accepted_proof_is_right [OF sample_hf_ok(2,1) sample_trie_valid(2,1) bounded_keys_short [OF sample_trie_valid(3)]
      sample_root_hash sample_decoded this disjI1 [OF refl] ok]
  show ?thesis using sample_decoded ok by blast
qed

text \<open>
  C9. The proof of a key is accepted for exactly what the trie holds. In a committed MerkleDB trie, where every
  child carries its hash, \<open>Merkle::prove\<close> succeeds for every key, present or not, and \<open>Proof::verify\<close> accepts the
  proof against the root hash for the value of the key, or for its absence, and for nothing else.
\<close>

theorem proof_of_key_accepted:
  assumes "committed hf rd [] n t" "valid_t t" "bounded_keys (lookup_t t)"
    and "tr_read tr = rd" "tr_root tr = Some n" "tr_algorithm tr = MerkleDB"
    and "merkledb_trie_hash hf t [] = Hash root_hash"
  shows "\<exists>ns. prove hf tr key = Inr ns \<and>
    (\<forall>expected. proof_verify hf MerkleDB ns key expected root_hash = Inr () \<longleftrightarrow> expected = lookup_t t (nibbles key))"
proof -
  obtain ns where ns: "prove hf tr key = Inr ns"
    "proof_value_digest hf MerkleDB ns key root_hash = Inr (map_option VdValue (lookup_t t (nibbles key)))"
    using prove_accepted [OF assms(1,2) bounded_keys_even [OF assms(3)] assms(4-7)] by blast
  have "verify_opt_value_digest hf expected (map_option VdValue v) = Inr () \<longleftrightarrow> expected = v" for expected v
    by (cases expected; cases v) auto
  then show ?thesis using ns by (simp add: proof_verify_def)
qed

theorem proof_of_key_accepted_witness:
  "(\<exists>ns. prove sample_hf sample_tr [3] = Inr ns \<and> proof_verify sample_hf MerkleDB ns [3] (Some [7]) sample_root_hash = Inr ()) \<and>
   (\<exists>ns. prove sample_hf sample_tr [4] = Inr ns \<and> proof_verify sample_hf MerkleDB ns [4] None sample_root_hash = Inr ())"
proof -
  have key: "nibbles [3] = [0, 3]" "nibbles [4] = [0, 4]" by code_simp+
  have tr: "tr_read sample_tr = sample_reader" "tr_root sample_tr = Some sample_hashed_root" "tr_algorithm sample_tr = MerkleDB"
    by (simp_all add: sample_tr_def)
  note use = proof_of_key_accepted [OF sample_committed sample_trie_valid(1,3) tr sample_root_hash]
  show ?thesis using use [of "[3]"] use [of "[4]"] by (auto simp: key sample_lookup)
qed

subsection \<open>The wire format\<close>

text \<open>
  C19. A range proof survives the wire. Let the node keys have at most 2048 nibbles, the keys at most 1024 bytes and
  every hash the form the scheme can store, and let \<open>write_to_vec\<close> succeed. Then \<open>from_slice\<close> reads the message back
  to the same proof, with long values replaced by their digests under MerkleDB;
  \<open>from_slice_in_mode\<close> gives it too when the modes agree, and \<open>HashModeMismatch\<close> when they do not.
\<close>

theorem range_proof_roundtrip:
  assumes "wire w" "digests_ok hf" "wire_range_proof p" "rp_write_to_vec hf w p out = (Inr (), out @ msg)"
  shows "rp_from_slice w msg = Inr (sent_range_proof hf p) \<and>
    rp_from_slice_in_mode w msg mode =
      (if mode = rp_hash_mode p then Inr (sent_range_proof hf p) else Inl (HashModeMismatch mode (rp_hash_mode p)))"
  by (rule range_proof_read_back [OF assms])

theorem range_proof_roundtrip_witness:
  "wire stored_wire \<and> wire_range_proof sample_range_proof \<and>
   rp_write_to_vec sample_hf stored_wire sample_range_proof [] = (Inr (), sample_message) \<and>
   rp_from_slice_in_mode stored_wire sample_message MerkleDB = Inr sample_range_proof \<and>
   rp_from_slice_in_mode stored_wire sample_message Ethereum = Inl (HashModeMismatch Ethereum MerkleDB)"
proof -
  have mode: "rp_hash_mode sample_range_proof = MerkleDB" by (simp add: sample_range_proof_def)
  have "rp_write_to_vec sample_hf stored_wire sample_range_proof [] = (Inr (), [] @ sample_message)"
    using sample_written by simp
  note use = range_proof_roundtrip [OF stored.wire_axioms sample_hf_ok(1) sample_range_wire this]
  show ?thesis using use [of MerkleDB] use [of Ethereum] sample_written sample_range_wire stored.wire_axioms by (simp add: sample_range_sent mode)
qed

text \<open>
  C20. A change proof survives the wire: under the same conditions as for a range proof \<open>from_slice\<close> reads the
  message of a change proof back to the same nodes and the same batch operations, and no message is read as both kinds.
\<close>

theorem change_proof_roundtrip:
  assumes "wire w" "digests_ok hf" "wire_change_proof p" "cp_write_to_vec hf w p out = (Inr (), out @ msg)"
  shows "cp_from_slice w msg = Inr (sent_change_proof hf p) \<and>
    cp_from_slice_in_mode w msg (cp_hash_mode p) = Inr (sent_change_proof hf p) \<and>
    rp_from_slice w msg = Inl (InvalidHeaderError (InvalidProofType 2 (Some RangeProof)))"
proof -
  obtain body where body: "cp_write_body hf w p = Inr body" "body \<noteq> []"
    "pr_reads (read_change_proof w (cp_hash_mode p)) body (sent_change_proof hf p)"
    using wire.sent_change_body [OF assms(1,3,2)] by blast
  then have fr: "write_framed_body w body ChangeProof (cp_hash_mode p) out = (Inr (), out @ msg)"
    using assms(4) by (simp add: cp_write_to_vec_def)
  then obtain frame where msg: "msg = ph_bytes_of (ph_from ChangeProof (cp_hash_mode p)) @ frame"
    by (auto simp: write_framed_body_def split: if_splits sum.splits)
  have "ph_validate (Some RangeProof) (ph_from ChangeProof m) = Inl (InvalidProofType 2 (Some RangeProof))" for m
    by (cases m) (simp_all add: ph_validate_def ph_from_def algorithm_try_from_def proof_type_byte_def proof_type_new_def)
  then have "rp_from_slice w msg = Inl (InvalidHeaderError (InvalidProofType 2 (Some RangeProof)))"
    by (simp add: rp_from_slice_def from_slice_of_def msg read_header_from)
  with wire.from_slice_written [where item = "read_change_proof w" and mode = "cp_hash_mode p", OF assms(1) body(3,2) fr] show ?thesis
    by (simp add: cp_from_slice_def cp_from_slice_in_mode_def)
qed

theorem change_proof_roundtrip_witness:
  "wire_change_proof sample_change_proof \<and>
   (\<exists>msg. cp_write_to_vec sample_hf stored_wire sample_change_proof [] = (Inr (), msg) \<and>
      cp_from_slice stored_wire msg = Inr (sent_change_proof sample_hf sample_change_proof) \<and>
      rp_from_slice stored_wire msg = Inl (InvalidHeaderError (InvalidProofType 2 (Some RangeProof))))"
proof -
  obtain msg where msg: "cp_write_to_vec sample_hf stored_wire sample_change_proof [] = (Inr (), [] @ msg)"
    using sample_change_written by auto
  show ?thesis
    using change_proof_roundtrip [OF stored.wire_axioms sample_hf_ok(1) sample_change_wire msg] msg sample_change_wire by auto
qed

end
