(* ===== verification/Persist.thy ===== *)
theory Persist
  imports Alloc_Reach Node_Read Hashing
begin

section \<open>Writing a committed revision to storage\<close>

text \<open>
  \<open>storage/src/nodestore/persist.rs\<close>: the iterator over the nodes of a revision that are not on storage yet, the
  loop that serializes, places and writes them in batches, and \<open>persist\<close>, which then records the root in the
  header; \<open>NodeStore::open\<close> of \<open>storage/src/nodestore/mod.rs\<close>, which starts from that header.

  A \<open>MaybePersistedNode\<close> is a cell that a parent shares with whoever persists it. Here a cell is named by its
  position below the root, the list of the components that lead to it, and \<open>cells\<close> maps the cells that
  changed to their new state; the state of any other cell is the one in the tree. The node inside a cell never
  changes. The node cache that \<open>write_cached_nodes\<close> also fills is not part of this model.
\<close>

type_synonym cell = "pc list"
type_synonym cells = "cell \<rightharpoonup> maybe_persisted"

text \<open>A handle on a cell: its position, and the state it had in the tree.\<close>

type_synonym handle = "cell \<times> maybe_persisted"

definition cell_state :: "cells \<Rightarrow> handle \<Rightarrow> maybe_persisted" where
  "cell_state cells hn = (case cells (fst hn) of Some m \<Rightarrow> m | None \<Rightarrow> snd hn)"

fun child_now :: "cells \<Rightarrow> cell \<Rightarrow> child \<Rightarrow> child" where
  "child_now cells cid (ChildMaybePersisted m h) = ChildMaybePersisted (cell_state cells (cid, m)) h"
| "child_now cells cid ch = ch"

fun node_now :: "cells \<Rightarrow> cell \<Rightarrow> node \<Rightarrow> node" where
  "node_now cells cid (Branch p v cs) = Branch p v (\<lambda>c. map_option (child_now cells (cid @ [c])) (cs c))"
| "node_now cells cid (Leaf p v) = Leaf p v"

text \<open>Reading the node of a cell in memory is expected to succeed.\<close>

definition expect_node :: "cells \<Rightarrow> reader \<Rightarrow> handle \<Rightarrow> node io_result" where
  "expect_node cells rd hn = (case as_shared_node (cell_state cells hn) rd of Inl _ \<Rightarrow> Inl Panic | Inr n \<Rightarrow> Inr n)"

subsection \<open>The nodes that are not persisted\<close>

record un_iter =
  ui_stack :: "handle list"
  ui_children :: "handle list list"

text \<open>The tops of the two stacks are the heads of the lists.\<close>

fun unpersisted_child :: "cells \<Rightarrow> cell \<Rightarrow> pc \<times> child \<Rightarrow> handle option" where
  "unpersisted_child cells cid (c, ChildMaybePersisted m h) =
     (case unpersisted (cell_state cells (cid @ [c], m)) of None \<Rightarrow> None | Some _ \<Rightarrow> Some (cid @ [c], m))"
| "unpersisted_child cells cid (c, ch) = None"

definition unpersisted_children :: "cells \<Rightarrow> cell \<Rightarrow> child option children \<Rightarrow> handle list" where
  "unpersisted_children cells cid cs = List.map_filter (unpersisted_child cells cid) (iter_present cs)"

definition un_iter_new :: "cells \<Rightarrow> reader \<Rightarrow> maybe_persisted option \<Rightarrow> un_iter io_result" where
  "un_iter_new cells rd root =
     (case root of
        None \<Rightarrow> Inr \<lparr>ui_stack = [], ui_children = []\<rparr>
      | Some root \<Rightarrow>
          rbind (expect_node cells rd ([], root)) (\<lambda>n.
            case n of
              Branch _ _ cs \<Rightarrow> Inr \<lparr>ui_stack = [([], root)], ui_children = [unpersisted_children cells [] cs]\<rparr>
            | Leaf _ _ \<Rightarrow> Inr \<lparr>ui_stack = [([], root)], ui_children = []\<rparr>))"

partial_function (option) un_iter_next ::
  "cells \<Rightarrow> reader \<Rightarrow> un_iter \<Rightarrow> (handle option io_result \<times> un_iter) option" where
  "un_iter_next cells rd it =
     (case ui_children it of
        [] \<Rightarrow>
          (case ui_stack it of
             [] \<Rightarrow> Some (Inr None, it)
           | x # stack \<Rightarrow> Some (Inr (Some x), it\<lparr>ui_stack := stack\<rparr>))
      | [] # iters \<Rightarrow> un_iter_next cells rd (it\<lparr>ui_children := iters\<rparr>)
      | (next_child # current) # iters \<Rightarrow>
          (case expect_node cells rd next_child of
             Inl e \<Rightarrow> Some (Inl e, it\<lparr>ui_children := current # iters\<rparr>)
           | Inr (Branch _ _ cs) \<Rightarrow>
               let unpersisted = unpersisted_children cells (fst next_child) cs
               in un_iter_next cells rd
                    \<lparr>ui_stack = next_child # ui_stack it,
                     ui_children = (if unpersisted \<noteq> [] then unpersisted # current # iters else current # iters)\<rparr>
           | Inr (Leaf _ _) \<Rightarrow> Some (Inr (Some next_child), it\<lparr>ui_children := current # iters\<rparr>)))"

subsection \<open>Serializing and writing\<close>

record persist_state =
  pst_alloc :: allocator
  pst_cells :: cells

type_synonym allocated_object = "u8 list \<times> laddr \<times> cell"

definition serialize_node_to_bump ::
  "(nat \<Rightarrow> u8 list) \<Rightarrow> nat reader_fn \<Rightarrow> node_hash_algorithm \<Rightarrow> node \<Rightarrow> (allocator, u8 list \<times> laddr \<times> nat) sresult" where
  "serialize_node_to_bump enc rdv alg shared_node al =
     (case as_bytes enc alg shared_node [] of
        Inl e \<Rightarrow> (Inl e, al)
      | Inr (bytes, area_size_index) \<Rightarrow>
          (case allocate_node rdv bytes al of
             (Inl e, al) \<Rightarrow> (Inl e, al)
           | (Inr (address, _), al) \<Rightarrow>
               (Inr (bytes, address, AREA_SIZES ! unat area_size_index), al)))"

text \<open>\<open>write_cached_nodes\<close> expects every node of the batch to be allocated.\<close>

fun mark_persisted :: "cell list \<Rightarrow> cells \<Rightarrow> unit io_result \<times> cells" where
  "mark_persisted [] cells = (Inr (), cells)"
| "mark_persisted (cid # cids) cells =
     (case Option.bind (cells cid) allocated_info of
        None \<Rightarrow> (Inl Panic, cells)
      | Some (addr, _) \<Rightarrow> mark_persisted cids (cells(cid \<mapsto> Persisted addr)))"

definition write_objects :: "allocated_object list \<Rightarrow> (persist_state, unit) sresult" where
  "write_objects objs s =
     (case write_batch (map (\<lambda>(data, addr, _). (unat addr, data)) objs) (al_storage (pst_alloc s)) of
        (Inl e, st) \<Rightarrow> (Inl e, s\<lparr>pst_alloc := (pst_alloc s)\<lparr>al_storage := st\<rparr>\<rparr>)
      | (Inr _, st) \<Rightarrow>
          (case mark_persisted (map (\<lambda>(_, _, cid). cid) objs) (pst_cells s) of
             (r, cells) \<Rightarrow> (r, \<lparr>pst_alloc = (pst_alloc s)\<lparr>al_storage := st\<rparr>, pst_cells = cells\<rparr>)))"

definition flush_and_write :: "allocated_object list \<Rightarrow> (persist_state, unit) sresult" where
  "flush_and_write objs s =
     (case flush_freelist (pst_alloc s) of
        (Inl e, al) \<Rightarrow> (Inl e, s\<lparr>pst_alloc := al\<rparr>)
      | (Inr _, al) \<Rightarrow> write_objects objs (s\<lparr>pst_alloc := al\<rparr>))"

text \<open>One node: serialize it with the present addresses of its children, and record where it will be.\<close>

definition place_node ::
  "(nat \<Rightarrow> u8 list) \<Rightarrow> nat reader_fn \<Rightarrow> node_hash_algorithm \<Rightarrow> reader \<Rightarrow> handle \<Rightarrow> (persist_state, allocated_object \<times> nat) sresult" where
  "place_node enc rdv alg rd hn s =
     (case expect_node (pst_cells s) rd hn of
        Inl e \<Rightarrow> (Inl e, s)
      | Inr shared_node \<Rightarrow>
          (case serialize_node_to_bump enc rdv alg (node_now (pst_cells s) (fst hn) shared_node) (pst_alloc s) of
             (Inl e, al) \<Rightarrow> (Inl e, s\<lparr>pst_alloc := al\<rparr>)
           | (Inr (bytes, address, idx_size), al) \<Rightarrow>
               (case allocate_at (cell_state (pst_cells s) hn) address of
                  Inl e \<Rightarrow> (Inl e, s\<lparr>pst_alloc := al\<rparr>)
                | Inr m \<Rightarrow>
                    (Inr ((bytes, address, fst hn), idx_size),
                     \<lparr>pst_alloc = al, pst_cells = (pst_cells s)(fst hn \<mapsto> m)\<rparr>))))"

definition usize_saturating_add :: "nat \<Rightarrow> nat \<Rightarrow> nat" where
  "usize_saturating_add a b = min (a + b) (2 ^ 64 - 1)"

partial_function (option) process_loop ::
  "(nat \<Rightarrow> u8 list) \<Rightarrow> nat reader_fn \<Rightarrow> node_hash_algorithm \<Rightarrow> reader \<Rightarrow> nat \<Rightarrow> un_iter \<Rightarrow> allocated_object list \<Rightarrow> nat \<Rightarrow>
   persist_state \<Rightarrow> (unit io_result \<times> persist_state) option" where
  "process_loop enc rdv alg rd bump_size_limit it allocated_objects allocated_len s =
     (case un_iter_next (pst_cells s) rd it of
        None \<Rightarrow> None
      | Some (Inl e, _) \<Rightarrow> Some (Inl e, s)
      | Some (Inr None, _) \<Rightarrow>
          Some (if allocated_objects \<noteq> [] then flush_and_write allocated_objects s else (Inr (), s))
      | Some (Inr (Some hn), it) \<Rightarrow>
          (case place_node enc rdv alg rd hn s of
             (Inl e, s) \<Rightarrow> Some (Inl e, s)
           | (Inr (object, idx_size), s) \<Rightarrow>
               let allocated_len = usize_saturating_add allocated_len idx_size;
                   allocated_objects = allocated_objects @ [object];
                   might_overflow = (allocated_len > bump_size_limit - idx_size)
               in if might_overflow
                  then (case flush_and_write allocated_objects s of
                          (Inl e, s) \<Rightarrow> Some (Inl e, s)
                        | (Inr _, s) \<Rightarrow> process_loop enc rdv alg rd bump_size_limit it [] 0 s)
                  else process_loop enc rdv alg rd bump_size_limit it allocated_objects allocated_len s))"

definition INITIAL_BUMP_SIZE :: nat where
  "INITIAL_BUMP_SIZE = MAX_AREA_SIZE"

definition flush_nodes ::
  "(nat \<Rightarrow> u8 list) \<Rightarrow> nat reader_fn \<Rightarrow> node_hash_algorithm \<Rightarrow> reader \<Rightarrow> child option \<Rightarrow> persist_state \<Rightarrow>
   (unit io_result \<times> persist_state) option" where
  "flush_nodes enc rdv alg rd root s =
     (case un_iter_new (pst_cells s) rd (map_option as_maybe_persisted_node root) of
        Inl e \<Rightarrow> Some (Inl e, s)
      | Inr it \<Rightarrow> process_loop enc rdv alg rd INITIAL_BUMP_SIZE it [] 0 s)"

definition flush_to :: "node_store_header \<Rightarrow> (storage, unit) sresult" where
  "flush_to h = sbind (storage_write 0 (header_bytes h)) (\<lambda>_. sreturn ())"

definition persist ::
  "hash_fns \<Rightarrow> nat reader_fn \<Rightarrow> node_hash_algorithm \<Rightarrow> reader \<Rightarrow> child option \<Rightarrow> persist_state \<Rightarrow>
   (unit io_result \<times> persist_state) option" where
  "persist hf rdv alg rd root s =
     (case flush_nodes (hf_encode_var hf) rdv alg rd root s of
        None \<Rightarrow> None
      | Some (Inl e, s) \<Rightarrow> Some (Inl e, s)
      | Some (Inr _, s) \<Rightarrow>
          let root_location = Option.bind root (\<lambda>ch.
                map_option (\<lambda>(addr, hash). (addr, into_triehash (hf_keccak256 hf) hash))
                  (child_persist_info (child_now (pst_cells s) [] ch)));
              header = set_root_location root_location (al_header (pst_alloc s))
          in case flush_to header (al_storage (pst_alloc s)) of
               (r, st) \<Rightarrow> Some (r, s\<lparr>pst_alloc := \<lparr>al_storage = st, al_header = header\<rparr>\<rparr>))"

subsection \<open>Opening\<close>

definition open_root ::
  "hash_fns \<Rightarrow> nat reader_fn \<Rightarrow> node_hash_algorithm \<Rightarrow> storage \<Rightarrow> node_store_header \<Rightarrow> child option io_result" where
  "open_root hf rdv alg st header =
     (case h_root_address header of
        None \<Rightarrow> Inr None
      | Some root_address \<Rightarrow>
          rbind (case header_root_hash header of
                   Some hash \<Rightarrow> Inr (Hash hash)
                 | None \<Rightarrow> rbind (uncached_read rdv alg st root_address) (\<lambda>n. hash_node hf alg n []))
            (\<lambda>root_hash. Inr (Some (AddressWithHash root_address root_hash))))"

end
