(* ===== verification/Persist_Order.thy ===== *)
theory Persist_Order
  imports Persist
begin

section \<open>The order in which nodes are persisted\<close>

text \<open>
  The handles of the cells of a tree that are not persisted, in preorder, and the sequence the iterator of
  \<open>storage/src/nodestore/persist.rs\<close> makes of it: the leaves first, then the branches backwards, so that every
  node comes after its children. The loop of \<open>process_unpersisted_nodes\<close> is then a loop over this sequence.
\<close>

subsection \<open>The cells that are not persisted\<close>

primrec unsaved_below :: "node \<Rightarrow> cell \<Rightarrow> handle list"
and unsaved_child :: "child \<Rightarrow> cell \<Rightarrow> handle list"
and unsaved_cell :: "maybe_persisted \<Rightarrow> cell \<Rightarrow> handle list" where
  "unsaved_below (Branch p v cs) =
     (\<lambda>cid. concat (map (\<lambda>c. case (map_option unsaved_child \<circ> cs) c of None \<Rightarrow> [] | Some f \<Rightarrow> f (cid @ [c])) pc_ALL))"
| "unsaved_below (Leaf p v) = (\<lambda>cid. [])"
| "unsaved_child (ChildNode n) = (\<lambda>cid. [])"
| "unsaved_child (AddressWithHash a h) = (\<lambda>cid. [])"
| "unsaved_child (ChildMaybePersisted m h) = unsaved_cell m"
| "unsaved_cell (Unpersisted n) = (\<lambda>cid. (cid, Unpersisted n) # unsaved_below n cid)"
| "unsaved_cell (Allocated a n) = (\<lambda>cid. (cid, Allocated a n) # unsaved_below n cid)"
| "unsaved_cell (Persisted a) = (\<lambda>cid. [])"

declare unsaved_below.simps(1) [simp del]

definition unsaved_at :: "handle \<Rightarrow> handle list" where
  "unsaved_at h = unsaved_cell (snd h) (fst h)"

fun cell_node :: "maybe_persisted \<Rightarrow> node option" where
  "cell_node (Unpersisted n) = Some n"
| "cell_node (Allocated a n) = Some n"
| "cell_node (Persisted a) = None"

lemma unsaved_at_node: "cell_node (snd h) = Some n \<Longrightarrow> unsaved_at h = h # unsaved_below n (fst h)"
  by (cases h; cases "snd h") (auto simp: unsaved_at_def)

lemma unpersisted_cell_node: "unpersisted m \<noteq> None \<longleftrightarrow> cell_node m \<noteq> None"
  by (cases m) auto

lemma concat_unpersisted:
  "concat (map unsaved_at (List.map_filter (unpersisted_child Map.empty cid) l)) =
   concat (map (\<lambda>(c, ch). unsaved_child ch (cid @ [c])) l)"
proof (induction l)
  case (Cons x l)
  obtain c ch where x: "x = (c, ch)" by fastforce
  show ?case
  proof (cases ch)
    case (ChildMaybePersisted m h)
    then show ?thesis using Cons x by (cases m) (auto simp: map_filter_simps cell_state_def unsaved_at_def)
  qed (use Cons x in \<open>simp_all add: map_filter_simps\<close>)
qed (simp add: map_filter_simps)

lemma concat_iter_present:
  "concat (map (\<lambda>(c, x). f c x) (iter_present cs)) =
   concat (map (\<lambda>c. case cs c of None \<Rightarrow> [] | Some x \<Rightarrow> f c x) pc_ALL)"
proof -
  have "concat (map (\<lambda>(c, x). f c x) (List.map_filter (\<lambda>(i, opt). map_option (\<lambda>v. (i, v)) opt) (map (\<lambda>i. (i, cs i)) l))) =
    concat (map (\<lambda>c. case cs c of None \<Rightarrow> [] | Some x \<Rightarrow> f c x) l)" for l
    by (induction l) (auto simp: map_filter_simps split: option.splits)
  then show ?thesis by (simp only: iter_present_def children_iter_def)
qed

lemma unsaved_below_Branch:
  "unsaved_below (Branch p v cs) cid = concat (map unsaved_at (unpersisted_children Map.empty cid cs))"
  unfolding unpersisted_children_def concat_unpersisted concat_iter_present unsaved_below.simps
  by (auto intro!: arg_cong [of _ _ concat] split: option.splits)

lemma unpersisted_children_item:
  "(x, m) \<in> set (unpersisted_children Map.empty cid cs) \<longleftrightarrow>
   (\<exists>c h. x = cid @ [c] \<and> cs c = Some (ChildMaybePersisted m h) \<and> cell_node m \<noteq> None)"
proof -
  have "(x, m) \<in> set (unpersisted_children Map.empty cid cs) \<longleftrightarrow>
    (\<exists>c ch. cs c = Some ch \<and> unpersisted_child Map.empty cid (c, ch) = Some (x, m))"
    by (force simp: unpersisted_children_def map_filter_def)
  moreover have "unpersisted_child Map.empty cid (c, ch) = Some (x, m) \<longleftrightarrow>
    (\<exists>h. x = cid @ [c] \<and> ch = ChildMaybePersisted m h \<and> cell_node m \<noteq> None)" for c ch
    using unpersisted_cell_node [of m] by (cases ch) (auto simp: cell_state_def split: option.splits)
  ultimately show ?thesis by auto
qed

text \<open>Where no cell below a position changed, the children are those of the tree.\<close>

lemma unpersisted_children_fresh:
  assumes "\<And>c. cells (cid @ [c]) = None"
  shows "unpersisted_children cells cid cs = unpersisted_children Map.empty cid cs"
proof -
  have "unpersisted_child cells cid x = unpersisted_child Map.empty cid x" for x
    by (cases x; cases "snd x") (auto simp: cell_state_def assms)
  then have "unpersisted_child cells cid = unpersisted_child Map.empty cid" by (rule ext)
  then show ?thesis by (simp add: unpersisted_children_def)
qed

subsection \<open>Preorder\<close>

definition preorder :: "handle list \<Rightarrow> bool" where
  "preorder l \<longleftrightarrow> sorted_wrt (\<lambda>x y. \<not> prefix (fst y) (fst x)) l"

lemma preorder_Cons: "preorder (x # l) \<longleftrightarrow> (\<forall>y \<in> set l. \<not> prefix (fst y) (fst x)) \<and> preorder l"
  by (simp add: preorder_def)

lemma preorder_append: "preorder (xs @ ys) \<longleftrightarrow> preorder xs \<and> preorder ys \<and> (\<forall>x \<in> set xs. \<forall>y \<in> set ys. \<not> prefix (fst y) (fst x))"
  by (simp add: preorder_def sorted_wrt_append)

lemma preorder_distinct: "preorder l \<Longrightarrow> distinct (map fst l)"
  by (induction l) (auto simp: preorder_Cons)

lemma preorder_concat:
  assumes "\<And>c. c \<in> set l \<Longrightarrow> preorder (f c)" "\<And>c h. c \<in> set l \<Longrightarrow> h \<in> set (f c) \<Longrightarrow> prefix (cid @ [c]) (fst h)" "distinct l"
  shows "preorder (concat (map f l))"
  using assms
proof (induction l)
  case (Cons c l)
  have "\<not> prefix (fst y) (fst x)" if x: "x \<in> set (f c)" and y: "d \<in> set l" "y \<in> set (f d)" for x y d
  proof
    assume "prefix (fst y) (fst x)"
    then have "prefix (cid @ [d]) (fst x)" "prefix (cid @ [c]) (fst x)"
      using Cons.prems(2) [of c x] Cons.prems(2) [of d y] x y prefix_order.trans by auto
    then have "c = d" by (auto simp: prefix_def)
    then show False using Cons.prems(3) y(1) by simp
  qed
  then show ?case using Cons by (auto simp: preorder_append)
qed (simp add: preorder_def)

lemma unsaved_preorder:
  "preorder (unsaved_below n cid) \<and> (\<forall>h \<in> set (unsaved_below n cid). strict_prefix cid (fst h))"
  "preorder (unsaved_child ch cid) \<and> (\<forall>h \<in> set (unsaved_child ch cid). prefix cid (fst h))"
  "preorder (unsaved_cell m cid) \<and> (\<forall>h \<in> set (unsaved_cell m cid). prefix cid (fst h))"
proof (induction n and ch and m arbitrary: cid and cid and cid rule: node.induct child.induct maybe_persisted.induct)
  case (Branch p v cs)
  let ?f = "\<lambda>c. case (map_option unsaved_child \<circ> cs) c of None \<Rightarrow> [] | Some f \<Rightarrow> f (cid @ [c])"
  have IH: "preorder (?f c)" "h \<in> set (?f c) \<Longrightarrow> prefix (cid @ [c]) (fst h)" for c h
  proof -
    have "preorder (?f c) \<and> (\<forall>h \<in> set (?f c). prefix (cid @ [c]) (fst h))"
    proof (cases "cs c")
      case (Some ch)
      then have "Some ch \<in> range cs" by (metis rangeI)
      then show ?thesis using Some Branch.IH [of "Some ch" ch "cid @ [c]"] by simp
    qed (simp add: preorder_def)
    then show "preorder (?f c)" "h \<in> set (?f c) \<Longrightarrow> prefix (cid @ [c]) (fst h)" by blast+
  qed
  then have "preorder (unsaved_below (Branch p v cs) cid)"
    unfolding unsaved_below.simps by (rule preorder_concat [OF _ _ distinct_pc_ALL])
  moreover have "strict_prefix cid (fst h)" if h: "h \<in> set (unsaved_below (Branch p v cs) cid)" for h
  proof -
    obtain c where "h \<in> set (?f c)" using h unfolding unsaved_below.simps set_concat set_map by blast
    then have "prefix (cid @ [c]) (fst h)" by (rule IH)
    then show ?thesis by (auto simp: prefix_def strict_prefix_def)
  qed
  ultimately show ?case by blast
qed (auto simp: preorder_def strict_prefix_def prefix_order.eq_iff)

subsection \<open>The iterator\<close>

definition iter_pending :: "un_iter \<Rightarrow> handle list" where
  "iter_pending it = concat (map (\<lambda>l. concat (map unsaved_at l)) (ui_children it))"

definition leaf_handle :: "handle \<Rightarrow> bool" where
  "leaf_handle h = (case cell_node (snd h) of Some n \<Rightarrow> node_is_leaf n | None \<Rightarrow> False)"

text \<open>Leaves in preorder, then branches from the last to the first.\<close>

definition leaves_first :: "handle list \<Rightarrow> handle list" where
  "leaves_first l = filter leaf_handle l @ rev (filter (\<lambda>h. \<not> leaf_handle h) l)"

definition iter_rest :: "un_iter \<Rightarrow> handle list" where
  "iter_rest it = leaves_first (iter_pending it) @ ui_stack it"

definition iter_ok :: "cells \<Rightarrow> un_iter \<Rightarrow> bool" where
  "iter_ok cells it \<longleftrightarrow>
     (\<forall>l \<in> set (ui_children it). \<forall>h \<in> set l. cell_node (snd h) \<noteq> None) \<and> preorder (iter_pending it) \<and>
     (\<forall>h \<in> set (iter_pending it). \<forall>ys. cells (fst h @ ys) = None)"

text \<open>What a call of \<open>next\<close> yields, and the state it leaves.\<close>

definition yields_next :: "cells \<Rightarrow> reader \<Rightarrow> un_iter \<Rightarrow> bool" where
  "yields_next cells rd it \<longleftrightarrow>
     (\<exists>it'. un_iter_next cells rd it =
        Some (Inr (case iter_rest it of [] \<Rightarrow> None | x # _ \<Rightarrow> Some x), it') \<and> iter_rest it' = tl (iter_rest it) \<and>
        iter_ok cells it' \<and> (\<forall>h \<in> set (iter_pending it'). iter_rest it \<noteq> [] \<longrightarrow> \<not> prefix (fst h) (fst (hd (iter_rest it)))))"

lemma leaves_first_leaf: "leaf_handle h \<Longrightarrow> leaves_first (h # l) @ st = h # leaves_first l @ st"
  by (simp add: leaves_first_def)

lemma leaves_first_branch: "\<not> leaf_handle h \<Longrightarrow> leaves_first (h # l) @ st = leaves_first l @ h # st"
  by (simp add: leaves_first_def)

lemma expect_fresh:
  "cell_node (snd h) = Some n \<Longrightarrow> cells (fst h) = None \<Longrightarrow> expect_node cells rd h = Inr n"
  by (cases h; cases "snd h") (auto simp: expect_node_def cell_state_def)

lemma yields_next_step:
  assumes "iter_ok cells it"
    "\<And>it2. iter_ok cells it2 \<Longrightarrow>
       2 * length (iter_pending it2) + length (ui_children it2) < 2 * length (iter_pending it) + length (ui_children it) \<Longrightarrow>
       yields_next cells rd it2"
  shows "yields_next cells rd it"
proof (cases "ui_children it")
  case Nil
  then show ?thesis using assms(1)
    by (cases "ui_stack it") (auto simp: yields_next_def un_iter_next.simps iter_rest_def iter_pending_def leaves_first_def iter_ok_def)
next
  case (Cons l iters)
  show ?thesis
  proof (cases l)
    case Nil
    let ?it = "it\<lparr>ui_children := iters\<rparr>"
    have pend: "iter_pending ?it = iter_pending it" using Cons Nil by (simp add: iter_pending_def)
    then have "yields_next cells rd ?it"
      by (intro assms(2)) (use assms(1) Cons in \<open>auto simp: iter_ok_def\<close>)
    moreover have "un_iter_next cells rd it = un_iter_next cells rd ?it"
      using Cons Nil by (subst un_iter_next.simps) simp
    ultimately show ?thesis using pend by (simp add: yields_next_def iter_rest_def)
  next
    case (Cons h current)
    note l = \<open>ui_children it = l # iters\<close> Cons
    from assms(1) obtain n where n: "cell_node (snd h) = Some n" by (auto simp: iter_ok_def l)
    then have pend: "iter_pending it = h # unsaved_below n (fst h) @ concat (map unsaved_at current) @
        concat (map (\<lambda>l. concat (map unsaved_at l)) iters)"
      by (simp add: iter_pending_def l unsaved_at_node)
    have fresh: "cells (fst h @ ys) = None" for ys using assms(1) by (simp add: iter_ok_def pend)
    have node: "expect_node cells rd h = Inr n" by (rule expect_fresh [OF n]) (use fresh [of "[]"] in simp)
    show ?thesis
    proof (cases n)
      case (Leaf p v)
      let ?it = "it\<lparr>ui_children := current # iters\<rparr>"
      have "un_iter_next cells rd it = Some (Inr (Some h), ?it)"
        using node Leaf by (subst un_iter_next.simps) (simp add: l)
      moreover have p: "iter_pending it = h # iter_pending ?it" using pend Leaf by (simp add: iter_pending_def)
      moreover have "leaf_handle h" using n Leaf by (simp add: leaf_handle_def node_is_leaf_def)
      then have "iter_rest it = h # iter_rest ?it" using p by (simp add: iter_rest_def leaves_first_leaf)
      moreover have "iter_ok cells ?it" using assms(1) p by (auto simp: iter_ok_def l preorder_Cons)
      ultimately show ?thesis using assms(1) by (auto simp: yields_next_def iter_ok_def preorder_Cons)
    next
      case (Branch p v cs)
      let ?un = "unpersisted_children cells (fst h) cs"
      let ?it = "\<lparr>ui_stack = h # ui_stack it,
        ui_children = (if ?un \<noteq> [] then ?un # current # iters else current # iters)\<rparr>"
      have un: "?un = unpersisted_children Map.empty (fst h) cs"
        by (rule unpersisted_children_fresh) (rule fresh)
      have step: "un_iter_next cells rd it = un_iter_next cells rd ?it"
        using node Branch by (subst un_iter_next.simps) (simp add: l Let_def)
      have p: "iter_pending it = h # iter_pending ?it"
        using pend Branch by (simp add: iter_pending_def unsaved_below_Branch un)
      have "\<not> leaf_handle h" using n Branch by (simp add: leaf_handle_def node_is_leaf_def)
      then have rest: "iter_rest it = iter_rest ?it" using p by (simp add: iter_rest_def leaves_first_branch)
      have "\<forall>x \<in> set ?un. cell_node (snd x) \<noteq> None"
        unfolding un using unpersisted_children_item by fastforce
      then have "iter_ok cells ?it" using assms(1) p by (auto simp: iter_ok_def l preorder_Cons split: if_splits)
      then have "yields_next cells rd ?it" by (rule assms(2)) (simp add: p l)
      then show ?thesis unfolding yields_next_def step rest .
    qed
  qed
qed

lemma yields_next: "iter_ok cells it \<Longrightarrow> yields_next cells rd it"
proof (induction "2 * length (iter_pending it) + length (ui_children it)" arbitrary: it rule: less_induct)
  case less
  then show ?case using yields_next_step by blast
qed

lemma un_iter_new_root:
  assumes "cell_node m = Some n"
  obtains it where "un_iter_new Map.empty rd (Some m) = Inr it" "iter_ok Map.empty it"
    "iter_rest it = leaves_first (unsaved_at ([], m))"
proof -
  have node: "expect_node Map.empty rd ([], m) = Inr n" by (rule expect_fresh) (simp_all add: assms)
  have all: "unsaved_at ([], m) = ([], m) # unsaved_below n []" using unsaved_at_node [of "([], m)"] assms by simp
  have pre: "preorder (unsaved_below n [])" using unsaved_preorder(1) by blast
  show thesis
  proof (cases n)
    case (Branch p v cs)
    let ?it = "\<lparr>ui_stack = [([], m)], ui_children = [unpersisted_children Map.empty [] cs]\<rparr>"
    have pend: "iter_pending ?it = unsaved_below n []" by (simp add: iter_pending_def Branch unsaved_below_Branch)
    have "\<not> leaf_handle ([], m)" using assms Branch by (simp add: leaf_handle_def node_is_leaf_def)
    then have "iter_rest ?it = leaves_first (unsaved_at ([], m))"
      using leaves_first_branch [of "([], m)" "unsaved_below n []" "[]"] by (simp add: iter_rest_def pend all)
    moreover have "\<forall>x \<in> set (unpersisted_children Map.empty [] cs). cell_node (snd x) \<noteq> None"
      using unpersisted_children_item by fastforce
    then have "iter_ok Map.empty ?it" using pre by (simp add: iter_ok_def pend)
    ultimately show thesis using node Branch by (intro that [of ?it]) (simp_all add: un_iter_new_def)
  next
    case (Leaf p v)
    let ?it = "\<lparr>ui_stack = [([], m)], ui_children = []\<rparr>"
    have "leaf_handle ([], m)" using assms Leaf by (simp add: leaf_handle_def node_is_leaf_def)
    then have "iter_rest ?it = leaves_first (unsaved_at ([], m))"
      by (simp add: iter_rest_def iter_pending_def all Leaf leaves_first_def)
    moreover have "iter_ok Map.empty ?it" by (simp add: iter_ok_def iter_pending_def preorder_def)
    ultimately show thesis using node Leaf by (intro that [of ?it]) (simp_all add: un_iter_new_def)
  qed
qed

subsection \<open>Children come first\<close>

definition kids :: "handle \<Rightarrow> handle list" where
  "kids h = (case cell_node (snd h) of Some (Branch p v cs) \<Rightarrow> unpersisted_children Map.empty (fst h) cs | _ \<Rightarrow> [])"

lemma kids_position: "k \<in> set (kids h) \<Longrightarrow> \<exists>c. fst k = fst h @ [c]"
  using unpersisted_children_item [of "fst k" "snd k"] by (auto simp: kids_def split: option.splits node.splits)

lemma kids_leaf: "leaf_handle h \<Longrightarrow> kids h = []"
  by (auto simp: kids_def leaf_handle_def node_is_leaf_def split: option.splits node.splits)

lemma unsaved_at_self: "cell_node (snd h) \<noteq> None \<Longrightarrow> h \<in> set (unsaved_at h)"
  using unsaved_at_node by fastforce

lemma kids_unsaved: "cell_node (snd h) = Some n \<Longrightarrow> set (kids h) \<subseteq> set (unsaved_below n (fst h))"
proof (cases n)
  case (Branch p v cs)
  assume n: "cell_node (snd h) = Some n"
  show ?thesis
  proof
    fix k assume "k \<in> set (kids h)"
    then have k: "k \<in> set (unpersisted_children Map.empty (fst h) cs)" using n Branch by (simp add: kids_def)
    then have "cell_node (snd k) \<noteq> None" using unpersisted_children_item [of "fst k" "snd k"] by auto
    then show "k \<in> set (unsaved_below n (fst h))"
      using k unsaved_at_self [of k] by (simp add: Branch unsaved_below_Branch) blast
  qed
qed (simp add: kids_def)

lemma unsaved_closed:
  "x \<in> set (unsaved_below n cid) \<Longrightarrow> set (kids x) \<subseteq> set (unsaved_below n cid)"
  "x \<in> set (unsaved_child ch cid) \<Longrightarrow> set (kids x) \<subseteq> set (unsaved_child ch cid)"
  "x \<in> set (unsaved_cell m cid) \<Longrightarrow> set (kids x) \<subseteq> set (unsaved_cell m cid)"
proof (induction n and ch and m arbitrary: cid and cid and cid rule: node.induct child.induct maybe_persisted.induct)
  case (Branch p v cs)
  let ?f = "\<lambda>c. case (map_option unsaved_child \<circ> cs) c of None \<Rightarrow> [] | Some f \<Rightarrow> f (cid @ [c])"
  have all: "set (unsaved_below (Branch p v cs) cid) = (\<Union>c. set (?f c))" unfolding unsaved_below.simps by simp
  from Branch.prems obtain c where x: "x \<in> set (?f c)" unfolding all by blast
  then obtain ch where ch: "cs c = Some ch" "x \<in> set (unsaved_child ch (cid @ [c]))"
    by (cases "cs c") auto
  then have "Some ch \<in> range cs" by (metis rangeI)
  then have "set (kids x) \<subseteq> set (?f c)" using Branch.IH [of "Some ch" ch "cid @ [c]"] ch by simp
  then show ?case unfolding all by blast
next
  case (Unpersisted n)
  then show ?case using kids_unsaved [of "(cid, Unpersisted n)" n] by auto
next
  case (Allocated a n)
  then show ?case using kids_unsaved [of "(cid, Allocated a n)" n] by auto
qed simp_all

fun kids_first :: "handle set \<Rightarrow> handle list \<Rightarrow> bool" where
  "kids_first D [] \<longleftrightarrow> True"
| "kids_first D (h # hs) \<longleftrightarrow> set (kids h) \<subseteq> D \<and> kids_first (insert h D) hs"

lemma kids_first_split:
  "(\<And>xs h ys. l = xs @ h # ys \<Longrightarrow> set (kids h) \<subseteq> D \<union> set xs) \<Longrightarrow> kids_first D l"
proof (induction l arbitrary: D)
  case (Cons x l)
  have "set (kids x) \<subseteq> D" using Cons.prems [of "[]" x l] by simp
  moreover have "kids_first (insert x D) l"
  proof (rule Cons.IH)
    fix xs h ys assume "l = xs @ h # ys"
    then show "set (kids h) \<subseteq> insert x D \<union> set xs" using Cons.prems [of "x # xs" h ys] by simp
  qed
  ultimately show ?case by simp
qed simp

lemma kids_first_append: "kids_first D (xs @ ys) \<longleftrightarrow> kids_first D xs \<and> kids_first (D \<union> set xs) ys"
  by (induction xs arbitrary: D) auto

lemma kids_first_leaves: "list_all leaf_handle l \<Longrightarrow> kids_first D l"
  by (induction l arbitrary: D) (auto simp: kids_leaf)

lemma leaves_first_kids:
  assumes pre: "preorder l" and closed: "\<And>x. x \<in> set l \<Longrightarrow> set (kids x) \<subseteq> set l"
  shows "kids_first {} (leaves_first l)"
proof -
  let ?br = "filter (\<lambda>h. \<not> leaf_handle h) l" and ?lf = "filter leaf_handle l"
  have "preorder ?br" using pre unfolding preorder_def by (rule sorted_wrt_filter)
  have "kids_first (set ?lf) (rev ?br)"
  proof (rule kids_first_split)
    fix xs h ys assume "rev ?br = xs @ h # ys"
    then have br: "?br = rev ys @ h # rev xs" by (metis append.assoc append_Cons append_Nil rev.simps(2) rev_append rev_rev_ident)
    show "set (kids h) \<subseteq> set ?lf \<union> set xs"
    proof
      fix k assume k: "k \<in> set (kids h)"
      then obtain c where c: "fst k = fst h @ [c]" using kids_position by blast
      have "h \<in> set ?br" unfolding br by simp
      then have "k \<in> set l" using closed [of h] k by (meson filter_is_subset subsetD)
      moreover have "k \<notin> set ys" "k \<noteq> h" using \<open>preorder ?br\<close> c unfolding br by (auto simp: preorder_append)
      moreover have "k \<in> set ?br \<Longrightarrow> k \<in> set ys \<or> k = h \<or> k \<in> set xs" unfolding br by auto
      ultimately show "k \<in> set ?lf \<union> set xs" by auto
    qed
  qed
  moreover have "kids_first {} ?lf" by (rule kids_first_leaves) (simp add: list_all_iff)
  ultimately show ?thesis by (simp add: leaves_first_def kids_first_append)
qed

lemma set_leaves_first [simp]: "set (leaves_first l) = set l"
  by (auto simp: leaves_first_def)

lemma leaves_first_distinct: "distinct (map fst l) \<Longrightarrow> distinct (map fst (leaves_first l))"
proof -
  assume d: "distinct (map fst l)"
  have "mset (leaves_first l) = mset l" by (simp add: leaves_first_def)
  then have "mset (map fst (leaves_first l)) = mset (map fst l)" by simp
  then show ?thesis using d by (metis mset_eq_imp_distinct_iff)
qed

subsection \<open>The loop over the sequence\<close>

fun process_list ::
  "(nat \<Rightarrow> u8 list) \<Rightarrow> nat reader_fn \<Rightarrow> node_hash_algorithm \<Rightarrow> reader \<Rightarrow> nat \<Rightarrow> handle list \<Rightarrow> allocated_object list \<Rightarrow> nat \<Rightarrow>
   persist_state \<Rightarrow> unit io_result \<times> persist_state" where
  "process_list enc rdv alg rd limit [] objs len s = (if objs \<noteq> [] then flush_and_write objs s else (Inr (), s))"
| "process_list enc rdv alg rd limit (hn # hs) objs len s =
     (case place_node enc rdv alg rd hn s of
        (Inl e, s) \<Rightarrow> (Inl e, s)
      | (Inr (object, idx_size), s) \<Rightarrow>
          if usize_saturating_add len idx_size > limit - idx_size
          then (case flush_and_write (objs @ [object]) s of
                  (Inl e, s) \<Rightarrow> (Inl e, s)
                | (Inr _, s) \<Rightarrow> process_list enc rdv alg rd limit hs [] 0 s)
          else process_list enc rdv alg rd limit hs (objs @ [object]) (usize_saturating_add len idx_size) s)"

lemma mark_persisted_dom: "mark_persisted cids cells = (r, cells') \<Longrightarrow> cells' x = None \<longleftrightarrow> cells x = None"
proof (induction cids arbitrary: cells)
  case (Cons cid cids)
  show ?case
  proof (cases "Option.bind (cells cid) allocated_info")
    case (Some an)
    obtain a n where an: "an = (a, n)" by fastforce
    have "cells cid \<noteq> None" using Some by (cases "cells cid") auto
    moreover have "mark_persisted cids (cells(cid \<mapsto> Persisted a)) = (r, cells')" using Cons.prems Some an by simp
    then have "cells' x = None \<longleftrightarrow> (cells(cid \<mapsto> Persisted a)) x = None" by (rule Cons.IH)
    ultimately show ?thesis by (auto split: if_splits)
  qed (use Cons.prems in auto)
qed simp

lemma flush_and_write_dom:
  "flush_and_write objs s = (r, s') \<Longrightarrow> pst_cells s' x = None \<longleftrightarrow> pst_cells s x = None"
  by (auto simp: flush_and_write_def write_objects_def mark_persisted_dom
      split: prod.splits sum.splits dest: mark_persisted_dom [of _ _ _ _ x])

lemma place_node_dom:
  "place_node enc rdv alg rd hn s = (Inr r, s') \<Longrightarrow> x \<noteq> fst hn \<Longrightarrow> pst_cells s' x = pst_cells s x"
  by (auto simp: place_node_def split: prod.splits sum.splits)

lemma iter_ok_cells:
  assumes "iter_ok cells it" "\<And>h. h \<in> set (iter_pending it) \<Longrightarrow> \<not> prefix (fst h) x"
    "\<And>y. y \<noteq> x \<Longrightarrow> cells y = None \<Longrightarrow> cells' y = None"
  shows "iter_ok cells' it"
  unfolding iter_ok_def
proof (intro conjI ballI allI)
  fix h ys assume h: "h \<in> set (iter_pending it)"
  then have "cells (fst h @ ys) = None" using assms(1) by (simp add: iter_ok_def)
  moreover have "fst h @ ys \<noteq> x" using assms(2) [OF h] by auto
  ultimately show "cells' (fst h @ ys) = None" by (intro assms(3))
qed (use assms(1) in \<open>simp_all add: iter_ok_def\<close>)

lemma process_loop_list:
  assumes "iter_ok (pst_cells s) it"
  shows "process_loop enc rdv alg rd limit it objs len s = Some (process_list enc rdv alg rd limit (iter_rest it) objs len s)"
  using assms
proof (induction "iter_rest it" arbitrary: it objs len s)
  case Nil
  then show ?case
    using yields_next [OF Nil.prems, of rd] by (subst process_loop.simps) (auto simp: yields_next_def)
next
  case (Cons hn hs)
  obtain it' where it': "un_iter_next (pst_cells s) rd it = Some (Inr (Some hn), it')" "iter_rest it' = hs"
    "iter_ok (pst_cells s) it'" "\<And>h. h \<in> set (iter_pending it') \<Longrightarrow> \<not> prefix (fst h) (fst hn)"
    using yields_next [OF Cons.prems, of rd] unfolding yields_next_def Cons.hyps(2) [symmetric] by auto
  show ?case
  proof (cases "place_node enc rdv alg rd hn s")
    case (Pair r s1)
    show ?thesis
    proof (cases r)
      case (Inl e)
      then show ?thesis using it'(1) Pair
        by (subst process_loop.simps) (simp add: Cons.hyps(2) [symmetric])
    next
      case (Inr oi)
      obtain object idx where oi: "oi = (object, idx)" by fastforce
      note place = Pair [unfolded Inr oi]
      have ok1: "iter_ok (pst_cells s1) it'"
        by (rule iter_ok_cells [OF it'(3,4)]) (use place_node_dom [OF place] in auto)
      obtain r2 s2 where fl: "flush_and_write (objs @ [object]) s1 = (r2, s2)" by fastforce
      have ok2: "iter_ok (pst_cells s2) it'"
        by (rule iter_ok_cells [OF ok1 it'(4)]) (use flush_and_write_dom [OF fl] in auto)
      show ?thesis using it'(1,2) place fl Cons.hyps(1) [of it' s1] Cons.hyps(1) [of it' s2] ok1 ok2
        by (subst process_loop.simps) (simp add: Cons.hyps(2) [symmetric] Let_def split: sum.splits)
    qed
  qed
qed

end
