(* ===== verification/Persist_Disk.thy ===== *)
theory Persist_Disk
  imports Persist_Order Codec_Properties Trie_Spec
begin

section \<open>Tries on storage and tries to be written\<close>

text \<open>
  What it means that the areas of a storage hold a trie, and that a tree in memory stands for a trie part of
  which is on storage; the size of an encoded node; and the write of one node: \<open>place_node\<close>.
\<close>

subsection \<open>The size of an encoded node\<close>

definition roomy :: "path \<Rightarrow> val option \<Rightarrow> bool" where
  "roomy p v \<longleftrightarrow> length p + (case v of None \<Rightarrow> 0 | Some v \<Rightarrow> length v) + 1024 \<le> MAX_AREA_SIZE"

lemma roomy_isize: "roomy p v \<Longrightarrow> length p \<le> isize_max \<and> pred_option (\<lambda>v. length v \<le> isize_max) v"
  by (cases v) (auto simp: roomy_def isize_max_def MAX_AREA_SIZE_def AREA_SIZES_def)

lemma roomy_lengths: "roomy p v \<Longrightarrow> length p < 2 ^ 64 \<and> pred_option (\<lambda>v. length v < 2 ^ 64) v"
  by (cases v) (auto simp: roomy_def MAX_AREA_SIZE_def AREA_SIZES_def)

lemma write_child_hash_length: "storable_hash alg h \<Longrightarrow> write_child_hash alg h = Inr bs \<Longrightarrow> length bs \<le> 33"
  by (cases alg; cases h) (auto simp: TrieHash_write_to_def)

context varint
begin

lemma encode_children_length:
  assumes "list_all (\<lambda>(i, ch). storable_child alg ch) l" "encode_children encode_var alg full l = Inr bs"
  shows "length bs \<le> 42 * length l"
  using assms
proof (induction l arbitrary: bs)
  case (Cons e l)
  obtain i ch where e: "e = (i, ch)" by fastforce
  obtain a h where info: "child_persist_info ch = Some (a, h)" "storable_hash alg h"
    using Cons.prems(1) e by (auto simp: storable_child_def split: option.splits)
  then obtain hb cb where b: "write_child_hash alg h = Inr hb" "encode_children encode_var alg full l = Inr cb"
    "bs = (if full then [] else encode_var (unat (as_u8 i))) @ u64_to_ne_bytes a @ hb @ cb"
    using Cons.prems(2) e by (auto simp: Let_def extend_var_int_def rbind_def split: sum.splits)
  have "length cb \<le> 42 * length l" using Cons.IH [OF _ b(2)] Cons.prems(1) by simp
  moreover have "length hb \<le> 33" by (rule write_child_hash_length [OF info(2) b(1)])
  moreover have "length (encode_var (unat (as_u8 i))) = 1"
    using encode_small [of "unat i"] u4_less_16 [of i] by simp
  ultimately show ?case by (simp add: b(3))
qed simp

lemma encode_branch_length:
  assumes "encode_node encode_var alg (Branch p v cs) = Inr bs"
  obtains cb where "encode_children encode_var alg (length (iter_present cs) = 16) (iter_present cs) = Inr cb"
    "length bs \<le> 1 + length (encode_var (length p)) + length p +
       (case v of None \<Rightarrow> 0 | Some v \<Rightarrow> length (encode_var (length v)) + length v) + length cb"
proof -
  define pl :: u8 where "pl = (if length p < unat BRANCH_PARTIAL_PATH_LEN_OVERFLOW
    then word_of_nat (length p) else BRANCH_PARTIAL_PATH_LEN_OVERFLOW)"
  define pre where "pre = (if pl = BRANCH_PARTIAL_PATH_LEN_OVERFLOW then extend_var_int encode_var (length p) else [])"
  define vb where "vb = (case v of None \<Rightarrow> [] | Some v \<Rightarrow> extend_var_int encode_var (length v) @ v)"
  define fb where "fb = BranchFirstByte_new (if v \<noteq> None then 1 else 0) (word_of_nat (length (iter_present cs) mod 16)) pl"
  have "encode_node encode_var alg (Branch p v cs) =
      rbind (encode_children encode_var alg (length (iter_present cs) = 16) (iter_present cs))
        (\<lambda>cb. Inr ([fb] @ pre @ p @ vb @ cb))"
    by (simp only: encode_node.simps Let_def pl_def fb_def pre_def vb_def)
  then obtain cb where cb: "encode_children encode_var alg (length (iter_present cs) = 16) (iter_present cs) = Inr cb"
    "bs = [fb] @ pre @ p @ vb @ cb"
    using assms by (auto simp: rbind_def split: sum.splits)
  have "length pre \<le> length (encode_var (length p))" by (simp add: pre_def extend_var_int_def)
  moreover have "length vb = (case v of None \<Rightarrow> 0 | Some v \<Rightarrow> length (encode_var (length v)) + length v)"
    by (simp add: vb_def extend_var_int_def split: option.splits)
  ultimately show thesis by (intro that [OF cb(1)]) (simp add: cb(2))
qed

lemma encode_leaf_length:
  assumes "encode_node encode_var alg (Leaf p v) = Inr bs"
  shows "length bs \<le> 1 + length (encode_var (length p)) + length p + length (encode_var (length v)) + length v"
proof -
  define pl :: u8 where "pl = (if length p < unat LEAF_PARTIAL_PATH_LEN_OVERFLOW
    then word_of_nat (length p) else LEAF_PARTIAL_PATH_LEN_OVERFLOW)"
  define pre where "pre = (if pl = LEAF_PARTIAL_PATH_LEN_OVERFLOW then extend_var_int encode_var (length p) else [])"
  have "encode_node encode_var alg (Leaf p v) =
      Inr ([LeafFirstByte_new 1 pl] @ pre @ p @ extend_var_int encode_var (length v) @ v)"
    by (simp only: encode_node.simps Let_def pl_def pre_def)
  then have "bs = [LeafFirstByte_new 1 pl] @ pre @ p @ extend_var_int encode_var (length v) @ v" using assms by simp
  moreover have "length pre \<le> length (encode_var (length p))" by (simp add: pre_def extend_var_int_def)
  ultimately show ?thesis by (simp add: extend_var_int_def)
qed

lemma encode_node_length:
  assumes "storable alg n" "roomy (partial_path n) (node_value n)" "encode_node encode_var alg n = Inr bs"
  shows "length bs < MAX_AREA_SIZE"
proof (cases n)
  case (Branch p v cs)
  obtain cb where cb: "encode_children encode_var alg (length (iter_present cs) = 16) (iter_present cs) = Inr cb"
    "length bs \<le> 1 + length (encode_var (length p)) + length p +
       (case v of None \<Rightarrow> 0 | Some v \<Rightarrow> length (encode_var (length v)) + length v) + length cb"
    by (rule encode_branch_length [OF assms(3) [unfolded Branch]])
  have "length cb \<le> 42 * length (iter_present cs)"
    by (rule encode_children_length [OF _ cb(1)]) (use assms(1) Branch in simp)
  then have len: "length cb \<le> 672" using iter_present_le_16 [of cs] by linarith
  have r: "roomy p v" using assms(2) Branch by simp
  then have p: "length (encode_var (length p)) \<le> 10" using roomy_lengths encode_length by blast
  show ?thesis
  proof (cases v)
    case None
    then show ?thesis using cb(2) len p r by (simp add: roomy_def)
  next
    case (Some w)
    then have "length (encode_var (length w)) \<le> 10" using r roomy_lengths [of p v] encode_length by auto
    then show ?thesis using Some cb(2) len p r by (simp add: roomy_def)
  qed
next
  case (Leaf p v)
  then have r: "roomy p (Some v)" using assms(2) by simp
  then have "length (encode_var (length p)) \<le> 10" "length (encode_var (length v)) \<le> 10"
    using roomy_lengths [of p "Some v"] encode_length by auto
  then show ?thesis using encode_leaf_length [OF assms(3) [unfolded Leaf]] r by (simp add: roomy_def)
qed

lemma as_bytes_reads:
  assumes "storable alg n" "roomy (partial_path n) (node_value n)"
  obtains i body where "as_bytes encode_var alg n [] = Inr (i # body, i)" "i < 23"
    "length (i # body) \<le> AREA_SIZES ! unat i" "reads (from_reader read_varint alg) body (stored_node n)"
    "from_size (length (i # body)) = Inr i"
proof -
  obtain body where body: "encode_node encode_var alg n = Inr body" "reads (from_reader read_varint alg) body (stored_node n)"
    using reads_node [OF assms(1)] by blast
  obtain i where i: "as_bytes encode_var alg n [] = Inr ([] @ [i] @ body, i)" "i < 23" "length body + 1 \<le> AREA_SIZES ! unat i"
    by (rule as_bytes_ok [OF body(1) encode_node_length [OF assms body(1)]])
  moreover have "from_size (length (i # body)) = Inr i"
    using i(1) body(1) by (auto simp: as_bytes_def Let_def rbind_def split: sum.splits)
  ultimately show thesis using body that by auto
qed

end

subsection \<open>Tries on storage\<close>

inductive on_disk :: "nat reader_fn \<Rightarrow> node_hash_algorithm \<Rightarrow> contents \<Rightarrow> laddr \<Rightarrow> trie \<Rightarrow> bool" for rdv alg C where
  disk_Leaf: "C (a, i) = Some (i # body) \<Longrightarrow> reads (from_reader rdv alg) body (Leaf p v) \<Longrightarrow> on_disk rdv alg C a (TLeaf p v)"
| disk_Branch: "C (a, i) = Some (i # body) \<Longrightarrow> reads (from_reader rdv alg) body (Branch p v cs) \<Longrightarrow>
     (\<And>c. cs c = None \<Longrightarrow> ts c = None) \<Longrightarrow>
     (\<And>c ch. cs c = Some ch \<Longrightarrow> \<exists>b h u. ch = AddressWithHash b h \<and> ts c = Some u \<and> on_disk rdv alg C b u) \<Longrightarrow>
     on_disk rdv alg C a (TBranch p v ts)"

lemma on_disk_mono:
  assumes "on_disk rdv alg C a t" "C \<subseteq>\<^sub>m D"
  shows "on_disk rdv alg D a t"
  using assms
proof (induction rule: on_disk.induct)
  case (disk_Leaf a i body p v)
  then show ?case by (intro on_disk.disk_Leaf [of _ _ i]) (auto simp: map_le_def dom_def)
next
  case (disk_Branch a i body p v cs ts)
  have "D (a, i) = Some (i # body)" using disk_Branch.hyps(1) disk_Branch.prems by (force simp: map_le_def dom_def)
  then show ?case using disk_Branch.hyps(2,3)
    by (rule on_disk.disk_Branch) (use disk_Branch.IH disk_Branch.prems in blast)+
qed

lemma on_disk_used: "on_disk rdv alg C a t \<Longrightarrow> \<exists>i. (a, i) \<in> dom C"
  by (cases rule: on_disk.cases) auto

text \<open>The bytes of an area are what reading its address returns.\<close>

lemma contents_read:
  assumes "contents_ok (st_bytes st) C" "C (a, i) = Some (i # body)" "reads (from_reader rdv alg) body n" "a \<noteq> - 1"
  shows "uncached_read rdv alg st a = Inr n"
proof -
  have "holds (st_bytes st) (unat a) (i # body)" using contents_okD(1) [OF assms(1,2)] .
  then have "holds (st_bytes st) (unat a + 1) body" by (auto simp: holds_nth)
  moreover have "unat (saturating_succ a) = unat a + 1"
    using assms(4) unatSuc [of a] by (simp add: saturating_succ_def add.commute add_eq_0_iff)
  moreover from reads_holds [OF assms(3) calculation(1)]
  obtain rest where "from_reader rdv alg (drop (unat a + 1) (st_bytes st)) = Inr (n, rest)" by blast
  ultimately show ?thesis by (simp add: uncached_read_def read_node_with_num_bytes_from_disk_def stream_from_def Let_def)
qed

lemma on_disk_read:
  assumes "on_disk rdv alg C a t" "contents_ok (st_bytes st) C" "\<And>b i. (b, i) \<in> dom C \<Longrightarrow> b \<noteq> - 1"
  shows "\<exists>n A. uncached_read rdv alg st a = Inr n \<and> repr (uncached_read rdv alg st) n t A"
  using assms(1)
proof (induction rule: on_disk.induct)
  case (disk_Leaf a i body p v)
  then have "uncached_read rdv alg st a = Inr (Leaf p v)"
    by (intro contents_read [OF assms(2)]) (use assms(3) in auto)
  then show ?case using repr_Leaf by blast
next
  case (disk_Branch a i body p v cs ts)
  let ?rd = "uncached_read rdv alg st"
  have read: "?rd a = Inr (Branch p v cs)"
    by (rule contents_read [OF assms(2) disk_Branch.hyps(1,2)]) (use disk_Branch.hyps(1) assms(3) in auto)
  have "\<exists>A. case cs c of None \<Rightarrow> A = {#}
      | Some ch \<Rightarrow> (\<exists>n t B. child_as_shared_node ch ?rd = Inr n \<and> repr ?rd n t B \<and> ts c = Some t \<and> A = child_hashed ch + B)" for c
  proof (cases "cs c")
    case (Some ch)
    then show ?thesis using disk_Branch.IH [OF Some] by auto
  qed simp
  then have "\<forall>c. \<exists>A. case cs c of None \<Rightarrow> A = {#}
      | Some ch \<Rightarrow> (\<exists>n t B. child_as_shared_node ch ?rd = Inr n \<and> repr ?rd n t B \<and> ts c = Some t \<and> A = child_hashed ch + B)" by blast
  from choice [OF this] obtain As where As: "\<forall>c. case cs c of None \<Rightarrow> As c = {#}
      | Some ch \<Rightarrow> (\<exists>n t B. child_as_shared_node ch ?rd = Inr n \<and> repr ?rd n t B \<and> ts c = Some t \<and> As c = child_hashed ch + B)"
    by blast
  have "repr ?rd (Branch p v cs) (TBranch p v ts) (\<Sum>c \<in> UNIV. As c)"
  proof (rule repr_Branch)
    show "\<forall>c. cs c = None \<longrightarrow> ts c = None \<and> As c = {#}"
    proof (intro allI impI)
      fix c assume "cs c = None"
      then show "ts c = None \<and> As c = {#}" using spec [OF As, of c] disk_Branch.hyps(3) [of c] by simp
    qed
    show "\<forall>c ch. cs c = Some ch \<longrightarrow> (\<exists>n t A. child_as_shared_node ch ?rd = Inr n \<and> repr ?rd n t A \<and>
        ts c = Some t \<and> As c = child_hashed ch + A)"
    proof (intro allI impI)
      fix c ch assume "cs c = Some ch"
      then show "\<exists>n t A. child_as_shared_node ch ?rd = Inr n \<and> repr ?rd n t A \<and> ts c = Some t \<and> As c = child_hashed ch + A"
        using spec [OF As, of c] by simp
    qed
  qed
  then show ?case using read by blast
qed

subsection \<open>Trees in memory that are to be saved\<close>

text \<open>
  A node of a committed revision: every child has a hash that can be stored, and is either still in memory or
  on storage; the paths and values fit into an area.
\<close>

inductive to_save :: "nat reader_fn \<Rightarrow> node_hash_algorithm \<Rightarrow> contents \<Rightarrow> node \<Rightarrow> trie \<Rightarrow> bool" for rdv alg C where
  save_Leaf: "roomy p (Some v) \<Longrightarrow> to_save rdv alg C (Leaf p v) (TLeaf p v)"
| save_Branch: "roomy p v \<Longrightarrow> iter_present cs \<noteq> [] \<Longrightarrow> (\<And>c. cs c = None \<Longrightarrow> ts c = None) \<Longrightarrow>
     (\<And>c ch. cs c = Some ch \<Longrightarrow> \<exists>h u. child_hash ch = Some h \<and> storable_hash alg h \<and> ts c = Some u \<and>
        ((\<exists>m. cell_node (as_maybe_persisted_node ch) = Some m \<and> to_save rdv alg C m u) \<or>
         (\<exists>a. as_maybe_persisted_node ch = Persisted a \<and> on_disk rdv alg C a u))) \<Longrightarrow>
     to_save rdv alg C (Branch p v cs) (TBranch p v ts)"

inductive_cases to_save_BranchE: "to_save rdv alg C (Branch p v cs) t"
inductive_cases to_save_LeafE: "to_save rdv alg C (Leaf p v) t"

lemma to_save_roomy: "to_save rdv alg C n t \<Longrightarrow> roomy (partial_path n) (node_value n)"
  by (cases rule: to_save.cases) auto

text \<open>The trie below a position.\<close>

fun trie_at :: "trie \<Rightarrow> cell \<Rightarrow> trie option" where
  "trie_at t [] = Some t"
| "trie_at (TBranch p v ts) (c # cid) = Option.bind (ts c) (\<lambda>u. trie_at u cid)"
| "trie_at (TLeaf p v) (c # cid) = None"

lemma trie_at_append: "trie_at t (xs @ ys) = Option.bind (trie_at t xs) (\<lambda>u. trie_at u ys)"
proof (induction t xs rule: trie_at.induct)
  case (2 p v ts c cid)
  then show ?case by (cases "ts c") auto
qed auto

lemma trie_at_child: "trie_at t cid = Some (TBranch p v ts) \<Longrightarrow> trie_at t (cid @ [c]) = ts c"
  by (cases "ts c") (auto simp: trie_at_append)

definition handle_ok :: "nat reader_fn \<Rightarrow> node_hash_algorithm \<Rightarrow> contents \<Rightarrow> trie \<Rightarrow> handle \<Rightarrow> bool" where
  "handle_ok rdv alg C t h \<longleftrightarrow>
     (\<exists>n u. cell_node (snd h) = Some n \<and> trie_at t (fst h) = Some u \<and> to_save rdv alg C n u)"

lemma unsaved_below_ok:
  assumes "to_save rdv alg C n u" "trie_at t cid = Some u" "x \<in> set (unsaved_below n cid)"
  shows "handle_ok rdv alg C t x"
  using assms
proof (induction arbitrary: cid rule: to_save.induct)
  case (save_Branch p v cs ts)
  from save_Branch.prems(2) obtain k where k: "k \<in> set (unpersisted_children Map.empty cid cs)" "x \<in> set (unsaved_at k)"
    by (auto simp: unsaved_below_Branch)
  obtain c h m where c: "k = (cid @ [c], m)" "cs c = Some (ChildMaybePersisted m h)" "cell_node m \<noteq> None"
    using unpersisted_children_item [of "fst k" "snd k"] k(1) by (cases k) auto
  have "\<not> (\<exists>a. m = Persisted a)" using c(3) by auto
  then obtain n' u where n': "cell_node m = Some n'" "ts c = Some u" "to_save rdv alg C n' u"
    "\<And>cid. trie_at t cid = Some u \<Longrightarrow> x \<in> set (unsaved_below n' cid) \<Longrightarrow> handle_ok rdv alg C t x"
    using save_Branch.IH [OF c(2)] by auto
  have at: "trie_at t (cid @ [c]) = Some u" using trie_at_child [OF save_Branch.prems(1)] n'(2) by simp
  have "unsaved_at k = k # unsaved_below n' (fst k)" by (rule unsaved_at_node) (simp add: c n')
  then consider "x = k" | "x \<in> set (unsaved_below n' (cid @ [c]))" using k(2) c(1) by auto
  then show ?case
  proof cases
    case 1
    then show ?thesis using at n' c(1) by (auto simp: handle_ok_def)
  qed (use n'(4) at in blast)
qed simp

lemma unsaved_at_ok:
  assumes "handle_ok rdv alg C t h" "x \<in> set (unsaved_at h)"
  shows "handle_ok rdv alg C t x"
proof -
  obtain n u where n: "cell_node (snd h) = Some n" "trie_at t (fst h) = Some u" "to_save rdv alg C n u"
    using assms(1) by (auto simp: handle_ok_def)
  then consider "x = h" | "x \<in> set (unsaved_below n (fst h))" using assms(2) unsaved_at_node [OF n(1)] by auto
  then show ?thesis by cases (use assms(1) unsaved_below_ok [OF n(3,2)] in auto)
qed

subsection \<open>Placing a node\<close>

definition placed :: "nat reader_fn \<Rightarrow> node_hash_algorithm \<Rightarrow> contents \<Rightarrow> trie \<Rightarrow> cells \<Rightarrow> bool" where
  "placed rdv alg D t cells \<longleftrightarrow>
     (\<forall>x m. cells x = Some m \<longrightarrow> (\<exists>a u. as_linear_address m = Some a \<and> trie_at t x = Some u \<and> on_disk rdv alg D a u))"

lemma placed_child:
  assumes save: "to_save rdv alg C (Branch p v cs) (TBranch p v ts)" and le: "C \<subseteq>\<^sub>m D"
    and at: "trie_at t cid = Some (TBranch p v ts)" and placed: "placed rdv alg D t cells"
    and kids: "\<And>k. k \<in> set (unpersisted_children Map.empty cid cs) \<Longrightarrow> cells (fst k) \<noteq> None"
    and ch: "cs c = Some ch"
  shows "\<exists>a h u. child_persist_info (child_now cells (cid @ [c]) ch) = Some (a, h) \<and> storable_hash alg h \<and>
    ts c = Some u \<and> on_disk rdv alg D a u"
proof -
  obtain h u where h: "child_hash ch = Some h" "storable_hash alg h" "ts c = Some u"
    "(\<exists>m. cell_node (as_maybe_persisted_node ch) = Some m) \<or>
     (\<exists>a. as_maybe_persisted_node ch = Persisted a \<and> on_disk rdv alg C a u)"
    using save ch by (elim to_save_BranchE) blast
  show ?thesis
  proof (cases ch)
    case (AddressWithHash a h')
    then show ?thesis using h on_disk_mono [OF _ le] by auto
  next
    case (ChildMaybePersisted m h')
    show ?thesis
    proof (cases "cells (cid @ [c])")
      case None
      have "cell_node m = None"
      proof (rule ccontr)
        assume "cell_node m \<noteq> None"
        then have "(cid @ [c], m) \<in> set (unpersisted_children Map.empty cid cs)"
          using unpersisted_children_item ch ChildMaybePersisted by blast
        then show False using kids None by fastforce
      qed
      then obtain a where "m = Persisted a" "on_disk rdv alg C a u" using h(4) ChildMaybePersisted by auto
      then show ?thesis using h ChildMaybePersisted None on_disk_mono [OF _ le] by (auto simp: cell_state_def)
    next
      case (Some m')
      then obtain a u' where "as_linear_address m' = Some a" "trie_at t (cid @ [c]) = Some u'" "on_disk rdv alg D a u'"
        using placed unfolding placed_def by blast
      then show ?thesis using h ChildMaybePersisted Some trie_at_child [OF at] by (auto simp: cell_state_def)
    qed
  qed (use h in auto)
qed

lemma placed_node:
  assumes save: "to_save rdv alg C n u" and le: "C \<subseteq>\<^sub>m D" and at: "trie_at t cid = Some u"
    and placed: "placed rdv alg D t cells"
    and kids: "\<And>p v cs k. n = Branch p v cs \<Longrightarrow> k \<in> set (unpersisted_children Map.empty cid cs) \<Longrightarrow> cells (fst k) \<noteq> None"
    and pos: "\<And>a i. (a, i) \<in> dom D \<Longrightarrow> a \<noteq> 0"
  shows "storable alg (node_now cells cid n)" "roomy (partial_path (node_now cells cid n)) (node_value (node_now cells cid n))"
    "\<lbrakk>D \<subseteq>\<^sub>m D'; D' (a, i) = Some (i # body); reads (from_reader rdv alg) body (stored_node (node_now cells cid n))\<rbrakk> \<Longrightarrow>
     on_disk rdv alg D' a u"
proof -
  have "storable alg (node_now cells cid n) \<and> roomy (partial_path (node_now cells cid n)) (node_value (node_now cells cid n)) \<and>
    (D \<subseteq>\<^sub>m D' \<longrightarrow> D' (a, i) = Some (i # body) \<longrightarrow> reads (from_reader rdv alg) body (stored_node (node_now cells cid n)) \<longrightarrow>
     on_disk rdv alg D' a u)"
  proof (cases n)
    case (Leaf p v)
    then have "roomy p (Some v)" "u = TLeaf p v" using save by (auto elim: to_save_LeafE)
    then show ?thesis using Leaf roomy_isize [of p "Some v"] disk_Leaf [of D'] by auto
  next
    case (Branch p v cs)
    obtain ts where ts: "u = TBranch p v ts" "roomy p v" "iter_present cs \<noteq> []" "\<And>c. cs c = None \<Longrightarrow> ts c = None"
      using save unfolding Branch by (elim to_save_BranchE) blast
    define cs' where "cs' = (\<lambda>c. map_option (child_now cells (cid @ [c])) (cs c))"
    have now: "node_now cells cid n = Branch p v cs'" by (simp add: Branch cs'_def)
    have child: "\<exists>a h u. child_persist_info ch = Some (a, h) \<and> a \<noteq> 0 \<and> storable_hash alg h \<and> ts c = Some u \<and> on_disk rdv alg D a u"
      if "cs' c = Some ch" for c ch
    proof -
      obtain ch0 where "cs c = Some ch0" "ch = child_now cells (cid @ [c]) ch0" using \<open>cs' c = Some ch\<close> by (auto simp: cs'_def)
      then show ?thesis
        using placed_child [OF save [unfolded Branch ts] le at [unfolded ts] placed kids [OF Branch]] on_disk_used pos by blast
    qed
    have "iter_present cs' \<noteq> []"
    proof -
      obtain c ch where "(c, ch) \<in> set (iter_present cs)" using ts(3) by (metis list.set_sel(1) surj_pair)
      then have "(c, child_now cells (cid @ [c]) ch) \<in> set (iter_present cs')" by (simp add: cs'_def)
      then show ?thesis by (metis empty_iff list.set(1))
    qed
    moreover have "list_all (\<lambda>(i, ch). storable_child alg ch) (iter_present cs')"
      unfolding list_all_iff by (auto simp: storable_child_def dest!: child)
    ultimately have "storable alg (Branch p v cs')" using roomy_isize [OF ts(2)] by simp
    moreover have "on_disk rdv alg D' a u" if D': "D \<subseteq>\<^sub>m D'" "D' (a, i) = Some (i # body)"
      "reads (from_reader rdv alg) body (stored_node (Branch p v cs'))"
    proof -
      have "\<exists>b h u. ch = AddressWithHash b h \<and> ts c = Some u \<and> on_disk rdv alg D' b u"
        if stored: "map_option stored_child (cs' c) = Some ch" for c ch
      proof -
        obtain ch' where "cs' c = Some ch'" "ch = stored_child ch'" using stored by auto
        then show ?thesis using child [of c ch'] on_disk_mono [OF _ D'(1)] by (auto simp: stored_child_def)
      qed
      then show ?thesis unfolding ts(1)
        by (intro disk_Branch [where C = D' and cs = "\<lambda>c. map_option stored_child (cs' c)", OF D'(2) D'(3) [unfolded stored_node.simps]])
          (auto simp: cs'_def ts(4))
    qed
    ultimately show ?thesis using ts(2) unfolding now by simp
  qed
  then show "storable alg (node_now cells cid n)" "roomy (partial_path (node_now cells cid n)) (node_value (node_now cells cid n))"
    "\<lbrakk>D \<subseteq>\<^sub>m D'; D' (a, i) = Some (i # body); reads (from_reader rdv alg) body (stored_node (node_now cells cid n))\<rbrakk> \<Longrightarrow>
     on_disk rdv alg D' a u" by blast+
qed

end
