(* ===== verification/Persist_Laws.thy ===== *)
theory Persist_Laws
  imports Persist_Disk
begin

section \<open>Writing every node of a revision\<close>

text \<open>
  The invariant of the loop of \<open>process_unpersisted_nodes\<close>: the nodes that are placed have areas of their own,
  those that are written are in place, and every cell that has an address leads to its trie; and what the
  invariant gives for the whole loop.
\<close>

subsection \<open>The header\<close>

definition same_header :: "node_store_header \<Rightarrow> node_store_header \<Rightarrow> bool" where
  "same_header h h' \<longleftrightarrow> h' = h\<lparr>h_size := h_size h', h_free_lists := h_free_lists h'\<rparr>"

lemma same_header_refl [simp]: "same_header h h"
  by (simp add: same_header_def)

lemma same_header_trans: "same_header h h' \<Longrightarrow> same_header h' h'' \<Longrightarrow> same_header h h''"
  by (cases h; cases h'; cases h'') (simp add: same_header_def)

lemma allocate_node_same: "allocate_node rdv node al = (r, al') \<Longrightarrow> same_header (al_header al) (al_header al')"
  by (auto simp: allocate_node_def allocate_from_freed_def allocate_from_end_def sbind_def sreturn_def set_head_def
      free_list_cache_def same_header_def Let_def split: sum.splits option.splits prod.splits)

lemma alloc_inv_area:
  assumes "alloc_inv rdv al used fl" "(a, i) \<in> used"
  shows "i < 23" "2048 \<le> unat a" "16 dvd unat a" "unat a + AREA_SIZES ! unat i \<le> unat (h_size (al_header al))"
proof -
  have "area_ok (unat (h_size (al_header al))) (a, i)" using assms areas_okD by (fastforce simp: alloc_inv_def)
  then show "i < 23" "2048 \<le> unat a" "16 dvd unat a" "unat a + AREA_SIZES ! unat i \<le> unat (h_size (al_header al))" by simp_all
qed

lemma alloc_inv_wf:
  assumes "alloc_inv rdv al used fl" "header_wf h" "same_header h (al_header al)"
  shows "header_wf (al_header al)"
proof -
  have "h_free_lists (al_header al) ! j \<noteq> Some 0" if j: "j < 23" for j
  proof
    assume 0: "h_free_lists (al_header al) ! j = Some 0"
    let ?i = "word_of_nat j :: area_index"
    have i: "unat ?i = j" "?i < 23" using j by (simp_all add: unat_word_of_nat_eq word_less_nat_alt)
    have "chain rdv (al_storage al) ?i (Some 0) (fl ?i)" using alloc_inv_list(1) [OF assms(1) i(2)] 0 i(1) by (simp add: get_head_def)
    then have "0 \<in> set (fl ?i)" by (cases "fl ?i") auto
    then have "(0, ?i) \<in> free_areas fl" using i(2) by (simp add: free_areas_def)
    then have "area_ok (unat (h_size (al_header al))) (0, ?i)"
      using assms(1) unfolding alloc_inv_def by (meson UnI2 areas_okD)
    then show False by simp
  qed
  moreover have len: "length (h_free_lists (al_header al)) = 23" using assms(1) by (simp add: alloc_inv_def)
  ultimately have "list_all (\<lambda>m. m \<noteq> Some 0) (h_free_lists (al_header al))" by (simp add: list_all_length)
  then show ?thesis using assms(2) len by (subst assms(3) [unfolded same_header_def]) (simp add: header_wf_def NUM_AREA_SIZES_def AREA_SIZES_def)
qed

subsection \<open>The invariant\<close>

fun obj_area :: "allocated_object \<Rightarrow> area" where
  "obj_area (b, a, cid) = (a, hd b)"

fun obj_ok :: "contents \<Rightarrow> cells \<Rightarrow> allocated_object \<Rightarrow> bool" where
  "obj_ok D cells (b, a, cid) \<longleftrightarrow>
     (\<exists>i body n. b = i # body \<and> D (a, i) = Some b \<and> length b \<le> AREA_SIZES ! unat i \<and> cells cid = Some (Allocated a n))"

text \<open>The storage ends within the last area, or a node that is to be written will make it so.\<close>

definition sized :: "allocator \<Rightarrow> allocated_object list \<Rightarrow> bool" where
  "sized al objs \<longleftrightarrow> storage_size (al_storage al) \<le> unat (h_size (al_header al)) \<and>
     (unat (h_size (al_header al)) < storage_size (al_storage al) + MAX_AREA_SIZE \<or>
      (\<exists>x \<in> set objs. unat (h_size (al_header al)) \<le> area_end (obj_area x)))"

definition loop_inv ::
  "nat reader_fn \<Rightarrow> node_hash_algorithm \<Rightarrow> trie \<Rightarrow> contents \<Rightarrow> node_store_header \<Rightarrow> contents \<Rightarrow> (area_index \<Rightarrow> laddr list) \<Rightarrow>
   allocated_object list \<Rightarrow> persist_state \<Rightarrow> bool" where
  "loop_inv rdv alg t C h0 D fl objs s \<longleftrightarrow>
     C \<subseteq>\<^sub>m D \<and> alloc_inv rdv (pst_alloc s) (dom D) fl \<and>
     contents_ok (st_bytes (al_storage (pst_alloc s))) (D |` (- obj_area ` set objs)) \<and>
     list_all (obj_ok D (pst_cells s)) objs \<and> distinct (map obj_area objs) \<and> distinct (map (snd \<circ> snd) objs) \<and>
     placed rdv alg D t (pst_cells s) \<and> sized (pst_alloc s) objs \<and> same_header h0 (al_header (pst_alloc s))"

lemma contents_ok_le: "contents_ok bs D \<Longrightarrow> C \<subseteq>\<^sub>m D \<Longrightarrow> contents_ok bs C"
  unfolding contents_ok_def map_le_def by (metis domI)

lemma placed_upd:
  assumes "placed rdv alg D t cells" "D \<subseteq>\<^sub>m D'" "as_linear_address m = Some a" "trie_at t x = Some u" "on_disk rdv alg D' a u"
  shows "placed rdv alg D' t (cells(x \<mapsto> m))"
  unfolding placed_def
proof (intro allI impI)
  fix y m' assume y: "(cells(x \<mapsto> m)) y = Some m'"
  show "\<exists>a u. as_linear_address m' = Some a \<and> trie_at t y = Some u \<and> on_disk rdv alg D' a u"
  proof (cases "y = x")
    case True
    then show ?thesis using y assms by auto
  next
    case False
    then have "cells y = Some m'" using y by simp
    then show ?thesis using assms(1) on_disk_mono [OF _ assms(2)] unfolding placed_def by blast
  qed
qed

lemma loop_inv_place:
  assumes inv: "loop_inv rdv alg t C h0 D fl objs s"
    and al: "alloc_inv rdv al (insert (a, i) (dom D)) fl'" "(a, i) \<notin> dom D"
      "st_bytes (al_storage al) = st_bytes (al_storage (pst_alloc s))" "same_header (al_header (pst_alloc s)) (al_header al)"
    and size: "h_size (al_header al) = h_size (al_header (pst_alloc s)) \<or>
      (a = h_size (al_header (pst_alloc s)) \<and> unat (h_size (al_header al)) = unat a + AREA_SIZES ! unat i)"
    and len: "length (i # body) \<le> AREA_SIZES ! unat i"
    and cid: "pst_cells s cid = None" "trie_at t cid = Some u" "on_disk rdv alg (D((a, i) \<mapsto> i # body)) a u"
  shows "loop_inv rdv alg t C h0 (D((a, i) \<mapsto> i # body)) fl' (objs @ [(i # body, a, cid)])
    \<lparr>pst_alloc = al, pst_cells = (pst_cells s)(cid \<mapsto> Allocated a n)\<rparr>"
proof -
  let ?D = "D((a, i) \<mapsto> i # body)"
  have le: "D \<subseteq>\<^sub>m ?D" using al(2) by (auto simp: map_le_def)
  have old: "obj_area x \<in> dom D \<and> (snd (snd x)) \<noteq> cid" if "x \<in> set objs" for x
  proof -
    obtain b c d where x: "x = (b, c, d)" by (cases x)
    have "obj_ok D (pst_cells s) x" using inv that by (simp add: loop_inv_def list_all_iff)
    then show ?thesis using cid(1) unfolding x by auto
  qed
  have "C \<subseteq>\<^sub>m ?D" using le inv map_le_trans unfolding loop_inv_def by blast
  moreover have "dom ?D = insert (a, i) (dom D)" by simp
  moreover have "?D |` (- obj_area ` set (objs @ [(i # body, a, cid)])) = D |` (- obj_area ` set objs)"
    using al(2) by (auto simp: restrict_map_def fun_eq_iff)
  moreover have "list_all (obj_ok ?D ((pst_cells s)(cid \<mapsto> Allocated a n))) (objs @ [(i # body, a, cid)])"
  proof -
    have "obj_ok ?D ((pst_cells s)(cid \<mapsto> Allocated a n)) x" if "x \<in> set objs" for x
    proof -
      obtain b c d where x: "x = (b, c, d)" by (cases x)
      have "obj_ok D (pst_cells s) x" using inv that by (simp add: loop_inv_def list_all_iff)
      then show ?thesis using old [OF that] al(2) unfolding x by auto
    qed
    then show ?thesis using len by (simp add: list_all_iff)
  qed
  moreover have "distinct (map obj_area (objs @ [(i # body, a, cid)]))" "distinct (map (snd \<circ> snd) (objs @ [(i # body, a, cid)]))"
  proof -
    have "(a, i) \<notin> set (map obj_area objs)" "cid \<notin> set (map (snd \<circ> snd) objs)" using old al(2) by fastforce+
    then show "distinct (map obj_area (objs @ [(i # body, a, cid)]))" "distinct (map (snd \<circ> snd) (objs @ [(i # body, a, cid)]))"
      using inv by (simp_all add: loop_inv_def)
  qed
  moreover have "placed rdv alg ?D t ((pst_cells s)(cid \<mapsto> Allocated a n))"
    by (rule placed_upd [OF _ le _ cid(2,3)]) (use inv in \<open>simp_all add: loop_inv_def\<close>)
  moreover have "sized al (objs @ [(i # body, a, cid)])"
  proof -
    have old: "sized (pst_alloc s) objs" using inv by (simp add: loop_inv_def)
    show ?thesis using size
    proof
      assume eq: "h_size (al_header al) = h_size (al_header (pst_alloc s))"
      show ?thesis using old unfolding sized_def storage_size_def al(3) eq set_append by blast
    next
      assume "a = h_size (al_header (pst_alloc s)) \<and> unat (h_size (al_header al)) = unat a + AREA_SIZES ! unat i"
      then show ?thesis using old unfolding sized_def storage_size_def al(3) by simp
    qed
  qed
  moreover have "same_header h0 (al_header al)" using inv al(4) same_header_trans by (auto simp: loop_inv_def)
  ultimately show ?thesis using inv al(1,3) by (simp add: loop_inv_def)
qed

lemma place_node_inv:
  assumes vi: "varint enc rdv" and inv: "loop_inv rdv alg t C h0 D fl objs s" and ok: "handle_ok rdv alg C t hn"
    and new: "pst_cells s (fst hn) = None" and kids: "\<And>k. k \<in> set (kids hn) \<Longrightarrow> pst_cells s (fst k) \<noteq> None"
    and room: "unat (h_size (al_header (pst_alloc s))) + MAX_AREA_SIZE < 2 ^ 64"
  obtains b a and i :: area_index and s1 D1 fl1 where
    "place_node enc rdv alg rd hn s = (Inr ((b, a, fst hn), AREA_SIZES ! unat i), s1)"
    "loop_inv rdv alg t C h0 D1 fl1 (objs @ [(b, a, fst hn)]) s1" "i < 23" "length b \<le> AREA_SIZES ! unat i"
    "unat (h_size (al_header (pst_alloc s1))) \<le> unat (h_size (al_header (pst_alloc s))) + MAX_AREA_SIZE"
    "dom (pst_cells s1) = insert (fst hn) (dom (pst_cells s))"
proof -
  obtain n u where n: "cell_node (snd hn) = Some n" "trie_at t (fst hn) = Some u" "to_save rdv alg C n u"
    using ok by (auto simp: handle_ok_def)
  let ?now = "node_now (pst_cells s) (fst hn) n"
  have inv': "C \<subseteq>\<^sub>m D" "alloc_inv rdv (pst_alloc s) (dom D) fl" "placed rdv alg D t (pst_cells s)"
    using inv by (simp_all add: loop_inv_def)
  have pos: "a \<noteq> 0" if "(a, i) \<in> dom D" for a i using alloc_inv_area(2) [OF inv'(2) that] by auto
  have kids': "pst_cells s (fst k) \<noteq> None" if "n = Branch p v cs" "k \<in> set (unpersisted_children Map.empty (fst hn) cs)" for p v cs k
    using kids [of k] that n(1) by (simp add: kids_def)
  have now: "storable alg ?now" "roomy (partial_path ?now) (node_value ?now)"
    by (rule placed_node(1,2) [OF n(3) inv'(1) n(2) inv'(3)]; use kids' pos in blast)+
  obtain i body where b: "as_bytes enc alg ?now [] = Inr (i # body, i)" "i < 23" "length (i # body) \<le> AREA_SIZES ! unat i"
    "reads (from_reader rdv alg) body (stored_node ?now)" "from_size (length (i # body)) = Inr i"
    by (rule varint.as_bytes_reads [OF vi now(1,2)])
  have "length (i # body) \<le> MAX_AREA_SIZE" using b(3) area_size_bounds(3) [OF b(2)] by linarith
  then obtain a j al fl' where al: "allocate_node rdv (i # body) (pst_alloc s) = (Inr (a, j), al)"
    "alloc_inv rdv al (insert (a, j) (dom D)) fl'" "(a, j) \<notin> dom D" "st_bytes (al_storage al) = st_bytes (al_storage (pst_alloc s))"
    "case fl j of b # l \<Rightarrow> a = b \<and> fl' = fl(j := l) \<and> h_size (al_header al) = h_size (al_header (pst_alloc s))
     | [] \<Rightarrow> a = h_size (al_header (pst_alloc s)) \<and> fl' = fl \<and>
         unat (h_size (al_header al)) = unat (h_size (al_header (pst_alloc s))) + AREA_SIZES ! unat j"
    using allocate_node_inv [OF inv'(2) _ room, where thesis = thesis] by blast
  have j: "j = i" using al(1) b(5) by (auto simp: allocate_node_def sbind_def sreturn_def split: prod.splits sum.splits)
  have size: "h_size (al_header al) = h_size (al_header (pst_alloc s)) \<or>
      (a = h_size (al_header (pst_alloc s)) \<and> unat (h_size (al_header al)) = unat a + AREA_SIZES ! unat i)"
    using al(5) j by (auto split: list.splits)
  let ?D = "D((a, i) \<mapsto> i # body)" and ?s = "\<lparr>pst_alloc = al, pst_cells = (pst_cells s)(fst hn \<mapsto> Allocated a n)\<rparr>"
  have le: "D \<subseteq>\<^sub>m ?D" using al(3) j by (auto simp: map_le_def)
  have disk: "on_disk rdv alg ?D a u"
    by (rule placed_node(3) [OF n(3) inv'(1) n(2) inv'(3) _ _ le _ b(4)]) (use kids' pos in \<open>simp_all, blast?\<close>)
  have linv: "loop_inv rdv alg t C h0 ?D fl' (objs @ [(i # body, a, fst hn)]) ?s"
    by (rule loop_inv_place [OF inv _ _ al(4) allocate_node_same [OF al(1)] size b(3) new n(2) disk]) (use al(2,3) j in simp_all)
  have place: "place_node enc rdv alg rd hn s = (Inr ((i # body, a, fst hn), AREA_SIZES ! unat i), ?s)"
  proof -
    have "allocate_at (cell_state (pst_cells s) hn) a = Inr (Allocated a n)"
      using n(1) new by (cases "snd hn") (simp_all add: cell_state_def)
    then show ?thesis using expect_fresh [where cells = "pst_cells s" and rd = rd, OF n(1) new] b(1) al(1) by (simp add: place_node_def serialize_node_to_bump_def)
  qed
  show thesis by (rule that [OF place linv b(2,3)]) (use size area_size_bounds(3) [OF b(2)] in auto)
qed

subsection \<open>Writing a batch\<close>

text \<open>A write below the areas, where the header is, leaves the areas alone.\<close>

lemma alloc_inv_low:
  assumes inv: "alloc_inv rdv al used fl" and h: "h_size h = h_size (al_header al)" "h_free_lists h = h_free_lists (al_header al)"
    and cache: "st_free_cache st = st_free_cache (al_storage al)"
    and keep: "\<And>b xs. 2048 \<le> b \<Longrightarrow> holds (st_bytes (al_storage al)) b xs \<Longrightarrow> holds (st_bytes st) b xs"
  shows "alloc_inv rdv \<lparr>al_storage = st, al_header = h\<rparr> used fl"
proof -
  have "chain rdv st j (get_head j al) (fl j)" if j: "j < 23" for j
  proof (rule chain_mono [OF alloc_inv_list(1) [OF inv j]])
    fix b xs assume b: "b \<in> set (fl j)" and xs: "holds (st_bytes (al_storage al)) (unat b) xs"
    have "(b, j) \<in> free_areas fl" using b j by (simp add: free_areas_def)
    then have "area_ok (unat (h_size (al_header al))) (b, j)" using inv unfolding alloc_inv_def by (meson UnI2 areas_okD)
    then show "holds (st_bytes st) (unat b) xs" using keep xs by simp
  qed (simp add: cache)
  then show ?thesis using inv h by (simp add: alloc_inv_def heads_ok_def get_head_def)
qed

lemma contents_ok_low:
  assumes inv: "alloc_inv rdv al used fl" and ok: "contents_ok bs D" "dom D \<subseteq> used"
    and keep: "\<And>b xs. 2048 \<le> b \<Longrightarrow> holds bs b xs \<Longrightarrow> holds bs' b xs"
  shows "contents_ok bs' D"
  unfolding contents_ok_def
proof (intro allI impI)
  fix a i xs assume D: "D (a, i) = Some xs"
  then have "2048 \<le> unat a" by (intro alloc_inv_area(2) [OF inv]) (use ok(2) in auto)
  then show "holds bs' (unat a) xs \<and> length xs \<le> AREA_SIZES ! unat i \<and> xs \<noteq> [] \<and> hd xs = i"
    using ok(1) D keep unfolding contents_ok_def by blast
qed

lemma flush_freelist_keeps:
  assumes inv: "alloc_inv rdv al used fl"
  obtains al' where "flush_freelist al = (Inr (), al')" "al_header al' = al_header al" "alloc_inv rdv al' used fl"
    "\<And>b xs. 2048 \<le> b \<Longrightarrow> holds (st_bytes (al_storage al)) b xs \<Longrightarrow> holds (st_bytes (al_storage al')) b xs"
    "storage_size (al_storage al) \<le> storage_size (al_storage al')" "storage_size (al_storage al') \<le> max (storage_size (al_storage al)) 2048"
proof -
  let ?b = "free_lists_bytes (h_free_lists (al_header al))"
  define st where "st = (al_storage al)\<lparr>st_bytes := write_bytes (st_bytes (al_storage al)) free_lists_offset ?b\<rparr>"
  have len: "length ?b = 184" using inv by (simp add: length_free_lists_bytes alloc_inv_def)
  have keep: "holds (st_bytes st) b xs" if "2048 \<le> b" "holds (st_bytes (al_storage al)) b xs" for b xs
    using that len by (auto simp: st_def free_lists_offset_def intro: holds_write_other)
  have "alloc_inv rdv \<lparr>al_storage = st, al_header = al_header al\<rparr> used fl"
    by (rule alloc_inv_low [OF inv]) (use keep in \<open>simp_all add: st_def\<close>)
  moreover have "flush_freelist al = (Inr (), \<lparr>al_storage = st, al_header = al_header al\<rparr>)"
    by (simp add: flush_freelist_def storage_write_def st_def)
  ultimately show thesis
    by (intro that [of "\<lparr>al_storage = st, al_header = al_header al\<rparr>"])
      (use keep len in \<open>auto simp: st_def storage_size_def length_write_bytes free_lists_offset_def\<close>)
qed

definition batch :: "allocated_object list \<Rightarrow> (nat \<times> u8 list) list" where
  "batch objs = map (\<lambda>(data, addr, _). (unat addr, data)) objs"

definition batch_len :: "allocated_object list \<Rightarrow> nat" where
  "batch_len objs = sum_list (map (\<lambda>(data, _). length data) objs)"

lemma write_batch_inv:
  assumes "alloc_inv rdv al (dom D) fl" "contents_ok (st_bytes (al_storage al)) (D |` (- obj_area ` set objs))"
    "list_all (obj_ok D cells) objs" "distinct (map obj_area objs)" "acc + batch_len objs < 2 ^ 64"
    "storage_size (al_storage al) \<le> unat (h_size (al_header al))"
  shows "\<exists>n st. write_batch_from acc (batch objs) (al_storage al) = (Inr n, st) \<and>
    alloc_inv rdv (al\<lparr>al_storage := st\<rparr>) (dom D) fl \<and> contents_ok (st_bytes st) D \<and>
    storage_size st \<le> unat (h_size (al_header al)) \<and> storage_size (al_storage al) \<le> storage_size st \<and>
    list_all (\<lambda>x. area_start (obj_area x) < storage_size st) objs"
  using assms
proof (induction objs arbitrary: acc al)
  case Nil
  then show ?case by (simp add: batch_def sreturn_def restrict_map_def)
next
  case (Cons x objs)
  obtain b a cid where x0: "x = (b, a, cid)" by (cases x)
  obtain i body where x: "x = (i # body, a, cid)" "D (a, i) = Some (i # body)" "length (i # body) \<le> AREA_SIZES ! unat i"
    using Cons.prems(3) unfolding x0 by auto
  define st where "st = (al_storage al)\<lparr>st_bytes := write_bytes (st_bytes (al_storage al)) (unat a) (i # body)\<rparr>"
  let ?al = "al\<lparr>al_storage := st\<rparr>"
  have used: "(a, i) \<in> dom D" using x(2) by blast
  have inv: "alloc_inv rdv ?al (dom D) fl" unfolding st_def by (rule alloc_inv_write [OF Cons.prems(1) used x(3)])
  let ?D = "D |` (- obj_area ` set (x # objs))"
  have "areas_ok (unat (h_size (al_header al))) (insert (a, i) (dom ?D))"
  proof (rule areas_ok_subset)
    show "areas_ok (unat (h_size (al_header al))) (dom D \<union> free_areas fl)" using Cons.prems(1) by (simp add: alloc_inv_def)
  qed (use used in auto)
  moreover have "?D (a, i) = None" by (simp add: x restrict_map_def)
  ultimately have "contents_ok (st_bytes st) (?D((a, i) \<mapsto> i # body))"
    using contents_ok_write [OF _ _ Cons.prems(2) x(3)] by (simp add: st_def)
  moreover have "?D((a, i) \<mapsto> i # body) = D |` (- obj_area ` set objs)"
  proof -
    have "(a, i) \<notin> obj_area ` set objs" using Cons.prems(4) x by simp
    then show ?thesis using x by (auto simp: restrict_map_def fun_eq_iff)
  qed
  ultimately have ok: "contents_ok (st_bytes (al_storage ?al)) (D |` (- obj_area ` set objs))" by simp
  have len: "storage_size st = max (storage_size (al_storage al)) (unat a + length (i # body))"
    by (simp add: storage_size_def st_def length_write_bytes)
  have "storage_size st \<le> unat (h_size (al_header al))"
    using len Cons.prems(6) alloc_inv_area(4) [OF Cons.prems(1) used] x(3) by simp
  then obtain n st' where st': "write_batch_from (acc + length (i # body)) (batch objs) st = (Inr n, st')"
    "alloc_inv rdv (al\<lparr>al_storage := st'\<rparr>) (dom D) fl" "contents_ok (st_bytes st') D"
    "storage_size st' \<le> unat (h_size (al_header al))" "storage_size st \<le> storage_size st'"
    "list_all (\<lambda>x. area_start (obj_area x) < storage_size st') objs"
    using Cons.IH [OF inv ok, of "acc + length (i # body)"] Cons.prems(3-5) x(1) by (auto simp: batch_len_def)
  have "write_batch_from acc (batch (x # objs)) (al_storage al) = write_batch_from (acc + length (i # body)) (batch objs) st"
    using Cons.prems(5) by (simp add: batch_def x(1) batch_len_def sbind_def storage_write_def st_def)
  then show ?case using st' len x(1) by auto
qed

lemma mark_persisted_placed:
  assumes "placed rdv alg D t cells" "distinct cids" "\<And>cid. cid \<in> set cids \<Longrightarrow> \<exists>a n. cells cid = Some (Allocated a n)"
  shows "\<exists>cells'. mark_persisted cids cells = (Inr (), cells') \<and> placed rdv alg D t cells' \<and> dom cells' = dom cells"
  using assms
proof (induction cids arbitrary: cells)
  case (Cons cid cids)
  obtain a n where a: "cells cid = Some (Allocated a n)" using Cons.prems(3) by fastforce
  then obtain u where "trie_at t cid = Some u" "on_disk rdv alg D a u" using Cons.prems(1) by (force simp: placed_def)
  then have "placed rdv alg D t (cells(cid \<mapsto> Persisted a))" using Cons.prems(1) by (intro placed_upd) auto
  moreover have "\<exists>a' n. (cells(cid \<mapsto> Persisted a)) x = Some (Allocated a' n)" if "x \<in> set cids" for x
    using Cons.prems(2) Cons.prems(3) [of x] that by auto
  ultimately obtain cells' where "mark_persisted cids (cells(cid \<mapsto> Persisted a)) = (Inr (), cells')" "placed rdv alg D t cells'"
    "dom cells' = dom (cells(cid \<mapsto> Persisted a))"
    using Cons.IH Cons.prems(2) by (metis distinct.simps(2))
  then show ?case using a by auto
qed simp

lemma flush_and_write_inv:
  assumes inv: "loop_inv rdv alg t C h0 D fl objs s" and len: "batch_len objs < 2 ^ 64"
  obtains s' where "flush_and_write objs s = (Inr (), s')" "loop_inv rdv alg t C h0 D fl [] s'"
    "dom (pst_cells s') = dom (pst_cells s)" "al_header (pst_alloc s') = al_header (pst_alloc s)"
proof -
  note I = inv [unfolded loop_inv_def]
  obtain al where al: "flush_freelist (pst_alloc s) = (Inr (), al)" "al_header al = al_header (pst_alloc s)" "alloc_inv rdv al (dom D) fl"
    "\<And>b xs. 2048 \<le> b \<Longrightarrow> holds (st_bytes (al_storage (pst_alloc s))) b xs \<Longrightarrow> holds (st_bytes (al_storage al)) b xs"
    "storage_size (al_storage (pst_alloc s)) \<le> storage_size (al_storage al)"
    "storage_size (al_storage al) \<le> max (storage_size (al_storage (pst_alloc s))) 2048"
    by (rule flush_freelist_keeps [of rdv "pst_alloc s" "dom D" fl]) (use I in blast)+
  let ?D = "D |` (- obj_area ` set objs)"
  have "contents_ok (st_bytes (al_storage al)) ?D"
    by (rule contents_ok_low [OF al(3) _ _ al(4)]) (use I in auto)
  moreover have "storage_size (al_storage al) \<le> unat (h_size (al_header al))"
    by (rule order.trans [OF al(6)]) (use al(2,3) I in \<open>simp add: sized_def alloc_inv_def\<close>)
  ultimately obtain n st where st: "write_batch (batch objs) (al_storage al) = (Inr n, st)"
    "alloc_inv rdv (al\<lparr>al_storage := st\<rparr>) (dom D) fl" "contents_ok (st_bytes st) D"
    "storage_size st \<le> unat (h_size (al_header al))" "storage_size (al_storage al) \<le> storage_size st"
    "list_all (\<lambda>x. area_start (obj_area x) < storage_size st) objs"
    using write_batch_inv [OF al(3), of objs "pst_cells s" 0] I len by (auto simp: write_batch_def)
  have cids: "map (\<lambda>(_, _, cid). cid) objs = map (snd \<circ> snd) objs" by auto
  have "distinct (map (\<lambda>(_, _, cid). cid) objs)" using I unfolding cids by blast
  moreover have "\<exists>a n. pst_cells s cid = Some (Allocated a n)" if cid: "cid \<in> set (map (\<lambda>(_, _, cid). cid) objs)" for cid
  proof -
    obtain x where x: "x \<in> set objs" "cid = snd (snd x)" using cid unfolding cids by auto
    then have "obj_ok D (pst_cells s) x" using I by (simp add: list_all_iff)
    then show ?thesis using x(2) by (cases x) auto
  qed
  ultimately obtain cells where cells: "mark_persisted (map (\<lambda>(_, _, cid). cid) objs) (pst_cells s) = (Inr (), cells)"
    "placed rdv alg D t cells" "dom cells = dom (pst_cells s)"
    using mark_persisted_placed [of rdv alg D t "pst_cells s"] I by meson
  have "unat (h_size (al_header al)) < storage_size st + MAX_AREA_SIZE"
  proof (cases "unat (h_size (al_header al)) < storage_size (al_storage (pst_alloc s)) + MAX_AREA_SIZE")
    case False
    then obtain x where x: "x \<in> set objs" "unat (h_size (al_header al)) \<le> area_end (obj_area x)"
      using I al(2) by (auto simp: sized_def)
    have "obj_ok D (pst_cells s) x" using I x(1) by (simp add: list_all_iff)
    then have "obj_area x \<in> dom D" by (cases x) auto
    then have "snd (obj_area x) < 23" using alloc_inv_area(1) [OF al(3)] by (cases "obj_area x") auto
    then have "area_end (obj_area x) \<le> area_start (obj_area x) + MAX_AREA_SIZE"
      using area_size_bounds(3) by (cases "obj_area x") auto
    then show ?thesis using x st(6) by (auto simp: list_all_iff)
  qed (use st(5) al(5) in linarith)
  then have li: "loop_inv rdv alg t C h0 D fl [] \<lparr>pst_alloc = al\<lparr>al_storage := st\<rparr>, pst_cells = cells\<rparr>"
    using I st al(2) cells by (simp add: loop_inv_def restrict_map_def sized_def)
  have fw: "flush_and_write objs s = (Inr (), \<lparr>pst_alloc = al\<lparr>al_storage := st\<rparr>, pst_cells = cells\<rparr>)"
    using al(1) st(1) cells(1) by (simp add: flush_and_write_def write_objects_def batch_def)
  show thesis by (rule that [OF fw li]) (simp_all add: cells(3) al(2))
qed

subsection \<open>The loop\<close>

lemma batch_len_append: "batch_len (objs @ [(b, a, cid)]) = batch_len objs + length b"
  by (simp add: batch_len_def)

lemma process_list_inv:
  assumes "varint enc rdv" "loop_inv rdv alg t C h0 D fl objs s" "list_all (handle_ok rdv alg C t) hs"
    "distinct (map fst hs)" "fst ` set hs \<inter> dom (pst_cells s) = {}" "kids_first X hs" "fst ` X \<subseteq> dom (pst_cells s)"
    "batch_len objs \<le> len" "len \<le> MAX_AREA_SIZE"
    "unat (h_size (al_header (pst_alloc s))) + length hs * MAX_AREA_SIZE < 2 ^ 64"
  shows "\<exists>s' D' fl'. process_list enc rdv alg rd MAX_AREA_SIZE hs objs len s = (Inr (), s') \<and>
    loop_inv rdv alg t C h0 D' fl' [] s' \<and> fst ` set hs \<union> dom (pst_cells s) \<subseteq> dom (pst_cells s')"
  using assms
proof (induction hs arbitrary: D fl objs len s X)
  case Nil
  show ?case
  proof (cases "objs = []")
    case True
    then show ?thesis using Nil.prems(2) by auto
  next
    case False
    have "batch_len objs < 2 ^ 64" using Nil.prems(8,9) by simp
    from flush_and_write_inv [OF Nil.prems(2) this]
    obtain s' where "flush_and_write objs s = (Inr (), s')" "loop_inv rdv alg t C h0 D fl [] s'"
      "dom (pst_cells s') = dom (pst_cells s)" by metis
    then show ?thesis using False by auto
  qed
next
  case (Cons hn hs)
  have new: "pst_cells s (fst hn) = None" using Cons.prems(5) by auto
  have kids: "pst_cells s (fst k) \<noteq> None" if "k \<in> set (kids hn)" for k using Cons.prems(6,7) that by auto
  have room: "unat (h_size (al_header (pst_alloc s))) + MAX_AREA_SIZE < 2 ^ 64" using Cons.prems(10) by simp
  have "handle_ok rdv alg C t hn" using Cons.prems(3) by simp
  from place_node_inv [where rd = rd, OF Cons.prems(1,2) this new kids room]
  obtain b a s1 D1 fl1 and i :: area_index where
    p: "place_node enc rdv alg rd hn s = (Inr ((b, a, fst hn), AREA_SIZES ! unat i), s1)"
    "loop_inv rdv alg t C h0 D1 fl1 (objs @ [(b, a, fst hn)]) s1" "i < 23" "length b \<le> AREA_SIZES ! unat i"
    "unat (h_size (al_header (pst_alloc s1))) \<le> unat (h_size (al_header (pst_alloc s))) + MAX_AREA_SIZE"
    "dom (pst_cells s1) = insert (fst hn) (dom (pst_cells s))"
    by metis
  let ?objs = "objs @ [(b, a, fst hn)]" and ?sz = "AREA_SIZES ! unat i"
  have sz: "?sz \<le> MAX_AREA_SIZE" by (rule area_size_bounds(3) [OF p(3)])
  have len: "usize_saturating_add len ?sz = len + ?sz" using Cons.prems(9) sz by (simp add: usize_saturating_add_def)
  have bl: "batch_len ?objs \<le> len + ?sz" using Cons.prems(8) p(4) by (simp add: batch_len_append)
  have room: "unat (h_size (al_header (pst_alloc s1))) + length hs * MAX_AREA_SIZE < 2 ^ 64" using Cons.prems(10) p(5) by simp
  have hs: "list_all (handle_ok rdv alg C t) hs" "distinct (map fst hs)" "fst ` set hs \<inter> dom (pst_cells s1) = {}"
    "kids_first (insert hn X) hs" "fst ` insert hn X \<subseteq> dom (pst_cells s1)"
    using Cons.prems(3-7) by (auto simp: p(6))
  show ?case
  proof (cases "len + ?sz > MAX_AREA_SIZE - ?sz")
    case True
    have "batch_len ?objs < 2 ^ 64" using bl sz Cons.prems(9) by simp
    from flush_and_write_inv [OF p(2) this]
    obtain s2 where s2: "flush_and_write ?objs s1 = (Inr (), s2)" "loop_inv rdv alg t C h0 D1 fl1 [] s2"
      "dom (pst_cells s2) = dom (pst_cells s1)" "al_header (pst_alloc s2) = al_header (pst_alloc s1)" by metis
    have "\<exists>s' D' fl'. process_list enc rdv alg rd MAX_AREA_SIZE hs [] 0 s2 = (Inr (), s') \<and>
        loop_inv rdv alg t C h0 D' fl' [] s' \<and> fst ` set hs \<union> dom (pst_cells s2) \<subseteq> dom (pst_cells s')"
      by (rule Cons.IH [OF Cons.prems(1) s2(2) hs(1,2) _ hs(4)]) (use hs(3,5) room s2(3,4) in \<open>simp_all add: batch_len_def\<close>)
    then show ?thesis using True p(1,6) s2(1,3) len by auto
  next
    case False
    have "\<exists>s' D' fl'. process_list enc rdv alg rd MAX_AREA_SIZE hs ?objs (len + ?sz) s1 = (Inr (), s') \<and>
        loop_inv rdv alg t C h0 D' fl' [] s' \<and> fst ` set hs \<union> dom (pst_cells s1) \<subseteq> dom (pst_cells s')"
      by (rule Cons.IH [OF Cons.prems(1) p(2) hs bl]) (use False room in auto)
    then show ?thesis using False p(1,6) len by auto
  qed
qed

subsection \<open>The whole revision\<close>

lemma flush_nodes_inv:
  assumes vi: "varint enc rdv" and inv: "alloc_inv rdv al (dom C) fl" "contents_ok (st_bytes (al_storage al)) C" "sized al []"
    and root: "cell_node m = Some n" "as_maybe_persisted_node root = m" "to_save rdv alg C n t"
    and room: "unat (h_size (al_header al)) + length (unsaved_cell m []) * MAX_AREA_SIZE < 2 ^ 64"
  obtains s' D fl' where "flush_nodes enc rdv alg rd (Some root) \<lparr>pst_alloc = al, pst_cells = Map.empty\<rparr> = Some (Inr (), s')"
    "loop_inv rdv alg t C (al_header al) D fl' [] s'" "[] \<in> dom (pst_cells s')"
proof -
  let ?s = "\<lparr>pst_alloc = al, pst_cells = Map.empty\<rparr>"
  let ?l = "unsaved_at ([], m)"
  obtain it where it: "un_iter_new Map.empty rd (Some m) = Inr it" "iter_ok Map.empty it" "iter_rest it = leaves_first ?l"
    by (rule un_iter_new_root [OF root(1)])
  have ok: "handle_ok rdv alg C t ([], m)" using root by (simp add: handle_ok_def)
  have pre: "preorder ?l" using unsaved_preorder(3) by (simp add: unsaved_at_def)
  have "mset (leaves_first ?l) = mset ?l" by (simp add: leaves_first_def)
  then have len: "length (leaves_first ?l) = length (unsaved_cell m [])" by (metis size_mset unsaved_at_def fst_conv snd_conv)
  have li: "loop_inv rdv alg t C (al_header al) C fl [] ?s"
    using inv by (simp add: loop_inv_def placed_def restrict_map_def)
  have kf: "kids_first {} (leaves_first ?l)"
    by (rule leaves_first_kids [OF pre]) (use unsaved_closed(3) in \<open>simp add: unsaved_at_def\<close>)
  have hok: "list_all (handle_ok rdv alg C t) (leaves_first ?l)"
    using unsaved_at_ok [OF ok] by (simp add: list_all_iff)
  have dist: "distinct (map fst (leaves_first ?l))" by (rule leaves_first_distinct [OF preorder_distinct [OF pre]])
  have "\<exists>s' D' fl'. process_list enc rdv alg rd MAX_AREA_SIZE (leaves_first ?l) [] 0 ?s = (Inr (), s') \<and>
      loop_inv rdv alg t C (al_header al) D' fl' [] s' \<and> fst ` set (leaves_first ?l) \<union> dom (pst_cells ?s) \<subseteq> dom (pst_cells s')"
    by (rule process_list_inv [OF vi li hok dist _ kf]) (use room len in \<open>simp_all add: batch_len_def\<close>)
  then obtain s' D fl' where s': "process_list enc rdv alg rd MAX_AREA_SIZE (leaves_first ?l) [] 0 ?s = (Inr (), s')"
    "loop_inv rdv alg t C (al_header al) D fl' [] s'" "fst ` set (leaves_first ?l) \<union> dom (pst_cells ?s) \<subseteq> dom (pst_cells s')"
    by (elim exE conjE) (rule that; assumption)
  have "flush_nodes enc rdv alg rd (Some root) ?s = Some (Inr (), s')"
    using it process_loop_list [of ?s it] s'(1) root(2) by (simp add: flush_nodes_def INITIAL_BUMP_SIZE_def)
  moreover have "[] \<in> dom (pst_cells s')" using s'(3) unsaved_at_self [of "([], m)"] root(1) by (force simp: image_subset_iff)
  ultimately show thesis using that s'(2) by blast
qed

lemma flush_header_keeps:
  assumes inv: "alloc_inv rdv al (dom D) fl" "contents_ok (st_bytes (al_storage al)) D" "sized al []" and wf: "header_wf h"
    and h: "h_size h = h_size (al_header al)" "h_free_lists h = h_free_lists (al_header al)"
  obtains st where "flush_to h (al_storage al) = (Inr (), st)" "alloc_inv rdv \<lparr>al_storage = st, al_header = h\<rparr> (dom D) fl"
    "contents_ok (st_bytes st) D" "sized \<lparr>al_storage = st, al_header = h\<rparr> []" "holds (st_bytes st) 0 (header_bytes h)"
proof -
  define st where "st = (al_storage al)\<lparr>st_bytes := write_bytes (st_bytes (al_storage al)) 0 (header_bytes h)\<rparr>"
  have len: "length (header_bytes h) = 392" by (rule length_header_bytes [OF wf])
  have keep: "holds (st_bytes st) b xs" if "2048 \<le> b" "holds (st_bytes (al_storage al)) b xs" for b xs
    using that len by (auto simp: st_def intro: holds_write_other)
  have "alloc_inv rdv \<lparr>al_storage = st, al_header = h\<rparr> (dom D) fl"
    by (rule alloc_inv_low [OF inv(1) h]) (use keep in \<open>simp_all add: st_def\<close>)
  moreover have "contents_ok (st_bytes st) D" by (rule contents_ok_low [OF inv(1,2)]) (use keep in auto)
  moreover have "sized \<lparr>al_storage = st, al_header = h\<rparr> []"
  proof -
    have "2048 \<le> unat (h_size (al_header al))" using inv(1) by (simp add: alloc_inv_def)
    then show ?thesis using inv(3) len by (simp add: sized_def storage_size_def st_def length_write_bytes h max_def)
  qed
  moreover have "flush_to h (al_storage al) = (Inr (), st)" by (simp add: flush_to_def sbind_def sreturn_def storage_write_def st_def)
  moreover have "holds (st_bytes st) 0 (header_bytes h)" by (simp add: st_def holds_write_same)
  ultimately show thesis by (intro that)
qed

text \<open>A header that was valid stays valid while the storage grows with it.\<close>

lemma validate_same:
  assumes old: "validate b alg sz h = Inr ()" and inv: "alloc_inv rdv al used fl" and size: "sized al []"
    and h: "same_header h (al_header al)"
  shows "validate b alg (word_of_nat (storage_size (al_storage al))) (set_root_location loc (al_header al)) = Inr ()"
proof -
  let ?h = "set_root_location loc (al_header al)" and ?n = "storage_size (al_storage al)"
  have "unat (h_size (al_header al)) < 2 ^ 64" by (rule unsigned_less [THEN order.strict_trans2]) simp
  then have n: "unat (word_of_nat ?n :: u64) = ?n" using size by (simp add: sized_def unat_word_of_nat_eq)
  have "validate_size (word_of_nat ?n) ?h = Inr ()"
  proof -
    have sz: "?n \<le> unat (h_size ?h)" "unat (h_size ?h) < ?n + MAX_AREA_SIZE" "2048 \<le> unat (h_size ?h)" "16 dvd unat (h_size ?h)"
      using inv size by (simp_all add: set_root_location_def alloc_inv_def sized_def)
    then have "unat (saturating_sub (h_size ?h) (word_of_nat ?n)) < MAX_AREA_SIZE"
      using n by (simp add: saturating_sub_def word_le_nat_alt unat_sub_if')
    then show ?thesis using sz(3,4)
      by (auto simp: validate_size_def Let_def HEADER_SIZE_def MIN_AREA_SIZE_def AREA_SIZES_def word_less_nat_alt)
  qed
  moreover have "h_version ?h = h_version h" "h_endian_test ?h = h_endian_test h" "h_area_size_hash ?h = h_area_size_hash h"
    "h_node_hash_algorithm ?h = h_node_hash_algorithm h"
    by (subst h [unfolded same_header_def], simp add: set_root_location_def)+
  ultimately show ?thesis using old
    by (simp add: validate_def validate_endian_test_def validate_area_size_hash_def validate_node_hash_algorithm_def
        rbind_def split: sum.splits if_splits)
qed

subsection \<open>A database on storage\<close>

text \<open>
  The invariant that persisting keeps: the allocator owns the areas of \<open>C\<close>, whose bytes are in place, the storage
  ends where the header says, and the header in memory is one that opening accepts.
\<close>

definition durable ::
  "build_info \<Rightarrow> nat reader_fn \<Rightarrow> node_hash_algorithm \<Rightarrow> allocator \<Rightarrow> contents \<Rightarrow> (area_index \<Rightarrow> laddr list) \<Rightarrow> bool" where
  "durable b rdv alg al C fl \<longleftrightarrow>
     alloc_inv rdv al (dom C) fl \<and> contents_ok (st_bytes (al_storage al)) C \<and> sized al [] \<and> header_wf (al_header al) \<and>
     has_extended_header_fields (h_version (al_header al)) \<and>
     validate b alg (word_of_nat (storage_size (al_storage al))) (al_header al) = Inr ()"

lemma durable_read:
  assumes "durable b rdv alg al C fl" "on_disk rdv alg C a t"
  shows "\<exists>n A. uncached_read rdv alg (al_storage al) a = Inr n \<and> repr (uncached_read rdv alg (al_storage al)) n t A"
proof (rule on_disk_read [OF assms(2)])
  show "contents_ok (st_bytes (al_storage al)) C" using assms(1) by (simp add: durable_def)
  fix c i assume "(c, i) \<in> dom C"
  then have "16 dvd unat c" using assms(1) by (intro alloc_inv_area(3)) (auto simp: durable_def)
  moreover have "\<not> 16 dvd unat (- 1 :: u64)" by (simp add: unsigned_minus_1_eq_mask mask_eq_exp_minus_1)
  ultimately show "c \<noteq> - 1" by auto
qed

lemma flush_root:
  assumes al: "alloc_inv rdv al (dom D) fl" "contents_ok (st_bytes (al_storage al)) D" "sized al []" "same_header h0 (al_header al)"
    and h0: "header_wf h0" "has_extended_header_fields (h_version h0)" "validate b alg sz h0 = Inr ()"
    and loc: "pred_option (\<lambda>(a, r). a \<noteq> 0 \<and> length r = 32) loc"
  defines "h \<equiv> set_root_location loc (al_header al)"
  obtains st where "flush_to h (al_storage al) = (Inr (), st)" "durable b rdv alg \<lparr>al_storage = st, al_header = h\<rparr> D fl"
    "read_from_storage b alg st = Inr h"
proof -
  have wf: "header_wf h" unfolding h_def by (rule set_root_location_wf [OF alloc_inv_wf [OF al(1) h0(1) al(4)] loc])
  have same: "h_size h = h_size (al_header al)" "h_free_lists h = h_free_lists (al_header al)"
    by (simp_all add: h_def set_root_location_def)
  obtain st where st: "flush_to h (al_storage al) = (Inr (), st)" "alloc_inv rdv \<lparr>al_storage = st, al_header = h\<rparr> (dom D) fl"
    "contents_ok (st_bytes st) D" "sized \<lparr>al_storage = st, al_header = h\<rparr> []" "holds (st_bytes st) 0 (header_bytes h)"
    by (rule flush_header_keeps [OF al(1-3) wf same])
  let ?al = "\<lparr>al_storage = st, al_header = al_header al\<rparr>"
  have "alloc_inv rdv ?al (dom D) fl" "sized ?al []"
    using st(2,4) same by (simp_all add: alloc_inv_def heads_ok_def get_head_def sized_def)
  then have valid: "validate b alg (word_of_nat (storage_size st)) h = Inr ()"
    using validate_same [OF h0(3), of rdv ?al "dom D" fl loc] al(4) by (simp add: h_def)
  have "h_version h = h_version h0" unfolding h_def by (subst al(4) [unfolded same_header_def]) (simp add: set_root_location_def)
  then have "durable b rdv alg \<lparr>al_storage = st, al_header = h\<rparr> D fl"
    using st wf h0(2) valid by (simp add: durable_def)
  moreover obtain rest where "header_of_bytes (stream_from st 0) = Inr (h, rest)"
    using reads_holds [OF reads_header [OF wf] st(5)] by (auto simp: stream_from_def)
  then have "read_from_storage b alg st = Inr h" using valid by (simp add: read_from_storage_def)
  ultimately show thesis using that st(1) by blast
qed

end
