(* ===== verification/Persist_Properties.thy ===== *)
theory Persist_Properties
  imports Persist_Laws Storage_Properties Hash_Properties
begin

section \<open>Persisting and reopening\<close>

text \<open>
  What \<open>NodeStore::persist\<close> guarantees together with the allocator, the node encoding, the header and
  \<open>NodeStore::open\<close>: the committed trie is on storage and reopening finds it, and no trie that was there is lost.
\<close>

subsection \<open>A trie is persisted\<close>

lemma open_root_set:
  "has_extended_header_fields (h_version h) \<Longrightarrow>
   open_root hf rdv alg st (set_root_location (Some (a, r)) h) = Inr (Some (AddressWithHash a (Hash r)))"
  by (simp add: open_root_def header_root_hash_def set_root_location_def)

text \<open>
  C7. Persisting a committed revision makes it durable. From a database whose invariant holds, with a tree in
  memory that stands for a trie \<open>t\<close>, some of whose subtries may be on storage already, and room for the new
  nodes, \<open>persist\<close> returns successfully and the invariant holds again. The header read back from storage is then
  the header in memory, opening it gives the address and the hash of the root, what is read from that address
  is the trie \<open>t\<close>, and every trie that was on storage before can still be read.
\<close>

theorem persist_then_open:
  assumes "varint (hf_encode_var hf) rdv" "durable b rdv alg al C fl"
    and "cell_node m = Some n" "to_save rdv alg C n t" "length (into_triehash (hf_keccak256 hf) h) = 32"
    and "unat (h_size (al_header al)) + length (unsaved_cell m []) * MAX_AREA_SIZE < 2 ^ 64"
  shows "\<exists>s a D fl'. persist hf rdv alg rd (Some (ChildMaybePersisted m h)) \<lparr>pst_alloc = al, pst_cells = Map.empty\<rparr> = Some (Inr (), s) \<and>
    durable b rdv alg (pst_alloc s) D fl' \<and> C \<subseteq>\<^sub>m D \<and> on_disk rdv alg D a t \<and>
    read_from_storage b alg (al_storage (pst_alloc s)) = Inr (al_header (pst_alloc s)) \<and>
    open_root hf rdv alg (al_storage (pst_alloc s)) (al_header (pst_alloc s)) =
      Inr (Some (AddressWithHash a (Hash (into_triehash (hf_keccak256 hf) h)))) \<and>
    (\<exists>n' A. uncached_read rdv alg (al_storage (pst_alloc s)) a = Inr n' \<and>
       repr (uncached_read rdv alg (al_storage (pst_alloc s))) n' t A) \<and>
    (\<forall>c u. on_disk rdv alg C c u \<longrightarrow>
       (\<exists>n' A. uncached_read rdv alg (al_storage (pst_alloc s)) c = Inr n' \<and>
          repr (uncached_read rdv alg (al_storage (pst_alloc s))) n' u A))"
proof -
  let ?root = "ChildMaybePersisted m h" and ?r = "into_triehash (hf_keccak256 hf) h"
  note dur = assms(2) [unfolded durable_def]
  obtain s D fl' where s: "flush_nodes (hf_encode_var hf) rdv alg rd (Some ?root) \<lparr>pst_alloc = al, pst_cells = Map.empty\<rparr> = Some (Inr (), s)"
    "loop_inv rdv alg t C (al_header al) D fl' [] s" "[] \<in> dom (pst_cells s)"
    by (rule flush_nodes_inv [OF assms(1) _ _ _ assms(3) _ assms(4,6), of fl ?root rd]) (use dur in auto)
  note inv = s(2) [unfolded loop_inv_def]
  obtain m' a where a: "pst_cells s [] = Some m'" "as_linear_address m' = Some a" "on_disk rdv alg D a t"
    using s(3) inv unfolding placed_def by fastforce
  have loc: "Option.bind (Some ?root) (\<lambda>ch. map_option (\<lambda>(addr, hash). (addr, into_triehash (hf_keccak256 hf) hash))
      (child_persist_info (child_now (pst_cells s) [] ch))) = Some (a, ?r)"
    using a(1,2) by (simp add: cell_state_def)
  obtain i where i: "(a, i) \<in> dom D" using on_disk_used [OF a(3)] by blast
  have "a \<noteq> 0" using alloc_inv_area(2) [OF _ i] inv by fastforce
  let ?h = "set_root_location (Some (a, ?r)) (al_header (pst_alloc s))"
  obtain st where st: "flush_to ?h (al_storage (pst_alloc s)) = (Inr (), st)"
    "durable b rdv alg \<lparr>al_storage = st, al_header = ?h\<rparr> D fl'" "read_from_storage b alg st = Inr ?h"
    by (rule flush_root [of rdv "pst_alloc s" D fl' "al_header al" b alg "word_of_nat (storage_size (al_storage al))" "Some (a, ?r)"])
      (use inv dur assms(5) \<open>a \<noteq> 0\<close> in \<open>auto simp: restrict_map_def\<close>)
  let ?s = "s\<lparr>pst_alloc := \<lparr>al_storage = st, al_header = ?h\<rparr>\<rparr>"
  have "persist hf rdv alg rd (Some ?root) \<lparr>pst_alloc = al, pst_cells = Map.empty\<rparr> = Some (Inr (), ?s)"
    using s(1) st(1) loc by (simp add: persist_def)
  moreover have "has_extended_header_fields (h_version (al_header (pst_alloc s)))"
    using st(2) by (simp add: durable_def set_root_location_def)
  then have "open_root hf rdv alg st ?h = Inr (Some (AddressWithHash a (Hash ?r)))" by (rule open_root_set)
  moreover have "C \<subseteq>\<^sub>m D" using inv by blast
  ultimately show ?thesis
    using st(2,3) a(3) durable_read [OF st(2)] on_disk_mono [of rdv alg C _ _ D]
    by (intro exI [of _ ?s] exI [of _ a] exI [of _ D] exI [of _ fl'])
      simp
qed

definition sample_unsaved :: node where
  "sample_unsaved = Branch [1] (Some [7])
     ((\<lambda>_. None)(2 := Some (ChildMaybePersisted (Unpersisted (Leaf [3] [8])) (Hash (replicate 32 4))),
                 5 := Some (ChildMaybePersisted (Unpersisted (Leaf [] [9])) (Hash (replicate 32 6)))))"

definition sample_saved :: trie where
  "sample_saved = TBranch [1] (Some [7]) ((\<lambda>_. None)(2 := Some (TLeaf [3] [8]), 5 := Some (TLeaf [] [9])))"

lemma sample_to_save: "to_save rdv MerkleDB Map.empty sample_unsaved sample_saved"
proof -
  have leaf: "to_save rdv MerkleDB Map.empty (Leaf p v) (TLeaf p v)" if "length p + length v < 10" for p v
    by (rule save_Leaf) (use that in \<open>simp add: roomy_def\<close>)
  show ?thesis
    unfolding sample_unsaved_def sample_saved_def
  proof (rule save_Branch)
    show "roomy [1] (Some [7])" by (simp add: roomy_def)
    show "iter_present ((\<lambda>_. None)(2 := Some (ChildMaybePersisted (Unpersisted (Leaf [3] [8])) (Hash (replicate 32 4))),
                 5 := Some (ChildMaybePersisted (Unpersisted (Leaf [] [9])) (Hash (replicate 32 6))))) \<noteq> []"
      by (simp add: iter_present_def children_iter_def pc_ALL_def upt_rec map_filter_def)
  qed (auto simp: leaf split: if_splits)
qed

lemma sample_durable: "durable sample_build rdv MerkleDB sample_allocator Map.empty (\<lambda>_. [])"
proof -
  let ?h = "NodeStoreHeader_new sample_build MerkleDB"
  have len: "storage_size (al_storage sample_allocator) = 392"
    by (simp add: storage_size_def sample_allocator_def length_header_bytes sample_header_wf)
  have valid: "validate sample_build MerkleDB 392 ?h = Inr ()"
    unfolding validate_iff by (simp add: NodeStoreHeader_new_def HEADER_SIZE_def Version_new_def VALID_V1_VERSIONS_def)
  have h: "al_header sample_allocator = ?h" by (simp add: sample_allocator_def)
  have "has_extended_header_fields (h_version ?h)" by (simp add: NodeStoreHeader_new_def)
  then show ?thesis
    using sample_inv [of rdv] valid sample_header_wf [of MerkleDB]
    by (simp add: durable_def len h contents_ok_def sized_def NodeStoreHeader_new_def HEADER_SIZE_def)
qed

lemma sample_unsaved_count: "length (unsaved_cell (Unpersisted sample_unsaved) []) = 3"
  by (simp add: sample_unsaved_def unsaved_below_Branch unpersisted_children_def iter_present_def children_iter_def
      pc_ALL_def upt_rec map_filter_def cell_state_def unsaved_at_def)

theorem persist_then_open_witness:
  "\<exists>s a D fl. persist sample_hf (leb128_read 10) MerkleDB sample_reader
       (Some (ChildMaybePersisted (Unpersisted sample_unsaved) (Hash (replicate 32 5))))
       \<lparr>pst_alloc = sample_allocator, pst_cells = Map.empty\<rparr> = Some (Inr (), s) \<and>
     durable sample_build (leb128_read 10) MerkleDB (pst_alloc s) D fl \<and>
     open_root sample_hf (leb128_read 10) MerkleDB (al_storage (pst_alloc s)) (al_header (pst_alloc s)) =
       Inr (Some (AddressWithHash a (Hash (replicate 32 5)))) \<and>
     (\<exists>n A. uncached_read (leb128_read 10) MerkleDB (al_storage (pst_alloc s)) a = Inr n \<and>
        repr (uncached_read (leb128_read 10) MerkleDB (al_storage (pst_alloc s))) n sample_saved A)"
proof -
  have "unat (h_size (al_header sample_allocator)) + length (unsaved_cell (Unpersisted sample_unsaved) []) * MAX_AREA_SIZE < 2 ^ 64"
    by (simp only: sample_unsaved_count) simp
  from persist_then_open [OF sample_hf_ok(2) sample_durable _ sample_to_save _ this, of "Hash (replicate 32 5)" sample_reader]
  show ?thesis by (simp only: cell_node.simps into_triehash.simps length_replicate simp_thms) blast
qed

end
