(* ===== verification/Spec2Isabelle.thy ===== *)
theory Spec2Isabelle
  imports Iterators Trie_Properties Codec_Properties Storage_Properties Hash_Properties Checker_Repair Iter_Properties Proof_Properties
    Persist_Properties
begin

text \<open>
  \<^bold>\<open>Firewood: a verification of the trie, its storage format and its batches\<close>

  Firewood keeps a Merkle-Patricia trie directly on disk. A revision is a tree of nodes; a proposal
  copies the nodes it changes into memory, logs the hashed nodes it replaces (the future-delete log),
  and is hashed, written and committed later.

  \<^bold>\<open>Theories and the code they model.\<close>

  \<^item> \<open>Prelude\<close>: errors as values, the \<open>Result\<close> of a method on a mutable receiver, slices, words.
  \<^item> \<open>Paths\<close>: nibbles (\<open>storage/src/path/component.rs\<close>), node paths (\<open>storage/src/node/path.rs\<close>), the
    overlap of two paths (\<open>PrefixOverlap\<close> of \<open>firewood/src/merkle/mod.rs\<close>).
  \<^item> \<open>Iterators\<close>: \<open>NibblesIterator\<close>, \<open>PackedPathRef\<close> and \<open>PackedBytes\<close> as instances of the contract of a
    double-ended iterator.
  \<^item> \<open>Nodes\<close>: nodes, children and persistence states (\<open>storage/src/node\<close>).
  \<^item> \<open>Trie_Spec\<close>: the abstract trie, its map, its canonical form, and the relation \<open>repr\<close> between a node
    graph over some storage and the trie it stands for.
  \<^item> \<open>Mutable_Store\<close>: the mutable node store of a proposal or reconstruction
    (\<open>storage/src/nodestore/mod.rs\<close>).
  \<^item> \<open>Merkle\<close>, \<open>Merkle_Remove\<close>, \<open>Merkle_Prefix\<close>: lookup, insertion, removal and prefix removal
    (\<open>firewood/src/merkle/mod.rs\<close>) with their correctness lemmas.
  \<^item> \<open>Merkle_Map\<close>, \<open>Batch\<close>: the store as a map, batches and their serial application
    (\<open>firewood/src/batch_op.rs\<close>, \<open>firewood/src/api.rs\<close>, \<open>firewood/src/manager.rs\<close>).
  \<^item> \<open>Trie_Properties\<close>: the properties of the trie operations.
  \<^item> \<open>Areas\<close>, \<open>Byte_Readers\<close>, \<open>Node_Codec\<close>, \<open>Codec_Properties\<close>: area sizes and addresses
    (\<open>storage/src/nodestore/primitives.rs\<close>), readers, hashes and their bytes (\<open>storage/src/hashtype.rs\<close>), the
    encoding of nodes (\<open>storage/src/node/mod.rs\<close>) and that it is read back.
  \<^item> \<open>Storage\<close>, \<open>Header\<close>, \<open>Alloc\<close>: linear storage with the buffering reader and the free-list cache
    (\<open>storage/src/linear\<close>), the database header (\<open>storage/src/nodestore/header.rs\<close>), the allocator with
    its free lists (\<open>storage/src/nodestore/alloc.rs\<close>).
  \<^item> \<open>Alloc_Safety\<close>, \<open>Alloc_Reach\<close>, \<open>Storage_Properties\<close>: the allocator's invariant, the states it can
    reach (with the tiling of the file by areas), and the properties of storage, header and allocator.
  \<^item> \<open>Rlp\<close>, \<open>Hashing\<close>: the RLP encoder and decoder (\<open>storage/src/rlp.rs\<close>) and the two hashing schemes
    (\<open>storage/src/hashers\<close>, \<open>storage/src/hashednode.rs\<close>, \<open>storage/src/hashedshunt.rs\<close>,
    \<open>storage/src/nodestore/hash.rs\<close>); \<open>Hash_Laws\<close>, \<open>Hash_Updates\<close>, \<open>Hash_Binding\<close>, \<open>Eth_Laws\<close> and
    \<open>Hash_Properties\<close>: incremental hashing computes the hash of the whole trie, the root hash binds the
    contents up to a collision that the statement exhibits, the account splice keeps hashes.
  \<^item> \<open>Node_Read\<close>: reading nodes from storage through the node cache (\<open>storage/src/nodestore/mod.rs\<close>).
  \<^item> \<open>Range_Set\<close>, \<open>Checker\<close>: the set of address ranges (\<open>storage/src/checker/range_set.rs\<close>) and the
    consistency checker with its repairs (\<open>storage/src/checker/mod.rs\<close>); \<open>Checker_Laws\<close>,
    \<open>Checker_Properties\<close>, \<open>Checker_Repair\<close>: the checker accepts exactly the sound images, returns on
    every image, accepts what the allocator leaves, and what the repairs do.
  \<^item> \<open>Trie_Iter\<close>, \<open>Iter_Laws\<close>: the iterators over a trie (\<open>firewood/src/iter.rs\<close>) and the sequence they
    deliver; \<open>Merge\<close>: the batch that replaces a range of keys (\<open>firewood/src/merkle/merge.rs\<close>);
    \<open>Iter_Properties\<close>: iteration is exact and ordered, merging replaces exactly the range.
  \<^item> \<open>Path_Views\<close>: splitting and joining paths, path guards and the upper bound of a prefix
    (\<open>storage/src/path\<close>); \<open>Proof_Types\<close>: proofs of single keys, their generation and verification
    (\<open>firewood/src/proofs/types.rs\<close>, \<open>Merkle::prove\<close>); \<open>Proof_Wire\<close>: the wire format of range and change proofs
    (\<open>ser.rs\<close>, \<open>de.rs\<close>, \<open>reader.rs\<close>, \<open>header.rs\<close>, \<open>frame.rs\<close> of \<open>firewood/src/proofs\<close>,
    \<open>firewood/src/merkle/childmask.rs\<close>); \<open>Proof_Laws\<close>, \<open>Proof_Gen\<close>, \<open>Wire_Laws\<close>, \<open>Proof_Properties\<close>: an accepted
    proof is right up to a collision that the statement exhibits, a generated proof is accepted for exactly
    what the trie holds, and messages are read back.
  \<^item> \<open>Persist\<close>: writing a committed revision to storage and opening it again
    (\<open>storage/src/nodestore/persist.rs\<close>, \<open>NodeStore::open\<close>); \<open>Persist_Order\<close>: the iterator over the nodes that are
    not persisted visits each once and after its children; \<open>Persist_Disk\<close>: tries on storage, and trees in memory
    that are to be saved; \<open>Persist_Laws\<close>: the invariant of the loop that places and writes the nodes;
    \<open>Persist_Properties\<close>: a revision that is persisted is what opening finds, and nothing on storage is lost.

  \<^bold>\<open>How state and operations correspond.\<close> A method on \<open>&mut self\<close> that returns a \<open>Result\<close> is a function
  from the state to an outcome and the new state, also on an error. A panic is the error value
  \<open>Panic\<close>. The storage below a node store is the reader argument \<open>rd\<close> from addresses to nodes.
  Children arrays are functions from nibbles. A \<open>MaybePersistedNode\<close>, a shared cell in the source, is
  the value of that cell; where cells change while a tree that holds them is walked, in \<open>Persist\<close>, they are
  named by their position and their new states are kept beside the tree.

  \<^bold>\<open>Bounds.\<close> \<open>get_helper\<close>, \<open>insert_helper\<close>, \<open>remove_helper\<close> and \<open>remove_prefix_helper\<close> recurse on a key that
  gets shorter. \<open>delete_children\<close> follows stored nodes, so it takes a depth bound; \<open>DELETE_FUEL\<close>, two
  levels per key byte plus one, is enough because every level of a canonical trie consumes a nibble of a
  key and \<open>check_batch_op\<close> limits keys to \<open>MAX_KEY_BYTES\<close>. The checker descends at most \<open>trie_fuel\<close> levels,
  one more than the number of 16-byte areas that fit below the highest address; the visited set makes a
  deeper descent impossible, which \<open>check_returns\<close> proves. The loops that split a leaked range are partial
  functions whose value is \<open>None\<close> when they do not end; the properties show that they end. Collecting the path
  of a key ends because every item consumes a nibble of the key or is the last. The iterator and the loop of
  \<open>persist\<close> are partial functions too; \<open>persist_then_open\<close> states that they return.

  \<^bold>\<open>Not modelled.\<close> The verification of range and change proofs beyond their boundary proofs, the differences
  between two tries, the revision manager, the worker thread that calls \<open>persist\<close>, parallel batches. File I/O, threads and channels, metrics, formatting, the foreign
  function interface and the command line tools.
\<close>

end
